(* ===== verification/Redis_Prelude.thy ===== *)
theory Redis_Prelude
  imports Main "HOL-Library.Word"
begin

text \<open>
  Shared vocabulary of the development: the machine types of the C++ program, the ways in which
  a call can end other than by returning (\<open>cpp_error\<close>), sequencing of such calls
  (\<open>and_then\<close>), bytes against characters, and the generic notion of a state that
  a step relation can reach.
\<close>

section \<open>Machine types\<close>

type_synonym u8 = "8 word"
type_synonym u16 = "16 word"
type_synonym u32 = "32 word"
type_synonym u64 = "64 word"

text \<open>\<open>size_t\<close> is 64 bits wide on the platforms the build files name. A C++ \<open>int\<close>,
  \<open>long\<close> and \<open>long long\<close> is modelled by an HOL integer together with the
  bounds of its type, because leaving these bounds is undefined rather than wrapping.\<close>

type_synonym size_t = "64 word"

definition int_ok :: "int \<Rightarrow> bool" where
  "int_ok i \<longleftrightarrow> - (2 ^ 31) \<le> i \<and> i < 2 ^ 31"

definition long_ok :: "int \<Rightarrow> bool" where
  "long_ok i \<longleftrightarrow> - (2 ^ 63) \<le> i \<and> i < 2 ^ 63"

section \<open>Calls that do not return normally\<close>

text \<open>
  An uncaught C++ exception (nothing in the program catches one, so it ends the process), an
  access the language leaves undefined, and a recursion deeper than the stack it is given.
\<close>

datatype cpp_error =
    Runtime_Error string
  | Invalid_Argument
  | Out_Of_Range
  | Regex_Error
  | Undefined_Behaviour
  | Stack_Overflow

type_synonym 'a result = "cpp_error + 'a"

fun and_then :: "'a result \<Rightarrow> ('a \<Rightarrow> 'b result) \<Rightarrow> 'b result" where
  "and_then (Inl e) f = Inl e"
| "and_then (Inr x) f = f x"

lemma and_then_split:
  "P (and_then r f) \<longleftrightarrow> (\<forall>e. r = Inl e \<longrightarrow> P (Inl e)) \<and> (\<forall>x. r = Inr x \<longrightarrow> P (f x))"
  by (cases r) auto

lemma and_then_Inr_iff: "and_then r f = Inr y \<longleftrightarrow> (\<exists>x. r = Inr x \<and> f x = Inr y)"
  by (cases r) auto

text \<open>Signed \<open>int\<close> addition: leaving the range of the type is undefined.\<close>

definition int_add :: "int \<Rightarrow> int \<Rightarrow> int result" where
  "int_add a b = (if int_ok (a + b) then Inr (a + b) else Inl Undefined_Behaviour)"

lemma int_add_ok [simp]: "int_ok (a + b) \<Longrightarrow> int_add a b = Inr (a + b)"
  by (simp add: int_add_def)

section \<open>Bytes and characters\<close>

text \<open>Files are byte sequences, strings are HOL strings; a C++ \<open>char\<close> is one byte.\<close>

definition char_of_byte :: "u8 \<Rightarrow> char" where
  "char_of_byte b = char_of (unat b)"

definition byte_of_char :: "char \<Rightarrow> u8" where
  "byte_of_char c = word_of_nat (of_char c)"

lemma of_char_less_256: "(of_char c :: nat) < 256"
  by (metis mod_less_divisor of_char_mod_256 zero_less_numeral)

lemma char_of_byte_of_char [simp]: "char_of_byte (byte_of_char c) = c"
  using of_char_less_256 [of c]
  by (simp add: char_of_byte_def byte_of_char_def unat_of_nat take_bit_nat_eq_self)

lemma byte_of_char_of_byte [simp]: "byte_of_char (char_of_byte b) = b"
proof -
  have "unat b < 256"
    using unsigned_less [where w = b] by simp
  then show ?thesis
    by (simp add: char_of_byte_def byte_of_char_def)
qed

lemma map_char_of_byte_of_char [simp]: "map (char_of_byte \<circ> byte_of_char) s = s"
  by (simp add: comp_def)

section \<open>Small words as numbers\<close>

lemma unat_size_t_of_nat [simp]: "n < 2 ^ 64 \<Longrightarrow> unat (word_of_nat n :: size_t) = n"
  by (simp add: unat_of_nat take_bit_nat_eq_self)

lemma unat_u8_of_nat [simp]: "n < 256 \<Longrightarrow> unat (word_of_nat n :: u8) = n"
  by (simp add: unat_of_nat take_bit_nat_eq_self)

lemma unat_u8_less [simp]: "unat (b :: u8) < 256"
proof -
  have "unat b < 2 ^ LENGTH(8)" by (rule unsigned_less)
  then show ?thesis by simp
qed

lemma unat_u64_less [simp]: "unat (v :: u64) < 2 ^ 64"
proof -
  have "unat v < 2 ^ LENGTH(64)" by (rule unsigned_less)
  then show ?thesis by simp
qed

section \<open>Maps from association lists\<close>

lemma map_of_rev_distinct: "distinct (map fst xs) \<Longrightarrow> map_of (rev xs) = map_of xs"
  by (subst map_of_inject_set) (simp_all add: rev_map [symmetric])

section \<open>Reachable states\<close>

text \<open>
  The concurrent parts of the program are step relations. A state is reachable when it is
  initial or one step away from a reachable state; an invariant of the relation is proved
  once, in the locale, and each component interprets it with its own relation.
\<close>

inductive reachable :: "('s \<Rightarrow> bool) \<Rightarrow> ('s \<Rightarrow> 's \<Rightarrow> bool) \<Rightarrow> 's \<Rightarrow> bool"
  for start step where
  reach_start: "start s \<Longrightarrow> reachable start step s"
| reach_step: "reachable start step s \<Longrightarrow> step s t \<Longrightarrow> reachable start step t"

locale invariant_system =
  fixes start :: "'s \<Rightarrow> bool"
    and step :: "'s \<Rightarrow> 's \<Rightarrow> bool"
    and inv :: "'s \<Rightarrow> bool"
  assumes inv_start: "start s \<Longrightarrow> inv s"
    and inv_step: "step s t \<Longrightarrow> inv s \<Longrightarrow> inv t"
begin

lemma reachable_inv: "reachable start step s \<Longrightarrow> inv s"
  by (induction rule: reachable.induct) (auto intro: inv_start inv_step)

lemma run_inv: "step\<^sup>*\<^sup>* s t \<Longrightarrow> inv s \<Longrightarrow> inv t"
  by (induction rule: rtranclp_induct) (auto intro: inv_step)

end

text \<open>
  A relation that comes to rest: every step keeps an invariant under which a measure gets smaller. A run
  is then no longer than the measure of its first state, and can be continued to a state with no step.
\<close>

definition at_rest :: "('s \<Rightarrow> 's \<Rightarrow> bool) \<Rightarrow> 's \<Rightarrow> bool" where
  "at_rest step s \<longleftrightarrow> (\<forall>t. \<not> step s t)"

locale settling_system =
  fixes step :: "'s \<Rightarrow> 's \<Rightarrow> bool"
    and inv :: "'s \<Rightarrow> bool"
    and size_of :: "'s \<Rightarrow> nat"
  assumes step_inv: "step s t \<Longrightarrow> inv s \<Longrightarrow> inv t"
    and step_smaller: "step s t \<Longrightarrow> inv s \<Longrightarrow> size_of t < size_of s"
begin

lemma run_bounded: "(step ^^ n) s t \<Longrightarrow> inv s \<Longrightarrow> inv t \<and> n + size_of t \<le> size_of s"
proof (induction n arbitrary: t)
  case (Suc n)
  from Suc.prems(1) obtain u where u: "(step ^^ n) s u" "step u t"
    by auto
  from Suc.IH [OF u(1) Suc.prems(2)] step_inv [OF u(2)] step_smaller [OF u(2)] show ?case
    by auto
qed simp

lemma comes_to_rest: "inv s \<Longrightarrow> \<exists>t. step\<^sup>*\<^sup>* s t \<and> at_rest step t"
proof (induction "size_of s" arbitrary: s rule: less_induct)
  case less
  show ?case
  proof (cases "at_rest step s")
    case False
    then obtain u where u: "step s u"
      by (auto simp: at_rest_def)
    from less.hyps [OF step_smaller [OF u less.prems] step_inv [OF u less.prems]] obtain t where
      "step\<^sup>*\<^sup>* u t" "at_rest step t" by blast
    with u show ?thesis
      by (blast intro: converse_rtranclp_into_rtranclp)
  qed auto
qed

end

text \<open>
  A system in steps as small as the code's and one in larger steps: a step of the first is one of the
  second on the abstract state, or leaves that state as it is.
\<close>

locale refining_system =
  fixes start :: "'s \<Rightarrow> bool"
    and step :: "'s \<Rightarrow> 's \<Rightarrow> bool"
    and abs_start :: "'a \<Rightarrow> bool"
    and abs_step :: "'a \<Rightarrow> 'a \<Rightarrow> bool"
    and abs :: "'s \<Rightarrow> 'a"
  assumes start_refines: "start s \<Longrightarrow> abs_start (abs s)"
    and step_refines: "step s t \<Longrightarrow> abs_step (abs s) (abs t) \<or> abs t = abs s"
begin

lemma reachable_refines: "reachable start step s \<Longrightarrow> reachable abs_start abs_step (abs s)"
  by (induction rule: reachable.induct) (metis reach_start start_refines, metis reach_step step_refines)

lemma run_refines: "step\<^sup>*\<^sup>* s t \<Longrightarrow> abs_step\<^sup>*\<^sup>* (abs s) (abs t)"
  by (induction rule: rtranclp_induct) (simp, metis rtranclp.rtrancl_into_rtrancl step_refines)

end

lemma reachable_run: "reachable start step s \<Longrightarrow> step\<^sup>*\<^sup>* s t \<Longrightarrow> reachable start step t"
  by (rotate_tac 1, induction rule: rtranclp_induct) (auto intro: reach_step)

end
