(* ===== verification/Cpp_Std.thy ===== *)
theory Cpp_Std
  imports Redis_Prelude
begin

text \<open>
  The part of the C++ standard library the program computes with: \<open>std::string\<close> indexing,
  \<open>find\<close>, \<open>substr\<close>, \<open>std::stoi\<close>, \<open>std::to_string\<close> and \<open>toupper\<close>. The second half
  gives the cursor calculus by which the component theories reason about a position inside a
  buffer: \<open>cursor input pos rest\<close> says that \<open>rest\<close> is what remains at \<open>pos\<close>.
\<close>

section \<open>Strings\<close>

definition NUL :: char where
  "NUL = CHR 0x00"

definition CRLF :: string where
  "CRLF = [CHR 0x0D, CHR 0x0A]"

text \<open>What \<open>std::endl\<close> writes.\<close>

definition LF :: string where
  "LF = [CHR 0x0A]"

definition npos :: size_t where
  "npos = - 1"

text \<open>\<open>s[pos]\<close> on a const string: the terminating NUL may be read, nothing behind it.\<close>

definition char_at :: "string \<Rightarrow> size_t \<Rightarrow> char result" where
  "char_at s pos =
     (if unat pos < length s then Inr (s ! unat pos)
      else if unat pos = length s then Inr NUL
      else Inl Undefined_Behaviour)"

text \<open>\<open>s.substr(pos, n)\<close> throws behind the end and clips the length.\<close>

definition substr :: "string \<Rightarrow> size_t \<Rightarrow> size_t \<Rightarrow> string result" where
  "substr s pos n =
     (if length s < unat pos then Inl Out_Of_Range
      else Inr (take (unat n) (drop (unat pos) s)))"

text \<open>\<open>s.find(pat, pos)\<close>: the first occurrence at or behind \<open>pos\<close>, or \<open>npos\<close>.\<close>

fun find_from :: "string \<Rightarrow> string \<Rightarrow> nat \<Rightarrow> nat option" where
  "find_from pat [] i = (if pat = [] then Some i else None)"
| "find_from pat (c # cs) i =
     (if take (length pat) (c # cs) = pat then Some i else find_from pat cs (Suc i))"

definition str_find :: "string \<Rightarrow> string \<Rightarrow> size_t \<Rightarrow> size_t" where
  "str_find s pat pos =
     (if length s < unat pos then npos
      else case find_from pat (drop (unat pos) s) (unat pos) of
        None \<Rightarrow> npos
      | Some i \<Rightarrow> word_of_nat i)"

section \<open>Characters\<close>

text \<open>
  \<open>::toupper\<close> in the C locale. A byte of 128 or more is a negative \<open>char\<close>, for which the language leaves
  \<open>::toupper\<close> undefined; the C library in use gives it back unchanged, and so does the definition.
\<close>

definition toupper :: "char \<Rightarrow> char" where
  "toupper c = (let n = of_char c :: nat in
     if 97 \<le> n \<and> n \<le> 122 then char_of (n - 32) else c)"

definition to_upper :: "string \<Rightarrow> string" where
  "to_upper s = map toupper s"

definition is_space :: "char \<Rightarrow> bool" where
  "is_space c = (let n = of_char c :: nat in n = 32 \<or> (9 \<le> n \<and> n \<le> 13))"

definition is_digit :: "char \<Rightarrow> bool" where
  "is_digit c = (let n = of_char c :: nat in 48 \<le> n \<and> n \<le> 57)"

definition digit_val :: "char \<Rightarrow> nat" where
  "digit_val c = of_char c - 48"

definition digit_char :: "nat \<Rightarrow> char" where
  "digit_char d = char_of (48 + d)"

section \<open>Numbers\<close>

fun nat_digits :: "nat \<Rightarrow> string" where
  "nat_digits n =
     (if n < 10 then [digit_char n] else nat_digits (n div 10) @ [digit_char (n mod 10)])"

declare nat_digits.simps [simp del]

definition to_string :: "int \<Rightarrow> string" where
  "to_string i = (if i < 0 then CHR ''-'' # nat_digits (nat (- i)) else nat_digits (nat i))"

text \<open>\<open>std::hex\<close>: lower-case digits, no prefix, no leading zeros.\<close>

definition hex_char :: "nat \<Rightarrow> char" where
  "hex_char d = (if d < 10 then char_of (48 + d) else char_of (87 + d))"

fun hex_digits :: "nat \<Rightarrow> string" where
  "hex_digits n =
     (if n < 16 then [hex_char n] else hex_digits (n div 16) @ [hex_char (n mod 16)])"

declare hex_digits.simps [simp del]

definition digits_val :: "string \<Rightarrow> nat" where
  "digits_val ds = foldl (\<lambda>v c. 10 * v + digit_val c) 0 ds"

text \<open>
  \<open>std::stoi(s)\<close>: leading white space, an optional sign, the longest run of digits (the rest is
  ignored); no digit throws \<open>invalid_argument\<close>, a value outside \<open>int\<close> throws
  \<open>out_of_range\<close>.
\<close>

definition split_sign :: "string \<Rightarrow> bool \<times> string" where
  "split_sign s = (case s of
      [] \<Rightarrow> (False, [])
    | c # cs \<Rightarrow> if c = CHR ''-'' then (True, cs)
                else if c = CHR ''+'' then (False, cs) else (False, s))"

definition stoi :: "string \<Rightarrow> int result" where
  "stoi s =
     (let (neg, s') = split_sign (dropWhile is_space s);
          ds = takeWhile is_digit s';
          v = (if neg then - int (digits_val ds) else int (digits_val ds))
      in if ds = [] then Inl Invalid_Argument
         else if int_ok v then Inr v else Inl Out_Of_Range)"

section \<open>Facts about characters and numbers\<close>

lemma of_char_char_of_nat [simp]: "n < 256 \<Longrightarrow> of_char (char_of n) = (n :: nat)"
  by simp

lemma digit_char_literals:
  "digit_char 0 = CHR ''0''" "digit_char (Suc 0) = CHR ''1''" "digit_char 2 = CHR ''2''"
  "digit_char 3 = CHR ''3''" "digit_char 4 = CHR ''4''" "digit_char 5 = CHR ''5''"
  "digit_char 6 = CHR ''6''" "digit_char 7 = CHR ''7''" "digit_char 8 = CHR ''8''"
  "digit_char 9 = CHR ''9''"
  by code_simp+

lemma hex_char_literals:
  "hex_char 0 = CHR ''0''" "hex_char (Suc 0) = CHR ''1''" "hex_char 2 = CHR ''2''"
  "hex_char 3 = CHR ''3''" "hex_char 4 = CHR ''4''" "hex_char 5 = CHR ''5''"
  "hex_char 6 = CHR ''6''" "hex_char 7 = CHR ''7''" "hex_char 8 = CHR ''8''"
  "hex_char 9 = CHR ''9''" "hex_char 10 = CHR ''a''" "hex_char 11 = CHR ''b''"
  "hex_char 12 = CHR ''c''" "hex_char 13 = CHR ''d''" "hex_char 14 = CHR ''e''"
  "hex_char 15 = CHR ''f''"
  by code_simp+

lemmas print_hex = hex_digits.simps hex_char_literals

lemmas print_number = to_string_def nat_digits.simps digit_char_literals

lemma digit_char_digit [simp]: "d < 10 \<Longrightarrow> is_digit (digit_char d)"
  by (simp add: is_digit_def digit_char_def)

lemma digit_val_digit_char [simp]: "d < 10 \<Longrightarrow> digit_val (digit_char d) = d"
  by (simp add: digit_val_def digit_char_def)

lemma is_digit_not [simp]:
  "is_digit c \<Longrightarrow> c \<noteq> CHR ''-''" "is_digit c \<Longrightarrow> c \<noteq> CHR ''+''"
  "is_digit c \<Longrightarrow> c \<noteq> CHR 0x0D" "is_digit c \<Longrightarrow> c \<noteq> CHR 0x0A" "is_digit c \<Longrightarrow> \<not> is_space c"
  by (auto simp: is_digit_def is_space_def Let_def)

lemma nat_digits_nonempty [simp]: "nat_digits n \<noteq> []"
  by (subst nat_digits.simps) simp

lemma nat_digits_all_digits: "list_all is_digit (nat_digits n)"
  by (induction n rule: nat_digits.induct) (subst nat_digits.simps, simp)

lemma nat_digits_set: "c \<in> set (nat_digits n) \<Longrightarrow> is_digit c"
  using nat_digits_all_digits [of n] by (auto simp: list_all_iff)

lemma digits_val_snoc: "digits_val (ds @ [c]) = 10 * digits_val ds + digit_val c"
  by (simp add: digits_val_def)

lemma digits_val_nat_digits [simp]: "digits_val (nat_digits n) = n"
proof (induction n rule: nat_digits.induct)
  case (1 n)
  show ?case
  proof (cases "n < 10")
    case True
    then show ?thesis
      by (subst nat_digits.simps) (simp add: digits_val_def)
  next
    case False
    with "1.IH" show ?thesis
      by (subst nat_digits.simps) (simp add: digits_val_snoc)
  qed
qed

lemma nat_digits_inj: "nat_digits m = nat_digits n \<Longrightarrow> m = n"
  by (metis digits_val_nat_digits)

lemma takeWhile_digits [simp]:
  "takeWhile is_digit (nat_digits n) = nat_digits n"
  using nat_digits_all_digits [of n] by (simp add: takeWhile_eq_all_conv list_all_iff)

lemma nat_digits_Cons: "\<exists>c cs. nat_digits n = c # cs \<and> is_digit c"
  using nat_digits_all_digits [of n] by (cases "nat_digits n") auto

lemma dropWhile_space_digits [simp]: "dropWhile is_space (nat_digits n) = nat_digits n"
  using nat_digits_Cons [of n] by auto

lemma split_sign_digits [simp]: "split_sign (nat_digits n) = (False, nat_digits n)"
  using nat_digits_Cons [of n] by (auto simp: split_sign_def)

text \<open>Reading back what \<open>std::to_string\<close> prints gives the number, of either sign.\<close>

lemma split_sign_minus [simp]: "split_sign (CHR ''-'' # ds) = (True, ds)"
  by (simp add: split_sign_def)

lemma is_space_minus [simp]: "\<not> is_space (CHR ''-'')"
  by (simp add: is_space_def)

lemma stoi_to_string [simp]: "int_ok i \<Longrightarrow> stoi (to_string i) = Inr i"
  by (cases "i < 0") (simp_all add: stoi_def to_string_def)

lemma to_string_nonneg: "0 \<le> i \<Longrightarrow> to_string i = nat_digits (nat i)"
  by (simp add: to_string_def)

lemma to_string_no_CR: "CHR 0x0D \<notin> set (to_string i)"
  by (auto simp: to_string_def is_digit_def dest: nat_digits_set)

lemma length_nat_digits: "n < 10 ^ Suc k \<Longrightarrow> length (nat_digits n) \<le> Suc k"
proof (induction k arbitrary: n)
  case 0
  then show ?case by (subst nat_digits.simps) simp
next
  case (Suc k)
  then have "length (nat_digits (n div 10)) \<le> Suc k"
    by (intro Suc.IH) simp
  then show ?case by (subst nat_digits.simps) simp
qed

lemma length_to_string:
  assumes "int_ok i"
  shows "length (to_string i) \<le> 11"
proof -
  have "nat i < 10 ^ Suc 9" "nat (- i) < 10 ^ Suc 9"
    using assms by (auto simp: int_ok_def)
  from this [THEN length_nat_digits] show ?thesis
    by (simp add: to_string_def)
qed

lemma stoi_bounds: "stoi s = Inr i \<Longrightarrow> int_ok i"
  by (auto simp: stoi_def Let_def split: prod.splits if_splits)

section \<open>Cursors\<close>

text \<open>
  The buffer is no longer than \<open>int\<close> can count, which every buffer the program receives is
  (at most 4096 bytes), so positions inside it do not wrap.
\<close>

definition cursor :: "string \<Rightarrow> size_t \<Rightarrow> string \<Rightarrow> bool" where
  "cursor input pos rest \<longleftrightarrow>
     length input < 2 ^ 31 \<and> unat pos \<le> length input \<and> drop (unat pos) input = rest"

lemma cursor_start [simp]: "cursor input 0 rest \<longleftrightarrow> length input < 2 ^ 31 \<and> rest = input"
  by (auto simp: cursor_def)

lemma cursor_of_nat:
  "length (pre @ rest) < 2 ^ 31 \<Longrightarrow> cursor (pre @ rest) (word_of_nat (length pre)) rest"
  by (simp add: cursor_def)

lemma cursor_length: "cursor input pos rest \<Longrightarrow> length input = unat pos + length rest"
  by (auto simp: cursor_def)

lemma cursor_small: "cursor input pos rest \<Longrightarrow> unat pos + length rest < 2 ^ 31"
  by (auto simp: cursor_def)

lemma unat_add_small:
  "unat p + n < 2 ^ 64 \<Longrightarrow> unat (p + word_of_nat n :: size_t) = unat p + n"
  by (simp add: unat_word_ariths)

lemma cursor_advance:
  assumes "cursor input pos (xs @ rest)"
  shows "cursor input (pos + word_of_nat (length xs)) rest"
proof -
  from assms have "unat pos + length xs < 2 ^ 64"
    using cursor_small [OF assms] by simp
  then show ?thesis
    using assms cursor_length [OF assms]
    by (auto simp: cursor_def unat_add_small add.commute [of "unat pos"] simp flip: drop_drop)
qed

lemma cursor_Cons: "cursor input pos (c # rest) \<Longrightarrow> cursor input (pos + 1) rest"
  using cursor_advance [of input pos "[c]" rest] by simp

lemma char_at_cursor [simp]:
  assumes "cursor input pos (c # rest)"
  shows "char_at input pos = Inr c"
proof -
  from assms have "drop (unat pos) input = c # rest"
    by (simp add: cursor_def)
  then have "unat pos < length input" "input ! unat pos = c"
    using nth_via_drop by (metis drop_all leI list.discI, fast)
  then show ?thesis
    by (simp add: char_at_def)
qed

lemma char_at_cursor_end [simp]: "cursor input pos [] \<Longrightarrow> char_at input pos = Inr NUL"
  by (auto simp: cursor_def char_at_def)

lemma substr_cursor:
  "cursor input pos (xs @ rest) \<Longrightarrow> substr input pos (word_of_nat (length xs)) = Inr xs"
  using cursor_small [of input pos "xs @ rest"] by (auto simp: cursor_def substr_def)

lemma find_from_CRLF:
  "CHR 0x0D \<notin> set xs \<Longrightarrow> find_from CRLF (xs @ CRLF @ rest) i = Some (i + length xs)"
  by (induction xs arbitrary: i) (auto simp: CRLF_def)

lemma str_find_cursor:
  assumes "cursor input pos (xs @ CRLF @ rest)" and "CHR 0x0D \<notin> set xs"
  shows "str_find input CRLF pos = pos + word_of_nat (length xs)"
proof -
  from assms have "drop (unat pos) input = xs @ CRLF @ rest" "unat pos \<le> length input"
    by (simp_all add: cursor_def)
  then show ?thesis
    using assms(2) by (simp add: str_find_def find_from_CRLF)
qed

end
