(* ===== verification/Resp_Utils.thy ===== *)
theory Resp_Utils
  imports Cpp_Std
begin

text \<open>
  The RESP wire format of \<^verbatim>\<open>src/utils.cpp\<close>: building a bulk string
  (\<open>create_string_reponse\<close>) and an array (\<open>create_array_reponse\<close>), and reading a bulk string at a
  position of the receive buffer (\<open>parseBulkString\<close>). The constants are the reply macros of
  \<^verbatim>\<open>globals.h\<close> and \<^verbatim>\<open>redis_parser.hpp\<close>.
\<close>

section \<open>Replies\<close>

definition NULL_RESPONSE :: string where
  "NULL_RESPONSE = ''$-1'' @ CRLF"

definition PING_RESPONSE :: string where
  "PING_RESPONSE = ''+PONG'' @ CRLF"

definition OK_RESPONSE :: string where
  "OK_RESPONSE = ''+OK'' @ CRLF"

definition create_string_reponse :: "string \<Rightarrow> string" where
  "create_string_reponse response =
     ''$'' @ to_string (int (length response)) @ CRLF @ response @ CRLF"

text \<open>The loop of \<open>create_array_reponse\<close> appends one bulk string per element.\<close>

fun append_responses :: "string \<Rightarrow> string list \<Rightarrow> string" where
  "append_responses response [] = response"
| "append_responses response (r # rs) =
     append_responses (response @ create_string_reponse r) rs"

definition create_array_reponse :: "string list \<Rightarrow> string" where
  "create_array_reponse response_arr =
     ''*'' @ to_string (int (length response_arr)) @ CRLF @ append_responses [] response_arr"

section \<open>Reading a bulk string\<close>

text \<open>
  The position is a \<open>size_t\<close>: \<open>length_end\<close> may be \<open>npos\<close>, in which case \<open>length_end + 2\<close> wraps
  to 1; \<open>length + 2\<close> is \<open>int\<close> arithmetic before it is added to the position.
\<close>

definition parseBulkString :: "string \<Rightarrow> size_t \<Rightarrow> (string \<times> size_t) result" where
  "parseBulkString input pos =
     and_then (char_at input pos) (\<lambda>c.
       if c \<noteq> CHR ''$'' then Inl (Runtime_Error ''protocol error: expected bulk string'')
       else
         let pos = pos + 1;
             length_end = str_find input CRLF pos
         in and_then (substr input pos (length_end - pos)) (\<lambda>digits.
              and_then (stoi digits) (\<lambda>len.
                let pos = length_end + 2
                in and_then (substr input pos (word_of_int len)) (\<lambda>bulk_string.
                     and_then (int_add len 2) (\<lambda>k.
                       Inr (bulk_string, pos + word_of_int k))))))"

section \<open>Facts about the encoders\<close>

lemma append_responses_eq:
  "append_responses acc rs = acc @ concat (map create_string_reponse rs)"
  by (induction rs arbitrary: acc) auto

lemma create_array_reponse_eq:
  "create_array_reponse rs =
     CHR ''*'' # to_string (int (length rs)) @ CRLF @ concat (map create_string_reponse rs)"
  by (simp add: create_array_reponse_def append_responses_eq)

lemma length_CRLF [simp]: "length CRLF = 2"
  by (simp add: CRLF_def)

lemma length_create_string_reponse:
  "length (create_string_reponse s) = length (to_string (int (length s))) + length s + 5"
  by (simp add: create_string_reponse_def)

lemma create_string_reponse_nonempty [simp]: "create_string_reponse s \<noteq> []"
  by (simp add: create_string_reponse_def)

section \<open>Reading at a cursor\<close>

text \<open>
  One header lemma serves bulk strings and arrays: behind a marker, the digits of a number up to
  the line end are found, cut out and read.
\<close>

lemma header_cursor:
  assumes "cursor input pos (to_string n @ CRLF @ rest)" and "int_ok n"
  defines "e \<equiv> str_find input CRLF pos"
  shows "and_then (substr input pos (e - pos)) stoi = Inr n"
    and "substr input pos (e - pos) = Inr (to_string n)"
    and "cursor input (e + 2) rest"
proof -
  have e: "e = pos + word_of_nat (length (to_string n))"
    unfolding e_def using assms(1) by (rule str_find_cursor) (rule to_string_no_CR)
  show sub: "substr input pos (e - pos) = Inr (to_string n)"
    using substr_cursor [OF assms(1)] by (simp add: e)
  then show "and_then (substr input pos (e - pos)) stoi = Inr n"
    using assms(2) by simp
  have "cursor input e (CRLF @ rest)"
    using cursor_advance [OF assms(1)] by (simp add: e)
  from cursor_advance [OF this] show "cursor input (e + 2) rest"
    by simp
qed

lemma parseBulkString_header:
  assumes "cursor input pos (CHR ''$'' # to_string n @ CRLF @ rest)" and "int_ok n"
  defines "p \<equiv> str_find input CRLF (pos + 1) + 2"
  shows "parseBulkString input pos =
           and_then (substr input p (word_of_int n)) (\<lambda>bulk_string.
             and_then (int_add n 2) (\<lambda>k. Inr (bulk_string, p + word_of_int k)))"
    and "cursor input p rest"
proof -
  have c: "cursor input (pos + 1) (to_string n @ CRLF @ rest)"
    using assms(1) by (rule cursor_Cons)
  show "cursor input p rest"
    unfolding p_def using c assms(2) by (rule header_cursor(3))
  show "parseBulkString input pos =
           and_then (substr input p (word_of_int n)) (\<lambda>bulk_string.
             and_then (int_add n 2) (\<lambda>k. Inr (bulk_string, p + word_of_int k)))"
    using assms(1,2) header_cursor(2) [OF c assms(2)]
    by (simp add: parseBulkString_def p_def Let_def)
qed

text \<open>A well-formed bulk string is read back, and the position moves behind it.\<close>

lemma parseBulkString_cursor:
  assumes "cursor input pos (create_string_reponse s @ rest)"
  shows "\<exists>pos'. parseBulkString input pos = Inr (s, pos') \<and> cursor input pos' rest"
proof -
  define p where "p = str_find input CRLF (pos + 1) + 2"
  have c: "cursor input pos (CHR ''$'' # to_string (int (length s)) @ CRLF @ s @ CRLF @ rest)"
    using assms by (simp add: create_string_reponse_def)
  have small: "int_ok (int (length s))" "int_ok (int (length s) + 2)"
    using cursor_small [OF c] by (simp_all add: int_ok_def)
  note h = parseBulkString_header [OF c small(1), folded p_def]
  have sub: "substr input p (word_of_int (int (length s))) = Inr s"
    using substr_cursor [OF h(2)] by simp
  have "cursor input (p + word_of_nat (length (s @ CRLF))) rest"
    by (rule cursor_advance) (use h(2) in simp)
  moreover have "p + word_of_int (int (length s) + 2) = p + word_of_nat (length (s @ CRLF))"
    by (simp add: add.commute)
  ultimately have "cursor input (p + word_of_int (int (length s) + 2)) rest"
    by metis
  moreover have "parseBulkString input pos = Inr (s, p + word_of_int (int (length s) + 2))"
    using small(2) by (simp only: h(1) sub and_then.simps int_add_ok)
  ultimately show ?thesis by blast
qed

lemma parseBulkString_error_iff:
  "parseBulkString input pos = Inl (Runtime_Error msg) \<longleftrightarrow>
     (\<exists>c. char_at input pos = Inr c \<and> c \<noteq> CHR ''$'') \<and>
     msg = ''protocol error: expected bulk string''"
  by (auto simp: parseBulkString_def char_at_def substr_def stoi_def int_add_def Let_def
      split: and_then_split prod.splits if_splits)

text \<open>
  \<open>parseBulkString\<close> repeated: how the handlers read the arguments of a command, and how a client
  reads an array reply.
\<close>

fun parse_bulks :: "nat \<Rightarrow> string \<Rightarrow> size_t \<Rightarrow> (string list \<times> size_t) result" where
  "parse_bulks 0 input pos = Inr ([], pos)"
| "parse_bulks (Suc n) input pos =
     and_then (parseBulkString input pos) (\<lambda>(s, pos).
       and_then (parse_bulks n input pos) (\<lambda>(ss, pos). Inr (s # ss, pos)))"

lemma parse_bulks_cursor:
  "cursor input pos (concat (map create_string_reponse ss) @ rest) \<Longrightarrow>
   \<exists>pos'. parse_bulks (length ss) input pos = Inr (ss, pos') \<and> cursor input pos' rest"
proof (induction ss arbitrary: pos)
  case Nil
  then show ?case by simp
next
  case (Cons s ss)
  then have "cursor input pos
      (create_string_reponse s @ concat (map create_string_reponse ss) @ rest)"
    by simp
  from parseBulkString_cursor [OF this] obtain p where
    p: "parseBulkString input pos = Inr (s, p)"
       "cursor input p (concat (map create_string_reponse ss) @ rest)"
    by blast
  with Cons.IH [OF p(2)] show ?case by auto
qed

text \<open>The header of an array reply or of a command: marker, count, line end.\<close>

definition read_array_header :: "string \<Rightarrow> size_t \<Rightarrow> (int \<times> size_t) result" where
  "read_array_header input pos =
     (let elements_end = str_find input CRLF pos
      in and_then (substr input pos (elements_end - pos)) (\<lambda>digits.
           and_then (stoi digits) (\<lambda>num_elements.
             Inr (num_elements, elements_end + 2))))"

lemma read_array_header_cursor:
  assumes "cursor input pos (to_string n @ CRLF @ rest)" and "int_ok n"
  shows "\<exists>pos'. read_array_header input pos = Inr (n, pos') \<and> cursor input pos' rest"
  using header_cursor(2,3) [OF assms] assms(2) by (simp add: read_array_header_def Let_def)

end
