(* ===== verification/Server_Info.thy ===== *)
theory Server_Info
  imports Resp_Utils
begin

text \<open>
  The replication state of \<^verbatim>\<open>src/server_info.cpp\<close>: the record of the class \<open>ServerInfo\<close>, its
  getters and updates, the random replication id, the \<open>--replicaof\<close> argument, the connection to
  the master and the handshake. What reaches the network is a list of events.
\<close>

section \<open>Network events\<close>

text \<open>\<open>send(fd, data, size, 0)\<close> and \<open>connect(fd, ip, port)\<close>; the port has passed \<open>htons\<close>.\<close>

datatype net_event =
    Send int string
  | Connect int string u16

section \<open>The class\<close>

text \<open>\<open>master_fd\<close> is not initialised by the constructor: \<open>None\<close> until the program assigns it.\<close>

record ServerInfo =
  role :: string
  connected_slaves :: int
  master_ip :: string
  master_port :: int
  master_replid :: string
  master_repl_offset :: int
  second_repl_offset :: int
  repl_backlog_active :: int
  repl_backlog_size :: int
  repl_backlog_first_byte_offset :: int
  repl_backlog_histlen :: int
  master_fd :: "int option"
  connected_slaves_fd :: "int list"

section \<open>The replication id\<close>

definition CHARACTERS :: string where
  "CHARACTERS = ''ABCDEFGHIJKLMNOPQRSTUVWXYZabcdefghijklmnopqrstuvwxyz0123456789''"

definition REPLID_LEN :: nat where
  "REPLID_LEN = 40"

text \<open>
  The distribution over \<open>0 .. CHARACTERS.size() - 1\<close> is an argument: \<open>draw i\<close> is its \<open>i\<close>-th value.
\<close>

fun replid_loop :: "(nat \<Rightarrow> nat) \<Rightarrow> nat \<Rightarrow> nat \<Rightarrow> string \<Rightarrow> string result" where
  "replid_loop draw i 0 random_string = Inr random_string"
| "replid_loop draw i (Suc n) random_string =
     and_then (char_at CHARACTERS (word_of_nat (draw i))) (\<lambda>c.
       replid_loop draw (Suc i) n (random_string @ [c]))"

definition generate_master_replid :: "(nat \<Rightarrow> nat) \<Rightarrow> string result" where
  "generate_master_replid draw = replid_loop draw 0 REPLID_LEN []"

definition new_ServerInfo :: "(nat \<Rightarrow> nat) \<Rightarrow> ServerInfo result" where
  "new_ServerInfo draw =
     and_then (generate_master_replid draw) (\<lambda>replid. Inr
       \<lparr>role = ''master'', connected_slaves = 0, master_ip = [], master_port = 0,
        master_replid = replid, master_repl_offset = 0, second_repl_offset = -1,
        repl_backlog_active = -1, repl_backlog_size = -1,
        repl_backlog_first_byte_offset = -1, repl_backlog_histlen = -1,
        master_fd = None, connected_slaves_fd = []\<rparr>)"

section \<open>Getters\<close>

definition get_role :: "ServerInfo \<Rightarrow> string" where [simp]:
  "get_role si = role si"

definition get_connected_slaves :: "ServerInfo \<Rightarrow> int" where [simp]:
  "get_connected_slaves si = connected_slaves si"

definition get_master_replid :: "ServerInfo \<Rightarrow> string" where [simp]:
  "get_master_replid si = master_replid si"

definition get_master_repl_offset :: "ServerInfo \<Rightarrow> int" where [simp]:
  "get_master_repl_offset si = master_repl_offset si"

definition get_second_repl_offset :: "ServerInfo \<Rightarrow> int" where [simp]:
  "get_second_repl_offset si = second_repl_offset si"

definition get_repl_backlog_active :: "ServerInfo \<Rightarrow> int" where [simp]:
  "get_repl_backlog_active si = repl_backlog_active si"

definition get_repl_backlog_size :: "ServerInfo \<Rightarrow> int" where [simp]:
  "get_repl_backlog_size si = repl_backlog_size si"

definition get_repl_backlog_first_byte_offset :: "ServerInfo \<Rightarrow> int" where [simp]:
  "get_repl_backlog_first_byte_offset si = repl_backlog_first_byte_offset si"

definition get_repl_backlog_histlen :: "ServerInfo \<Rightarrow> int" where [simp]:
  "get_repl_backlog_histlen si = repl_backlog_histlen si"

text \<open>Reading \<open>master_fd\<close> before it is assigned is undefined.\<close>

definition get_master_fd :: "ServerInfo \<Rightarrow> int result" where
  "get_master_fd si =
     (case master_fd si of None \<Rightarrow> Inl Undefined_Behaviour | Some fd \<Rightarrow> Inr fd)"

section \<open>Updates and the slave table\<close>

definition update_role :: "string \<Rightarrow> ServerInfo \<Rightarrow> ServerInfo" where
  "update_role r si = si\<lparr>role := r\<rparr>"

definition update_connected_slaves :: "int \<Rightarrow> ServerInfo \<Rightarrow> ServerInfo" where
  "update_connected_slaves n si = si\<lparr>connected_slaves := n\<rparr>"

definition add_connected_slave :: "int \<Rightarrow> ServerInfo \<Rightarrow> ServerInfo" where
  "add_connected_slave fd si = si\<lparr>connected_slaves_fd := connected_slaves_fd si @ [fd]\<rparr>"

text \<open>\<open>connected_slaves_fd[index]\<close>: a vector access, undefined out of range.\<close>

definition get_connected_slave_fd :: "ServerInfo \<Rightarrow> int \<Rightarrow> int result" where
  "get_connected_slave_fd si index =
     (if 0 \<le> index \<and> index < int (length (connected_slaves_fd si))
      then Inr (connected_slaves_fd si ! nat index) else Inl Undefined_Behaviour)"

section \<open>The replicaof argument\<close>

text \<open>
  \<open>regex_search\<close> with the pattern \<^verbatim>\<open>(\b(?:\d{1,3}\.){3}\d{1,3}\b|localhost)\s+(\d{1,5})\<close>. In the C++
  literal the two word-boundary escapes are written with a single backslash, so the regex engine
  receives the backspace character 8 in their place. Every choice of the pattern is decided by the
  next character, so the matcher needs no backtracking.
\<close>

definition BS :: char where
  "BS = CHR 0x08"

definition digits_upto :: "nat \<Rightarrow> string \<Rightarrow> (string \<times> string) option" where
  "digits_upto n s =
     (let ds = takeWhile is_digit (take n s)
      in if ds = [] then None else Some (ds, drop (length ds) s))"

fun match_octets :: "nat \<Rightarrow> string \<Rightarrow> (string \<times> string) option" where
  "match_octets 0 s = digits_upto 3 s"
| "match_octets (Suc n) s =
     (case digits_upto 3 s of
        Some (ds, c # s') \<Rightarrow>
          (if c = CHR ''.''
           then map_option (\<lambda>(t, r). (ds @ [c] @ t, r)) (match_octets n s') else None)
      | _ \<Rightarrow> None)"

fun match_host :: "string \<Rightarrow> (string \<times> string) option" where
  "match_host [] = None"
| "match_host (c # s) =
     (if c = BS then
        (case match_octets 3 s of
           Some (t, d # r) \<Rightarrow> if d = BS then Some (BS # t @ [BS], r) else None
         | _ \<Rightarrow> None)
      else if take 9 (c # s) = ''localhost'' then Some (''localhost'', drop 9 (c # s))
      else None)"

definition match_replicaof :: "string \<Rightarrow> (string \<times> string) option" where
  "match_replicaof s =
     (case match_host s of
        None \<Rightarrow> None
      | Some (host, r) \<Rightarrow>
          if takeWhile is_space r = [] then None
          else map_option (\<lambda>(port, _). (host, port)) (digits_upto 5 (dropWhile is_space r)))"

fun search_replicaof :: "string \<Rightarrow> (string \<times> string) option" where
  "search_replicaof [] = None"
| "search_replicaof (c # s) =
     (case match_replicaof (c # s) of Some m \<Rightarrow> Some m | None \<Rightarrow> search_replicaof s)"

definition LOCALHOST :: string where
  "LOCALHOST = ''127.0.0.1''"

definition get_master_ip_port :: "string \<Rightarrow> ServerInfo \<Rightarrow> ServerInfo result" where
  "get_master_ip_port args si =
     (case search_replicaof args of
        None \<Rightarrow> Inr si
      | Some (host, port) \<Rightarrow>
          and_then (stoi port) (\<lambda>p. Inr
            (si\<lparr>master_ip := (if host = ''localhost'' then LOCALHOST else host),
                master_port := p\<rparr>)))"

section \<open>Connecting and the handshake\<close>

text \<open>\<open>fd\<close> is what \<open>socket\<close> returns; every failure on the way is only reported on \<open>std::cerr\<close>.\<close>

definition connect_to_master :: "int \<Rightarrow> ServerInfo \<Rightarrow> ServerInfo \<times> net_event list" where
  "connect_to_master fd si =
     (if role si = ''slave''
      then (si\<lparr>master_fd := Some fd\<rparr>, [Connect fd (master_ip si) (word_of_int (master_port si))])
      else (si, []))"

definition handshake_ping :: string where
  "handshake_ping = ''*1'' @ CRLF @ ''$4'' @ CRLF @ ''PING'' @ CRLF"

definition handshake_port :: "int \<Rightarrow> string" where
  "handshake_port port =
     ''*3'' @ CRLF @ ''$8'' @ CRLF @ ''REPLCONF'' @ CRLF @
     ''$14'' @ CRLF @ ''listening-port'' @ CRLF @ ''$4'' @ CRLF @ to_string port @ CRLF"

definition handshake_capa :: string where
  "handshake_capa =
     ''*3'' @ CRLF @ ''$8'' @ CRLF @ ''REPLCONF'' @ CRLF @
     ''$4'' @ CRLF @ ''capa'' @ CRLF @ ''$6'' @ CRLF @ ''psync2'' @ CRLF"

definition handshake_psync :: string where
  "handshake_psync =
     ''*3'' @ CRLF @ ''$5'' @ CRLF @ ''PSYNC'' @ CRLF @
     ''$1'' @ CRLF @ ''?'' @ CRLF @ ''$2'' @ CRLF @ ''-1'' @ CRLF"

definition send_handshake :: "int \<Rightarrow> ServerInfo \<Rightarrow> net_event list result" where
  "send_handshake port si =
     (if role si = ''slave'' then
        (case master_fd si of
           None \<Rightarrow> Inl Undefined_Behaviour
         | Some fd \<Rightarrow> Inr (map (Send fd)
             [handshake_ping, handshake_port port, handshake_capa, handshake_psync]))
      else Inr [])"

section \<open>Facts\<close>

text \<open>
  The slave count and the slave table agree: every index the propagation loop uses is in range.
\<close>

definition si_inv :: "ServerInfo \<Rightarrow> bool" where
  "si_inv si \<longleftrightarrow> connected_slaves si = int (length (connected_slaves_fd si))"

lemma si_inv_register:
  "si_inv si \<Longrightarrow>
   si_inv (add_connected_slave fd (update_connected_slaves (connected_slaves si + 1) si))"
  by (simp add: si_inv_def add_connected_slave_def update_connected_slaves_def)

lemma replid_loop_ok:
  "(\<And>j. draw j < length CHARACTERS) \<Longrightarrow>
   replid_loop draw i n acc = Inr (acc @ map (\<lambda>j. CHARACTERS ! draw j) [i ..< i + n])"
proof (induction n arbitrary: i acc)
  case 0
  then show ?case by simp
next
  case (Suc n)
  have small: "length CHARACTERS < 2 ^ 64"
    by (simp add: CHARACTERS_def)
  have "char_at CHARACTERS (word_of_nat (draw i)) = Inr (CHARACTERS ! draw i)"
    using Suc.prems [of i] small by (simp add: char_at_def)
  moreover have "[i ..< i + Suc n] = i # [Suc i ..< i + Suc n]"
    by (simp add: upt_conv_Cons)
  ultimately show ?case
    using Suc.IH [of "Suc i"] Suc.prems by simp
qed

lemma stoi_digits_upto:
  assumes "digits_upto n s = Some (ds, r)" and "n \<le> 9"
  shows "\<exists>p. stoi ds = Inr p"
proof -
  have ds: "ds \<noteq> []" "\<forall>c \<in> set ds. is_digit c" "length ds \<le> 9"
    using assms by (auto simp: digits_upto_def Let_def dest: set_takeWhileD split: if_splits
        intro: order_trans [OF length_takeWhile_le])
  have bound: "digits_val xs < 10 ^ length xs" if "\<forall>c \<in> set xs. is_digit c" for xs
    using that
  proof (induction xs rule: rev_induct)
    case (snoc c xs)
    then have "digit_val c \<le> 9"
      by (auto simp: digit_val_def is_digit_def Let_def)
    with snoc show ?case by (simp add: digits_val_snoc)
  qed (simp add: digits_val_def)
  have "digits_val ds < 10 ^ 9"
    by (rule less_le_trans [OF bound [OF ds(2)]]) (rule power_increasing, use ds(3) in auto)
  moreover obtain c cs where c: "ds = c # cs" "is_digit c"
    using ds by (cases ds) auto
  ultimately show ?thesis
    using ds(2) by (auto simp: stoi_def split_sign_def int_ok_def Let_def
        takeWhile_eq_all_conv [THEN iffD2])
qed

section \<open>A master without slaves\<close>

text \<open>The instance the concrete cases of the properties use.\<close>

definition plain_server_info :: ServerInfo where
  "plain_server_info =
     \<lparr>role = ''master'', connected_slaves = 0, master_ip = [], master_port = 0,
      master_replid = replicate 40 (CHR ''A''), master_repl_offset = 0, second_repl_offset = -1,
      repl_backlog_active = -1, repl_backlog_size = -1, repl_backlog_first_byte_offset = -1,
      repl_backlog_histlen = -1, master_fd = None, connected_slaves_fd = []\<rparr>"

lemma si_inv_plain [simp]: "si_inv plain_server_info"
  by (simp add: si_inv_def plain_server_info_def)

section \<open>Properties\<close>

text \<open>A new server is a master without slaves whose replication id has 40 letters or digits, for
  every sequence of draws the distribution can give.\<close>

lemma new_server_info_ok:
  assumes "\<And>i. draw i < length CHARACTERS"
  shows "\<exists>si. new_ServerInfo draw = Inr si \<and> length (master_replid si) = 40 \<and>
    set (master_replid si) \<subseteq> set CHARACTERS \<and> role si = ''master'' \<and> si_inv si"
proof -
  have "generate_master_replid draw = Inr (map (\<lambda>j. CHARACTERS ! draw j) [0 ..< 40])"
    using replid_loop_ok [of draw 0 40 "[]", OF assms] by (simp add: generate_master_replid_def REPLID_LEN_def)
  then show ?thesis
    using assms by (auto simp: new_ServerInfo_def si_inv_def simp del: upt_conv_Cons)
qed

text \<open>The host part of a match, when the argument has no backspace.\<close>

lemma match_host_no_BS:
  assumes "match_host s = Some (h, r)" and "BS \<notin> set s"
  shows "h = ''localhost''"
  using assms by (cases s) (auto split: if_splits)

lemma search_no_BS:
  "search_replicaof s = Some (h, p) \<Longrightarrow> BS \<notin> set s \<Longrightarrow>
   h = ''localhost'' \<and> (\<exists>n. stoi p = Inr n)"
proof (induction s)
  case (Cons c s)
  show ?case
  proof (cases "match_replicaof (c # s)")
    case None
    with Cons show ?thesis by simp
  next
    case (Some m)
    then obtain hr rr where hr: "match_host (c # s) = Some (hr, rr)"
      by (auto simp: match_replicaof_def split: option.splits)
    then have "\<exists>r. digits_upto 5 (dropWhile is_space rr) = Some (p, r)" "h = hr"
      using Some Cons.prems(1) by (auto simp: match_replicaof_def split: if_splits)
    then show ?thesis
      using match_host_no_BS [OF hr] Cons.prems(2) stoi_digits_upto [of 5 _ p] by auto
  qed
qed simp

text \<open>C40: \<open>--replicaof\<close> never accepts an IP address: unless the argument contains a backspace character,
  the only host it recognises is \<open>localhost\<close>; any other argument is ignored without an error, which
  leaves the master's address empty and its port zero.\<close>

theorem only_localhost_is_recognised:
  assumes "BS \<notin> set args"
  shows "get_master_ip_port args si = Inr si \<or>
    (\<exists>p. get_master_ip_port args si = Inr (si\<lparr>master_ip := LOCALHOST, master_port := p\<rparr>))"
proof (cases "search_replicaof args")
  case None
  then show ?thesis by (simp add: get_master_ip_port_def)
next
  case (Some m)
  with search_no_BS [OF _ assms] obtain p n where
    "search_replicaof args = Some (''localhost'', p)" "stoi p = Inr n"
    by (cases m) auto
  then have "get_master_ip_port args si = Inr (si\<lparr>master_ip := LOCALHOST, master_port := n\<rparr>)"
    by (simp add: get_master_ip_port_def)
  then show ?thesis by blast
qed

theorem only_localhost_is_recognised_witness:
  "get_master_ip_port ''127.0.0.1 6379'' plain_server_info = Inr plain_server_info"
proof -
  have "search_replicaof ''127.0.0.1 6379'' = None"
    by code_simp
  moreover have "BS \<notin> set ''127.0.0.1 6379''"
    by (simp add: BS_def)
  ultimately show ?thesis
    using only_localhost_is_recognised [of "''127.0.0.1 6379''" plain_server_info]
    by (simp add: get_master_ip_port_def)
qed

text \<open>With \<open>localhost\<close>, white space and a port of up to five digits the argument sets the loopback
  address and that port.\<close>

lemma localhost_argument:
  assumes "0 < p" and "p < 10 ^ 5"
  shows "get_master_ip_port (''localhost '' @ to_string (int p)) si =
    Inr (si\<lparr>master_ip := LOCALHOST, master_port := int p\<rparr>)"
proof -
  have len: "length (nat_digits p) \<le> 5"
    using length_nat_digits [of p 4] assms(2) by simp
  have "digits_upto 5 (nat_digits p) = Some (nat_digits p, [])"
    using len by (simp add: digits_upto_def)
  then have "match_replicaof (''localhost '' @ nat_digits p) = Some (''localhost'', nat_digits p)"
    by (simp add: match_replicaof_def BS_def is_space_def)
  then have "search_replicaof (''localhost '' @ nat_digits p) = Some (''localhost'', nat_digits p)"
    by simp
  moreover have "stoi (nat_digits p) = Inr (int p)"
    using stoi_to_string [of "int p"] assms(2) by (simp add: to_string_def int_ok_def)
  ultimately show ?thesis
    by (simp add: get_master_ip_port_def to_string_def)
qed

text \<open>The second handshake message announces the port as a four-byte string whatever its length, so
  a master that checks it can only read it when the port has four digits.\<close>

lemma handshake_port_wellformed_iff:
  assumes "0 \<le> port" and "port < 65536"
  shows "handshake_port port =
      create_array_reponse [''REPLCONF'', ''listening-port'', to_string port] \<longleftrightarrow>
    length (to_string port) = 4"
proof -
  define t where "t = to_string port"
  define h where "h = ''*3'' @ CRLF @ ''$8'' @ CRLF @ ''REPLCONF'' @ CRLF @ ''$14'' @ CRLF @
    ''listening-port'' @ CRLF @ ''$''"
  have digits: "to_string 8 = ''8''" "to_string 14 = ''14''" "to_string 3 = ''3''" by code_simp+
  have "handshake_port port = h @ ''4'' @ CRLF @ t @ CRLF"
    by (simp only: handshake_port_def t_def h_def append.simps append_assoc)
  moreover have "create_array_reponse [''REPLCONF'', ''listening-port'', t] =
      h @ to_string (int (length t)) @ CRLF @ t @ CRLF"
    by (simp add: h_def digits create_array_reponse_eq create_string_reponse_def)
  ultimately have "handshake_port port =
      create_array_reponse [''REPLCONF'', ''listening-port'', to_string port] \<longleftrightarrow>
      ''4'' @ CRLF @ to_string port @ CRLF =
        to_string (int (length (to_string port))) @ CRLF @ to_string port @ CRLF"
    by (simp only: t_def same_append_eq)
  also have "\<dots> \<longleftrightarrow> to_string 4 = to_string (int (length (to_string port)))"
  proof -
    have "to_string 4 = ''4''" by code_simp
    then show ?thesis by (simp only: append_assoc [symmetric] append_same_eq)
  qed
  also have "\<dots> \<longleftrightarrow> length (to_string port) = 4"
    by (auto simp: to_string_def dest: nat_digits_inj)
  finally show ?thesis .
qed

end
