(* ===== verification/Database_Handler.thy ===== *)
theory Database_Handler
  imports Server_Info "HOL-Library.AList"
begin

text \<open>
  The key-value store of \<^verbatim>\<open>src/database_handler.cpp\<close>. The \<open>std::unordered_map\<close> is an
  association list with distinct keys (its iteration order is fixed only where the \<open>KEYS\<close>
  command needs one); the wall clock is a sequence of readings, one of which each call of
  \<open>get_current_time_milli\<close> takes.
\<close>

section \<open>Data\<close>

record DBValue =
  db_value :: string
  expiry_time :: int

record DatabaseHandler =
  server_info :: ServerInfo
  database :: "(string \<times> DBValue) list"

record clock =
  readings :: "nat \<Rightarrow> int"
  reads :: nat

definition get_current_time_milli :: "clock \<Rightarrow> int \<times> clock" where
  "get_current_time_milli clk = (readings clk (reads clk), clk\<lparr>reads := Suc (reads clk)\<rparr>)"

section \<open>Operations\<close>

definition new_DatabaseHandler :: "ServerInfo \<Rightarrow> DatabaseHandler" where
  "new_DatabaseHandler si = \<lparr>server_info = si, database = []\<rparr>"

definition db_set :: "string \<Rightarrow> string \<Rightarrow> int \<Rightarrow> DatabaseHandler \<Rightarrow> DatabaseHandler" where
  "db_set key v expiry db =
     db\<lparr>database := AList.update key \<lparr>db_value = v, expiry_time = expiry\<rparr> (database db)\<rparr>"

definition set_without_lock ::
  "string \<Rightarrow> string \<Rightarrow> int \<Rightarrow> DatabaseHandler \<Rightarrow> DatabaseHandler" where
  "set_without_lock key v expiry db =
     db\<lparr>database := AList.update key \<lparr>db_value = v, expiry_time = expiry\<rparr> (database db)\<rparr>"

text \<open>The clock is read only for an entry with an expiry time; an expired entry is erased.\<close>

definition db_get :: "string \<Rightarrow> DatabaseHandler \<Rightarrow> clock \<Rightarrow> string \<times> DatabaseHandler \<times> clock" where
  "db_get key db clk =
     (case map_of (database db) key of
        Some response_struct \<Rightarrow>
          if expiry_time response_struct = 0 then (db_value response_struct, db, clk)
          else
            let (now, clk) = get_current_time_milli clk
            in if now < expiry_time response_struct then (db_value response_struct, db, clk)
               else (NULL_RESPONSE, db\<lparr>database := AList.delete key (database db)\<rparr>, clk)
      | None \<Rightarrow> (NULL_RESPONSE, db, clk))"

section \<open>The store a client sees\<close>

text \<open>
  The abstract state: a map from keys to values with their expiry, and the part of it that is
  live at a time.
\<close>

type_synonym store = "string \<Rightarrow> DBValue option"

definition store_of :: "DatabaseHandler \<Rightarrow> store" where
  "store_of db = map_of (database db)"

definition fresh :: "int \<Rightarrow> DBValue \<Rightarrow> bool" where
  "fresh now v \<longleftrightarrow> expiry_time v = 0 \<or> now < expiry_time v"

definition live :: "int \<Rightarrow> store \<Rightarrow> string \<Rightarrow> string option" where
  "live now m key =
     (case m key of None \<Rightarrow> None | Some v \<Rightarrow> if fresh now v then Some (db_value v) else None)"

definition db_inv :: "DatabaseHandler \<Rightarrow> bool" where
  "db_inv db \<longleftrightarrow> distinct (map fst (database db)) \<and> si_inv (server_info db)"

section \<open>The store interface\<close>

text \<open>
  What the command handlers and the RDB loader rely on. The client lemmas are about a run of
  stores, which is what loading a file and handling pipelined commands amount to.
\<close>

locale key_value_store =
  fixes put :: "'k \<Rightarrow> 'v \<Rightarrow> 's \<Rightarrow> 's"
    and erase :: "'k \<Rightarrow> 's \<Rightarrow> 's"
    and look :: "'s \<Rightarrow> 'k \<Rightarrow> 'v option"
    and inv :: "'s \<Rightarrow> bool"
  assumes look_put: "look (put k v s) = (look s)(k \<mapsto> v)"
    and look_erase: "look (erase k s) = (look s)(k := None)"
    and inv_put: "inv s \<Longrightarrow> inv (put k v s)"
    and inv_erase: "inv s \<Longrightarrow> inv (erase k s)"
begin

lemma look_put_all: "look (fold (\<lambda>(k, v). put k v) kvs s) = look s ++ map_of (rev kvs)"
  by (induction kvs arbitrary: s) (auto simp: look_put)

lemma look_put_all_distinct:
  "distinct (map fst kvs) \<Longrightarrow> look (fold (\<lambda>(k, v). put k v) kvs s) = look s ++ map_of kvs"
  by (simp add: look_put_all map_of_rev_distinct)

lemma inv_put_all: "inv s \<Longrightarrow> inv (fold (\<lambda>(k, v). put k v) kvs s)"
  by (induction kvs arbitrary: s) (auto simp: inv_put)

lemma look_put_same [simp]: "look (put k v s) k = Some v"
  by (simp add: look_put)

lemma look_put_other: "k' \<noteq> k \<Longrightarrow> look (put k v s) k' = look s k'"
  by (simp add: look_put)

lemma look_put_put: "look (put k v (put k u s)) = look (put k v s)"
  by (simp add: look_put)

lemma look_erase_put: "look s k = None \<Longrightarrow> look (erase k (put k v s)) = look s"
  by (auto simp: look_put look_erase)

end

text \<open>The program's store provides it: storing is \<open>db_set\<close>, erasing is the branch of \<open>db_get\<close>.\<close>

definition db_put :: "string \<Rightarrow> DBValue \<Rightarrow> DatabaseHandler \<Rightarrow> DatabaseHandler" where
  "db_put k v db = db_set k (db_value v) (expiry_time v) db"

definition db_erase :: "string \<Rightarrow> DatabaseHandler \<Rightarrow> DatabaseHandler" where
  "db_erase k db = db\<lparr>database := AList.delete k (database db)\<rparr>"

interpretation db: key_value_store db_put db_erase store_of db_inv
  by unfold_locales
    (auto simp: db_put_def db_set_def db_erase_def store_of_def db_inv_def
      update_conv' delete_conv' distinct_update distinct_delete)

section \<open>What the operations do to the store\<close>

lemma store_of_db_set [simp]:
  "store_of (db_set k v e db) = (store_of db)(k \<mapsto> \<lparr>db_value = v, expiry_time = e\<rparr>)"
  by (simp add: store_of_def db_set_def update_conv')

lemma db_set_put: "db_set k v e db = db_put k \<lparr>db_value = v, expiry_time = e\<rparr> db"
  by (simp add: db_put_def)

lemma db_inv_set [simp]: "db_inv db \<Longrightarrow> db_inv (db_set k v e db)"
  by (simp add: db_set_put db.inv_put)

lemma set_without_lock_eq: "set_without_lock = db_set"
  by (intro ext) (simp add: set_without_lock_def db_set_def)

lemma server_info_db_set [simp]: "server_info (db_set k v e db) = server_info db"
  by (simp add: db_set_def)

lemma db_get_cases:
  assumes "db_get key db clk = (r, db', clk')"
  defines "now \<equiv> readings clk (reads clk)"
  shows "r = (case live now (store_of db) key of Some v \<Rightarrow> v | None \<Rightarrow> NULL_RESPONSE)"
    and "db' = (if live now (store_of db) key = None \<and> store_of db key \<noteq> None
                then db_erase key db else db)"
    and "clk' = (if \<exists>v. store_of db key = Some v \<and> expiry_time v \<noteq> 0
                 then snd (get_current_time_milli clk) else clk)"
  using assms(1)
  by (auto simp: db_get_def live_def fresh_def store_of_def db_erase_def now_def
      get_current_time_milli_def split: option.splits if_splits)

lemma db_inv_get: "db_get key db clk = (r, db', clk') \<Longrightarrow> db_inv db \<Longrightarrow> db_inv db'"
  by (auto dest!: db_get_cases(2) simp: db.inv_erase)

lemma server_info_db_get: "db_get key db clk = (r, db', clk') \<Longrightarrow> server_info db' = server_info db"
  by (auto dest!: db_get_cases(2) simp: db_erase_def)

lemma live_erase: "live now ((m)(k := None)) = (live now m)(k := None)"
  by (auto simp: live_def)

definition empty_db :: DatabaseHandler where
  "empty_db = new_DatabaseHandler plain_server_info"

lemma empty_db_simps [simp]:
  "store_of empty_db = Map.empty" "db_inv empty_db" "server_info empty_db = plain_server_info"
  by (simp_all add: empty_db_def new_DatabaseHandler_def store_of_def db_inv_def)

text \<open>A lookup answers with the live value of the key at the clock reading it takes, and with the
  null reply when the key is absent or has expired.\<close>

lemma get_returns_live_value:
  "fst (db_get key db clk) =
     (case live (readings clk (reads clk)) (store_of db) key of
        Some v \<Rightarrow> v | None \<Rightarrow> NULL_RESPONSE)"
  by (rule db_get_cases(1) [of key db clk _ "fst (snd (db_get key db clk))"
        "snd (snd (db_get key db clk))"]) simp

text \<open>Expiry is lazy and unobservable: the entry a lookup erases was already dead, so at that
  time or any later one every key has the same live value as before the lookup.\<close>

lemma get_erasure_is_unobservable:
  assumes "db_get key db clk = (r, db', clk')" and "readings clk (reads clk) \<le> now"
  shows "live now (store_of db') = live now (store_of db)"
proof (cases "db' = db")
  case False
  then have "live (readings clk (reads clk)) (store_of db) key = None" "db' = db_erase key db"
    using db_get_cases(2) [OF assms(1)] by (auto split: if_splits)
  then show ?thesis
    using assms(2)
    by (auto simp: db.look_erase live_erase live_def fresh_def split: option.splits if_splits)
qed simp

text \<open>A store makes the key live with the new value for as long as the expiry time allows, for
  ever when it is zero, and changes the view of no other key.\<close>

lemma set_updates_live_view:
  "live now (store_of (db_set key v expiry db)) =
     (live now (store_of db))(key := (if expiry = 0 \<or> now < expiry then Some v else None))"
  by (auto simp: live_def fresh_def)

end
