(* ===== verification/File_Stream.thy ===== *)
theory File_Stream
  imports Redis_Prelude "HOL-Library.Sublist"
begin

text \<open>
  \<open>std::ifstream\<close> as the program uses it: a position in a file (the bytes still to come), the
  fail bit, and \<open>read\<close> into a buffer. A read that comes up short stores what there is, leaves the
  rest of the buffer as it was and sets the fail bit; a read on a failed stream changes nothing.
  Many buffers of the program are uninitialised locals, so what a short read leaves in them is
  whatever the stack held: the stream carries an arbitrary supply \<open>st_stale\<close> of such bytes and
  a count \<open>st_drawn\<close> of how many were used. A theorem that needs the supply to avoid some
  bytes says so.
\<close>

unbundle bit_operations_syntax

section \<open>The stream\<close>

record istream =
  st_bytes :: "u8 list"
  st_fail :: bool
  st_stale :: "nat \<Rightarrow> u8"
  st_drawn :: nat

definition open_stream :: "u8 list \<Rightarrow> (nat \<Rightarrow> u8) \<Rightarrow> istream" where
  "open_stream bytes stale =
     \<lparr>st_bytes = bytes, st_fail = False, st_stale = stale, st_drawn = 0\<rparr>"

text \<open>An uninitialised buffer of \<open>n\<close> bytes.\<close>

definition uninit :: "nat \<Rightarrow> istream \<Rightarrow> u8 list \<times> istream" where
  "uninit n s =
     (map (st_stale s) [st_drawn s ..< st_drawn s + n], s\<lparr>st_drawn := st_drawn s + n\<rparr>)"

text \<open>\<open>file.read(buf, n)\<close>, where \<open>buf\<close> holds the \<open>n\<close> bytes \<open>old\<close>.\<close>

definition sread :: "u8 list \<Rightarrow> istream \<Rightarrow> u8 list \<times> istream" where
  "sread old s =
     (let n = length old; bs = st_bytes s in
      if st_fail s then (old, s)
      else if n \<le> length bs then (take n bs, s\<lparr>st_bytes := drop n bs\<rparr>)
      else (bs @ drop (length bs) old, s\<lparr>st_bytes := [], st_fail := True\<rparr>))"

definition read_fresh :: "nat \<Rightarrow> istream \<Rightarrow> u8 list \<times> istream" where
  "read_fresh n s = (let (old, s) = uninit n s in sread old s)"

section \<open>Little-endian integers in memory\<close>

fun le_val :: "u8 list \<Rightarrow> nat" where
  "le_val [] = 0"
| "le_val (b # bs) = unat b + 256 * le_val bs"

fun le_bytes :: "nat \<Rightarrow> nat \<Rightarrow> u8 list" where
  "le_bytes 0 v = []"
| "le_bytes (Suc n) v = word_of_nat (v mod 256) # le_bytes n (v div 256)"

text \<open>Reading a word of type \<open>'a\<close> through \<open>reinterpret_cast<char *>\<close> on a little-endian host.\<close>

definition le_word :: "u8 list \<Rightarrow> 'a::len word" where
  "le_word bs = word_of_nat (le_val bs)"

lemma length_le_bytes [simp]: "length (le_bytes n v) = n"
  by (induction n arbitrary: v) auto

lemma le_val_append: "le_val (xs @ ys) = le_val xs + 256 ^ length xs * le_val ys"
  by (induction xs) (auto simp: algebra_simps)

lemma le_val_less: "le_val bs < 256 ^ length bs"
proof (induction bs)
  case (Cons b bs)
  have "unat b + 256 * le_val bs < 256 * Suc (le_val bs)" by simp
  also have "\<dots> \<le> 256 * 256 ^ length bs"
    using Cons by (intro mult_le_mono2) simp
  finally show ?case by simp
qed simp

lemma le_val_le_bytes [simp]: "le_val (le_bytes n v) = v mod 256 ^ n"
  by (induction n arbitrary: v) (auto simp: mod_mult2_eq)

lemma le_bytes_le_val [simp]: "le_bytes (length bs) (le_val bs) = bs"
  by (induction bs) auto

lemma le_bytes_word [simp]:
  "length bs = 8 \<Longrightarrow> le_bytes 8 (unat (le_word bs :: u64)) = bs"
  using le_val_less [of bs] le_bytes_le_val [of bs] by (simp add: le_word_def)

lemma unat_le_word_le_bytes:
  "v < 256 ^ n \<Longrightarrow> 256 ^ n \<le> (2 :: nat) ^ LENGTH('a) \<Longrightarrow>
   unat (le_word (le_bytes n v) :: 'a::len word) = v"
  by (simp add: le_word_def unat_of_nat take_bit_nat_eq_self)

section \<open>What every reader does to the stream\<close>

text \<open>Readers only move forward, never clear the fail bit, and never touch the supply.\<close>

definition advances :: "istream \<Rightarrow> istream \<Rightarrow> bool" where
  "advances s t \<longleftrightarrow>
     suffix (st_bytes t) (st_bytes s) \<and> (st_fail s \<longrightarrow> st_fail t \<and> st_bytes t = st_bytes s) \<and>
     st_stale t = st_stale s \<and> st_drawn s \<le> st_drawn t"

lemma advances_refl [simp]: "advances s s"
  by (simp add: advances_def)

lemma advances_trans [trans]: "advances s t \<Longrightarrow> advances t u \<Longrightarrow> advances s u"
  by (auto simp: advances_def intro: suffix_order.trans)

text \<open>The number of reads a stream can still survive: the measure of every reading loop.\<close>

definition fuel_left :: "istream \<Rightarrow> nat" where
  "fuel_left s = (if st_fail s then 0 else Suc (length (st_bytes s)))"

lemma advances_fuel_left: "advances s t \<Longrightarrow> fuel_left t \<le> fuel_left s"
  by (auto simp: advances_def fuel_left_def dest: suffix_length_le)

lemma advances_uninit: "uninit n s = (bs, t) \<Longrightarrow> advances s t"
  by (auto simp: uninit_def advances_def)

lemma advances_sread: "sread old s = (bs, t) \<Longrightarrow> advances s t"
  by (auto simp: sread_def advances_def Let_def suffix_drop split: if_splits)

lemma length_sread: "sread old s = (bs, t) \<Longrightarrow> length bs = length old"
  by (auto simp: sread_def Let_def split: if_splits)

text \<open>
  The interface between the stream and the parsers built on it: a reader advances. What a
  caller needs of several readers in a row follows once, here.
\<close>

locale stream_reader =
  fixes rd :: "istream \<Rightarrow> 'a \<times> istream"
  assumes rd_advances: "rd s = (x, t) \<Longrightarrow> advances s t"
begin

lemma rd_then: "rd s = (x, t) \<Longrightarrow> advances t u \<Longrightarrow> advances s u"
  by (rule advances_trans [OF rd_advances])

lemma rd_fuel_left: "rd s = (x, t) \<Longrightarrow> fuel_left t \<le> fuel_left s"
  by (rule advances_fuel_left [OF rd_advances])

lemma rd_failed: "rd s = (x, t) \<Longrightarrow> st_fail s \<Longrightarrow> st_fail t \<and> st_bytes t = st_bytes s"
  using rd_advances by (auto simp: advances_def)

lemma rd_snd_advances [simp]: "advances s (snd (rd s))"
  using rd_advances [of s "fst (rd s)" "snd (rd s)"] by simp

end

interpretation sread_reader: stream_reader "sread old"
  by unfold_locales (rule advances_sread)

interpretation fresh_reader: stream_reader "read_fresh n"
  by unfold_locales
    (auto simp: read_fresh_def split: prod.splits
      dest!: advances_uninit advances_sread intro: advances_trans)

text \<open>A reading step on a live stream uses it up, by at least one byte or by failing.\<close>

lemma read_fresh_fuel_left:
  "read_fresh n s = (bs, t) \<Longrightarrow> 0 < n \<Longrightarrow> \<not> st_fail s \<Longrightarrow> fuel_left t < fuel_left s"
  by (auto simp: read_fresh_def uninit_def sread_def fuel_left_def Let_def split: if_splits)

section \<open>Reading at a position\<close>

definition stream_at :: "istream \<Rightarrow> u8 list \<Rightarrow> bool" where
  "stream_at s bs \<longleftrightarrow> \<not> st_fail s \<and> st_bytes s = bs"

lemma stream_at_open [simp]: "stream_at (open_stream bytes stale) bs \<longleftrightarrow> bs = bytes"
  by (auto simp: stream_at_def open_stream_def)

lemma sread_at:
  "stream_at s (bs @ cs) \<Longrightarrow> length old = length bs \<Longrightarrow>
   \<exists>t. sread old s = (bs, t) \<and> stream_at t cs"
  by (auto simp: stream_at_def sread_def Let_def)

lemma read_fresh_at:
  "stream_at s (bs @ cs) \<Longrightarrow> length bs = n \<Longrightarrow>
   \<exists>t. read_fresh n s = (bs, t) \<and> stream_at t cs"
  by (auto simp: stream_at_def read_fresh_def uninit_def sread_def Let_def)

end
