(* ===== verification/Byte_Utils.thy ===== *)
theory Byte_Utils
  imports File_Stream
begin

text \<open>
  The byte utilities of \<^verbatim>\<open>src/utils.cpp\<close>: \<open>reverseEndianness\<close>, \<open>uint64ToString\<close>
  and \<open>read_rdb_file_binary\<close>, which a master uses to send its RDB file to a replica. The host is
  little-endian, as every platform of the build files is.
\<close>

section \<open>Definitions\<close>

text \<open>The loop of \<open>reverseEndianness\<close>, with the number of iterations still to do.\<close>

fun reverse_loop :: "nat \<Rightarrow> u64 \<Rightarrow> u64 \<Rightarrow> u64" where
  "reverse_loop 0 reversed v = reversed"
| "reverse_loop (Suc i) reversed v =
     reverse_loop i (push_bit 8 reversed OR (v AND 0xFF)) (drop_bit 8 v)"

definition reverseEndianness :: "u64 \<Rightarrow> u64" where
  "reverseEndianness v = reverse_loop 8 0 v"

text \<open>The loop of \<open>uint64ToString\<close> counts \<open>i\<close> down from 7; here \<open>Suc i\<close> iterations are left.\<close>

fun uint64_chars :: "nat \<Rightarrow> u64 \<Rightarrow> string" where
  "uint64_chars 0 v = []"
| "uint64_chars (Suc i) v =
     char_of (unat (drop_bit (i * 8) v AND 0xFF)) # uint64_chars i v"

definition uint64ToString :: "u64 \<Rightarrow> string" where
  "uint64ToString v = uint64_chars 8 v"

text \<open>The \<open>while (file)\<close> loop: the local \<open>byte\<close> is uninitialised in every iteration.\<close>

function read_rdb_loop :: "string \<Rightarrow> istream \<Rightarrow> string" where
  "read_rdb_loop binary_contents file =
     (if st_fail file then binary_contents
      else let (bytes, file') = read_fresh 8 file
           in read_rdb_loop
                (binary_contents @ uint64ToString (reverseEndianness (le_word bytes))) file')"
  by pat_completeness auto
termination
  by (relation "measure (\<lambda>(_, file). fuel_left file)")
     (auto dest!: sym [of _ "read_fresh 8 _"] intro: read_fresh_fuel_left)

declare read_rdb_loop.simps [simp del]

definition read_rdb_file_binary :: "istream \<Rightarrow> string" where
  "read_rdb_file_binary file = read_rdb_loop [] file"

section \<open>Byte reversal\<close>

lemma and_byte_mask: "v AND 0xFF = take_bit 8 (v :: u64)"
  by (simp add: take_bit_eq_mask mask_eq_exp_minus_1)

lemma unat_shift_or_byte:
  fixes r v :: u64
  assumes "unat r < 2 ^ 56"
  shows "unat (push_bit 8 r OR (v AND 0xFF)) = unat r * 256 + unat v mod 256"
proof -
  have disj: "push_bit 8 r AND (v AND 0xFF) = 0"
    unfolding and_byte_mask by (rule bit_word_eqI) (auto simp: bit_simps)
  have low: "unat (v AND 0xFF) = unat v mod 256"
    unfolding and_byte_mask by (simp add: take_bit_eq_mod unat_mod)
  have high: "unat (push_bit 8 r) = unat r * 256"
    using assms by (simp add: push_bit_eq_mult unat_word_ariths)
  have "unat (push_bit 8 r OR (v AND 0xFF)) = unat (push_bit 8 r + (v AND 0xFF))"
    by (simp add: disjunctive_add_eq_or [OF disj])
  also have "\<dots> = unat r * 256 + unat v mod 256"
    using assms high low by (simp add: unat_word_ariths)
  finally show ?thesis .
qed

lemma unat_drop_byte: "unat (drop_bit 8 v :: u64) = unat v div 256"
  by (simp add: drop_bit_eq_div unat_div)

lemma reverse_loop_value:
  "unat r < 256 ^ k \<Longrightarrow> i + k = 8 \<Longrightarrow>
   unat (reverse_loop i r v) = unat r * 256 ^ i + le_val (rev (le_bytes i (unat v)))"
proof (induction i arbitrary: k r v)
  case 0
  then show ?case by simp
next
  case (Suc i)
  let ?r = "push_bit 8 r OR (v AND 0xFF)"
  have "(256 :: nat) ^ k \<le> 256 ^ 7"
    using Suc.prems by (intro power_increasing) auto
  then have r: "unat ?r = unat r * 256 + unat v mod 256"
    using Suc.prems by (intro unat_shift_or_byte) simp
  also have "\<dots> < 256 ^ Suc k"
    using Suc.prems(1) by (simp; linarith)
  finally have "unat ?r < 256 ^ Suc k" .
  from Suc.IH [OF this, of "drop_bit 8 v"] Suc.prems(2) show ?case
    by (simp add: r unat_drop_byte le_val_append algebra_simps)
qed

lemma reverseEndianness_value:
  "unat (reverseEndianness v) = le_val (rev (le_bytes 8 (unat v)))"
  using reverse_loop_value [of 0 0 8 v] by (simp add: reverseEndianness_def)

lemma reverseEndianness_bytes:
  "le_bytes 8 (unat (reverseEndianness v)) = rev (le_bytes 8 (unat v))"
  using le_bytes_le_val [of "rev (le_bytes 8 (unat v))"] by (simp add: reverseEndianness_value)

lemma unat_le_bytes_8 [simp]: "le_val (le_bytes 8 (unat (v :: u64))) = unat v"
  using unat_u64_less [of v] by simp

text \<open>Reversing the bytes twice gives the word back.\<close>

lemma reverseEndianness_twice [simp]: "reverseEndianness (reverseEndianness v) = v"
proof (rule word_unat_eq_iff [THEN iffD2])
  show "unat (reverseEndianness (reverseEndianness v)) = unat v"
    unfolding reverseEndianness_value [of "reverseEndianness v"]
    by (simp add: reverseEndianness_bytes del: le_val_le_bytes)
qed

section \<open>Printing a word\<close>

lemma le_bytes_Suc_snoc: "le_bytes (Suc n) v = le_bytes n v @ [word_of_nat (v div 256 ^ n mod 256)]"
  by (induction n arbitrary: v) (auto simp: div_mult2_eq)

lemma unat_byte: "unat (drop_bit (i * 8) v AND 0xFF :: u64) = unat v div 256 ^ i mod 256"
proof -
  have "unat (drop_bit (i * 8) v) = drop_bit (i * 8) (unat v)"
    using unat_u64_less [of v] by (simp add: unsigned_drop_bit_eq take_bit_nat_eq_self)
  then have "unat (drop_bit (i * 8) v AND 0xFF) = take_bit 8 (drop_bit (i * 8) (unat v))"
    by (simp add: and_byte_mask unsigned_take_bit_eq)
  also have "\<dots> = unat v div (2 ^ 8) ^ i mod 2 ^ 8"
    by (simp only: take_bit_eq_mod drop_bit_eq_div mult.commute [of i] power_mult)
  finally show ?thesis by simp
qed

lemma uint64_chars_bytes:
  "uint64_chars i v = map char_of_byte (rev (le_bytes i (unat v)))"
  by (induction i) (simp_all add: le_bytes_Suc_snoc unat_byte char_of_byte_def del: le_bytes.simps(2))

lemma uint64ToString_bytes:
  "uint64ToString v = map char_of_byte (rev (le_bytes 8 (unat v)))"
  by (simp only: uint64ToString_def uint64_chars_bytes)

text \<open>Reading eight bytes, reversing them and printing them most significant first is the identity.\<close>

lemma uint64ToString_reverse:
  "length bs = 8 \<Longrightarrow> uint64ToString (reverseEndianness (le_word bs)) = map char_of_byte bs"
  by (simp add: uint64ToString_bytes reverseEndianness_bytes)

section \<open>Reading the whole file\<close>

lemma read_rdb_loop_failed [simp]: "st_fail s \<Longrightarrow> read_rdb_loop acc s = acc"
  by (simp add: read_rdb_loop.simps)

lemma read_rdb_loop_step:
  "\<not> st_fail s \<Longrightarrow> read_fresh 8 s = (bs, t) \<Longrightarrow>
   read_rdb_loop acc s = read_rdb_loop (acc @ map char_of_byte bs) t"
  by (subst read_rdb_loop.simps)
     (auto simp: read_fresh_def uninit_def intro!: arg_cong2 [of _ _ _ _ read_rdb_loop]
        uint64ToString_reverse dest!: length_sread)

text \<open>
  The loop reads eight bytes at a time until a read comes up short, and appends the buffer of that
  last read as well: the file is followed by supply bytes up to the next multiple of eight.
\<close>

lemma read_rdb_loop_value:
  "stream_at s bs \<Longrightarrow>
   read_rdb_loop acc s = acc @ map char_of_byte
     (bs @ map (st_stale s) [st_drawn s + length bs ..< st_drawn s + 8 * (length bs div 8 + 1)])"
proof (induction "length bs" arbitrary: bs s acc rule: less_induct)
  case less
  from less.prems have live: "\<not> st_fail s" "st_bytes s = bs"
    by (auto simp: stream_at_def)
  show ?case
  proof (cases "8 \<le> length bs")
    case True
    define t where "t = s\<lparr>st_drawn := st_drawn s + 8, st_bytes := drop 8 bs\<rparr>"
    have rd: "read_fresh 8 s = (take 8 bs, t)"
      using live True by (simp add: read_fresh_def uninit_def sread_def t_def)
    have at: "stream_at t (drop 8 bs)"
      using live by (simp add: stream_at_def t_def)
    have "read_rdb_loop acc s = read_rdb_loop (acc @ map char_of_byte (take 8 bs)) t"
      using live rd by (intro read_rdb_loop_step) auto
    also have "\<dots> = acc @ map char_of_byte
        (take 8 bs @ drop 8 bs @ map (st_stale s)
          [st_drawn s + length bs ..< st_drawn s + 8 * (length bs div 8 + 1)])"
      using less.hyps [OF _ at] True
      by (simp add: t_def le_div_geq add.left_commute)
    finally show ?thesis by (simp flip: append_assoc map_append)
  next
    case False
    then show ?thesis
      using live by (subst read_rdb_loop_step)
        (auto simp: read_fresh_def uninit_def sread_def drop_map drop_upt)
  qed
qed

section \<open>Properties\<close>

text \<open>\<open>reverseEndianness\<close> reverses the eight bytes of its argument, and doing it twice gives the
  argument back.\<close>

lemma reverseEndianness_reverses_bytes:
  "le_bytes 8 (unat (reverseEndianness v)) = rev (le_bytes 8 (unat v)) \<and>
   reverseEndianness (reverseEndianness v) = v"
  by (simp only: reverseEndianness_bytes reverseEndianness_twice)

text \<open>The transfer of the RDB file to a replica starts with the bytes of the file, in order, but does
  not end with them: it is padded with uninitialised stack bytes to the next multiple of eight, and a
  file whose size is a multiple of eight is followed by eight of them.\<close>

lemma rdb_transfer_is_padded:
  "read_rdb_file_binary (open_stream bytes stale) =
     map char_of_byte (bytes @ map stale [length bytes ..< 8 * (length bytes div 8 + 1)])"
  using read_rdb_loop_value [of "open_stream bytes stale" bytes "[]"]
  by (simp add: read_rdb_file_binary_def open_stream_def stream_at_def)

end
