(* ===== verification/Ecma_Regex.thy ===== *)
theory Ecma_Regex
  imports Cpp_Std
begin

text \<open>
  \<open>std::regex\<close> as the \<open>KEYS\<close> command uses it: compiling an ECMAScript pattern and
  \<open>regex_match\<close> of a whole string. Modelled are ordinary characters, the dot, groups,
  alternatives and the quantifiers \<^verbatim>\<open>* + ?\<close> with their lazy forms, which is what matters for a
  whole-string match without captures. Escapes, bracket expressions, counted repetition, anchors and
  \<^verbatim>\<open>(?\<close> groups are outside the fragment (\<open>in_fragment\<close>): for such a pattern the standard
  library's matcher is a parameter of the model.
\<close>

section \<open>Expressions and what they match\<close>

datatype rx = Zero | Eps | Chr char | AnyChar | Seq rx rx | Alt rx rx | Star rx

definition line_end :: "char \<Rightarrow> bool" where
  "line_end c \<longleftrightarrow> c = CHR 0x0A \<or> c = CHR 0x0D"

text \<open>The dot matches anything but a line terminator.\<close>

inductive matches :: "rx \<Rightarrow> string \<Rightarrow> bool" where
  m_eps: "matches Eps []"
| m_chr: "matches (Chr c) [c]"
| m_any: "\<not> line_end c \<Longrightarrow> matches AnyChar [c]"
| m_seq: "matches r s \<Longrightarrow> matches q t \<Longrightarrow> matches (Seq r q) (s @ t)"
| m_alt1: "matches r s \<Longrightarrow> matches (Alt r q) s"
| m_alt2: "matches q s \<Longrightarrow> matches (Alt r q) s"
| m_star0: "matches (Star r) []"
| m_star1: "matches r s \<Longrightarrow> matches (Star r) t \<Longrightarrow> matches (Star r) (s @ t)"

inductive_simps matches_zero [simp]: "matches Zero s"
inductive_simps matches_eps [simp]: "matches Eps s"
inductive_simps matches_chr [simp]: "matches (Chr c) s"
inductive_simps matches_any [simp]: "matches AnyChar s"
inductive_simps matches_seq: "matches (Seq r q) s"
inductive_simps matches_alt [simp]: "matches (Alt r q) s"

section \<open>The matcher\<close>

fun nullable :: "rx \<Rightarrow> bool" where
  "nullable Zero = False"
| "nullable Eps = True"
| "nullable (Chr c) = False"
| "nullable AnyChar = False"
| "nullable (Seq r q) = (nullable r \<and> nullable q)"
| "nullable (Alt r q) = (nullable r \<or> nullable q)"
| "nullable (Star r) = True"

fun deriv :: "char \<Rightarrow> rx \<Rightarrow> rx" where
  "deriv c Zero = Zero"
| "deriv c Eps = Zero"
| "deriv c (Chr d) = (if c = d then Eps else Zero)"
| "deriv c AnyChar = (if line_end c then Zero else Eps)"
| "deriv c (Seq r q) =
     (if nullable r then Alt (Seq (deriv c r) q) (deriv c q) else Seq (deriv c r) q)"
| "deriv c (Alt r q) = Alt (deriv c r) (deriv c q)"
| "deriv c (Star r) = Seq (deriv c r) (Star r)"

fun rx_match :: "rx \<Rightarrow> string \<Rightarrow> bool" where
  "rx_match r [] = nullable r"
| "rx_match r (c # s) = rx_match (deriv c r) s"

lemma nullable_iff: "nullable r \<longleftrightarrow> matches r []"
  by (induction r) (auto simp: matches_seq intro: matches.intros)

lemma star_Cons:
  assumes "matches (Star r) (c # s)"
  shows "\<exists>s1 s2. s = s1 @ s2 \<and> matches r (c # s1) \<and> matches (Star r) s2"
  using assms
proof (induction "Star r" "c # s" arbitrary: s rule: matches.induct)
  case (m_star1 u v)
  show ?case
  proof (cases u)
    case Nil
    with m_star1 show ?thesis by simp
  next
    case (Cons d u')
    with m_star1 show ?thesis by auto
  qed
qed

lemma seq_Cons:
  "matches (Seq r q) (c # s) \<longleftrightarrow>
     (\<exists>s1 s2. s = s1 @ s2 \<and> matches r (c # s1) \<and> matches q s2) \<or>
     (matches r [] \<and> matches q (c # s))"
  by (auto simp: matches_seq Cons_eq_append_conv)

lemma deriv_iff: "matches (deriv c r) s \<longleftrightarrow> matches r (c # s)"
proof (induction r arbitrary: s)
  case (Seq r q)
  have "matches (Seq (deriv c r) q) s \<longleftrightarrow>
      (\<exists>s1 s2. s = s1 @ s2 \<and> matches r (c # s1) \<and> matches q s2)"
    by (simp add: matches_seq Seq.IH(1))
  then show ?case
    by (simp add: seq_Cons nullable_iff Seq.IH(2))
next
  case (Star r)
  show ?case
    by (auto simp: Star matches_seq dest!: star_Cons intro: m_star1 [of _ "_ # _", simplified])
qed auto

text \<open>The matcher decides the relation.\<close>

lemma rx_match_iff: "rx_match r s \<longleftrightarrow> matches r s"
  by (induction s arbitrary: r) (auto simp: nullable_iff deriv_iff)

section \<open>Compiling a pattern\<close>

text \<open>
  A frame is one open group: the alternatives already closed and the terms of the current one, both
  latest first. A quantifier applies to the latest term; a question mark behind it makes it lazy.
\<close>

type_synonym frame = "rx list \<times> rx list"

definition seq_of :: "rx list \<Rightarrow> rx" where
  "seq_of cur = fold Seq cur Eps"

definition close_frame :: "frame \<Rightarrow> rx" where
  "close_frame f = fold Alt (fst f) (seq_of (snd f))"

definition quantify :: "char \<Rightarrow> rx \<Rightarrow> rx" where
  "quantify q r =
     (if q = CHR ''*'' then Star r else if q = CHR ''+'' then Seq r (Star r) else Alt r Eps)"

definition quantifier :: "char \<Rightarrow> bool" where
  "quantifier c \<longleftrightarrow> c = CHR ''*'' \<or> c = CHR ''+'' \<or> c = CHR ''?''"

definition drop_lazy :: "string \<Rightarrow> string" where
  "drop_lazy cs = (case cs of [] \<Rightarrow> [] | c # ds \<Rightarrow> if c = CHR ''?'' then ds else cs)"

lemma length_drop_lazy: "length (drop_lazy cs) \<le> length cs"
  by (auto simp: drop_lazy_def split: list.splits)

function compile_frames :: "string \<Rightarrow> frame list \<Rightarrow> rx result" where
  "compile_frames [] fs =
     (case fs of [f] \<Rightarrow> Inr (close_frame f) | _ \<Rightarrow> Inl Regex_Error)"
| "compile_frames (c # cs) fs =
     (case fs of
        [] \<Rightarrow> Inl Regex_Error
      | (alts, cur) # fs' \<Rightarrow>
          if c = CHR ''('' then compile_frames cs (([], []) # fs)
          else if c = CHR '')'' then
            (case fs' of
               [] \<Rightarrow> Inl Regex_Error
             | (alts', cur') # fs'' \<Rightarrow>
                 compile_frames cs ((alts', close_frame (alts, cur) # cur') # fs''))
          else if c = CHR ''|'' then compile_frames cs ((seq_of cur # alts, []) # fs')
          else if quantifier c then
            (case cur of
               [] \<Rightarrow> Inl Regex_Error
             | r # rs \<Rightarrow> compile_frames (drop_lazy cs) ((alts, quantify c r # rs) # fs'))
          else if c = CHR ''.'' then compile_frames cs ((alts, AnyChar # cur) # fs')
          else compile_frames cs ((alts, Chr c # cur) # fs'))"
  by pat_completeness auto
termination
  by (relation "measure (\<lambda>(cs, _). length cs)") (auto simp: length_drop_lazy less_Suc_eq_le)

definition regex_compile :: "string \<Rightarrow> rx result" where
  "regex_compile p = compile_frames p [([], [])]"

text \<open>Patterns the fragment does not cover.\<close>

definition outside_char :: "char \<Rightarrow> bool" where
  "outside_char c \<longleftrightarrow> c \<in> set [CHR 0x5C, CHR ''['', CHR ''{'', CHR ''^'', CHR ''$'', NUL]"

fun group_option :: "string \<Rightarrow> bool" where
  "group_option (c # d # cs) = (c = CHR ''('' \<and> d = CHR ''?'' \<or> group_option (d # cs))"
| "group_option _ = False"

definition in_fragment :: "string \<Rightarrow> bool" where
  "in_fragment p \<longleftrightarrow> \<not> list_ex outside_char p \<and> \<not> group_option p"

text \<open>
  \<open>std::regex pattern(p)\<close> and \<open>regex_match(key, pattern)\<close> together, as a predicate on keys or the
  exception; \<open>std_regex\<close> is the library outside the fragment.
\<close>

definition regex_matcher ::
  "(string \<Rightarrow> (string \<Rightarrow> bool) result) \<Rightarrow> string \<Rightarrow> (string \<Rightarrow> bool) result" where
  "regex_matcher std_regex p =
     (if in_fragment p then and_then (regex_compile p) (\<lambda>r. Inr (rx_match r)) else std_regex p)"

section \<open>Literal patterns\<close>

text \<open>Characters that stand for themselves.\<close>

definition plain :: "char \<Rightarrow> bool" where
  "plain c \<longleftrightarrow> \<not> outside_char c \<and> \<not> quantifier c \<and> c \<notin> set ''().|''"

lemma compile_plain:
  "list_all plain cs \<Longrightarrow>
   compile_frames (cs @ ds) ((alts, cur) # fs) =
     compile_frames ds ((alts, rev (map Chr cs) @ cur) # fs)"
  by (induction cs arbitrary: cur) (auto simp: plain_def)

lemma matches_literal: "matches (fold Seq (rev (map Chr cs)) r) s \<longleftrightarrow>
    (\<exists>t. s = cs @ t \<and> matches r t)"
  by (induction cs arbitrary: r s) (auto simp: matches_seq)

lemma matches_dots: "matches (Star AnyChar) s \<longleftrightarrow> list_all (\<lambda>c. \<not> line_end c) s"
proof
  assume "matches (Star AnyChar) s"
  then show "list_all (\<lambda>c. \<not> line_end c) s"
    by (induction "Star AnyChar" s rule: matches.induct) auto
next
  assume "list_all (\<lambda>c. \<not> line_end c) s"
  then show "matches (Star AnyChar) s"
  proof (induction s)
    case (Cons c s)
    then show ?case
      using m_star1 [of AnyChar "[c]" s] by simp
  qed (rule m_star0)
qed

lemma group_option_open: "group_option cs \<Longrightarrow> CHR ''('' \<in> set cs"
  by (induction cs rule: group_option.induct) auto

lemma plain_not_special: "plain c \<Longrightarrow> c \<noteq> CHR ''(''" "plain c \<Longrightarrow> \<not> outside_char c"
  by (auto simp: plain_def)

lemma plain_in_fragment:
  assumes "list_all plain cs"
  shows "in_fragment cs"
proof -
  have "\<not> list_ex outside_char cs" "CHR ''('' \<notin> set cs"
    using assms plain_not_special by (auto simp: list_all_iff list_ex_iff)
  then show ?thesis
    using group_option_open by (auto simp: in_fragment_def)
qed

end
