(* ===== verification/Redis_Parser.thy ===== *)
theory Redis_Parser
  imports Database_Handler Byte_Utils Ecma_Regex
begin

text \<open>
  The command parser of \<^verbatim>\<open>src/redis_parser.cpp\<close>: the dispatcher \<open>parseRESPCommand\<close> and one
  handler per command. A handler takes the world it runs in and gives the world after it together
  with an outcome: normal return, or the exception that ends the process (nothing catches one), with
  the effects up to that point. The synchronisation with the connection's handler thread is the
  subject of the theory \<open>Comm_Protocol\<close>; here a message that is enqueued is appended to the replies.
\<close>

section \<open>The world of a handler\<close>

record config =
  cfg_dir :: string
  cfg_dbfilename :: string
  cfg_port :: int

record world =
  db_handler :: DatabaseHandler
  cfg :: config
  clk :: clock
  replies :: "string list"
  net :: "net_event list"
  is_communicating :: bool

text \<open>
  What the handlers take from outside: \<open>std::regex\<close> outside the modelled fragment, the iteration
  order of \<open>std::unordered_map\<close>, and the file at \<open>RDB_FILE_PATH\<close> with the stack bytes its reads
  may expose.
\<close>

record environment =
  std_regex :: "string \<Rightarrow> (string \<Rightarrow> bool) result"
  iteration :: "(string \<times> DBValue) list \<Rightarrow> (string \<times> DBValue) list"
  rdb_file :: "u8 list option"
  stack_bytes :: "nat \<Rightarrow> u8"

type_synonym outcome = "unit result \<times> world"

fun or_throw :: "'a result \<Rightarrow> world \<Rightarrow> ('a \<Rightarrow> 'b result \<times> world) \<Rightarrow> 'b result \<times> world" where
  "or_throw (Inl e) w f = (Inl e, w)"
| "or_throw (Inr x) w f = f x"

lemma or_throw_split:
  "P (or_throw r w f) \<longleftrightarrow>
     (\<forall>e. r = Inl e \<longrightarrow> P (Inl e, w)) \<and> (\<forall>x. r = Inr x \<longrightarrow> P (f x))"
  by (cases r) auto

text \<open>After a call that returned normally, the next statement.\<close>

fun then_do :: "outcome \<Rightarrow> (world \<Rightarrow> outcome) \<Rightarrow> outcome" where
  "then_do (Inl e, w) f = (Inl e, w)"
| "then_do (Inr _, w) f = f w"

definition enqueueMessage :: "string \<Rightarrow> world \<Rightarrow> world" where
  "enqueueMessage message w = w\<lparr>replies := replies w @ [message]\<rparr>"

definition communication_over :: "world \<Rightarrow> world" where
  "communication_over w = w\<lparr>is_communicating := False\<rparr>"

text \<open>Enqueue the only message of a handler and return.\<close>

definition reply_and_finish :: "string \<Rightarrow> world \<Rightarrow> outcome" where
  "reply_and_finish message w = (Inr (), communication_over (enqueueMessage message w))"

definition get_server_info :: "world \<Rightarrow> ServerInfo" where
  "get_server_info w = server_info (db_handler w)"

definition set_server_info :: "ServerInfo \<Rightarrow> world \<Rightarrow> world" where
  "set_server_info si w = w\<lparr>db_handler := (db_handler w)\<lparr>server_info := si\<rparr>\<rparr>"

section \<open>Handlers\<close>

text \<open>The second message of \<open>PSYNC\<close>: the RDB file as a bulk string, without the closing line end.\<close>

definition rdb_reply :: "environment \<Rightarrow> string" where
  "rdb_reply env =
     (let file = (case rdb_file env of
          Some bytes \<Rightarrow> open_stream bytes (stack_bytes env)
        | None \<Rightarrow> (open_stream [] (stack_bytes env))\<lparr>st_fail := True\<rparr>);
        response = read_rdb_file_binary file
      in ''$'' @ to_string (int (length response)) @ CRLF @ response)"

definition parsePSYNCCommand :: "environment \<Rightarrow> int \<Rightarrow> world \<Rightarrow> outcome" where
  "parsePSYNCCommand env client_fd w =
     or_throw
       (if get_role (get_server_info w) = ''master'' then
          and_then (int_add (get_connected_slaves (get_server_info w)) 1) (\<lambda>n.
            Inr (add_connected_slave client_fd (update_connected_slaves n (get_server_info w))))
        else Inr (get_server_info w)) w (\<lambda>si.
     let w = set_server_info si w;
         w = enqueueMessage (''+FULLRESYNC '' @ get_master_replid si @ '' 0'' @ CRLF) w
     in reply_and_finish (rdb_reply env) w)"

definition parseREPLCONFCommand :: "world \<Rightarrow> outcome" where
  "parseREPLCONFCommand w = reply_and_finish OK_RESPONSE w"

definition CR :: string where
  "CR = [CHR 0x0D]"

definition info_line :: "string \<Rightarrow> int \<Rightarrow> string" where
  "info_line name v = name @ to_string v @ CR"

definition replication_info :: "ServerInfo \<Rightarrow> string" where
  "replication_info si =
     ''role:'' @ get_role si @ CR @
     info_line ''connected_slaves:'' (get_connected_slaves si) @
     ''master_replid:'' @ get_master_replid si @ CR @
     info_line ''master_repl_offset:'' (get_master_repl_offset si) @
     info_line ''second_repl_offset:'' (get_second_repl_offset si) @
     info_line ''repl_backlog_active:'' (get_repl_backlog_active si) @
     info_line ''repl_backlog_size:'' (get_repl_backlog_size si) @
     info_line ''repl_backlog_first_byte_offset:'' (get_repl_backlog_first_byte_offset si) @
     info_line ''repl_backlog_histlen:'' (get_repl_backlog_histlen si)"

definition parseINFOCommand :: "string \<Rightarrow> size_t \<Rightarrow> world \<Rightarrow> outcome" where
  "parseINFOCommand input pos w =
     or_throw (parseBulkString input pos) w (\<lambda>(command, pos).
       let response =
         (if to_upper command = ''REPLICATION'' then replication_info (get_server_info w) else [])
       in reply_and_finish (create_string_reponse response) w)"

text \<open>
  The pattern of \<open>KEYS\<close>: with a star at the end, a group of what is in front of it followed by
  anything. Reading the last character of an empty argument is an access out of range.
\<close>

definition keys_pattern :: "string \<Rightarrow> string result" where
  "keys_pattern to_match =
     and_then (char_at to_match (word_of_int (int (length to_match) - 1))) (\<lambda>c.
       Inr (if c = CHR ''*''
            then ''('' @ take (length to_match - 1) to_match @ '')(.*)''
            else to_match))"

definition parseKEYSCommand :: "environment \<Rightarrow> string \<Rightarrow> size_t \<Rightarrow> world \<Rightarrow> outcome" where
  "parseKEYSCommand env input pos w =
     or_throw (parseBulkString input pos) w (\<lambda>(to_match, pos).
     or_throw (and_then (keys_pattern to_match) (regex_matcher (std_regex env))) w (\<lambda>regex_match.
       let keys = map fst (iteration env (database (db_handler w)));
           response_array = filter regex_match keys
       in reply_and_finish (create_array_reponse response_array) w))"

definition parseCONFIGGETCommand :: "string \<Rightarrow> size_t \<Rightarrow> world \<Rightarrow> outcome" where
  "parseCONFIGGETCommand input pos w =
     or_throw (parseBulkString input pos) w (\<lambda>(command, pos).
       if to_upper command = ''GET'' then
         or_throw (parseBulkString input pos) w (\<lambda>(config_variable, pos).
           if config_variable = ''dir'' then
             reply_and_finish (create_array_reponse [config_variable, cfg_dir (cfg w)]) w
           else if config_variable = ''dbfile'' then
             reply_and_finish (create_array_reponse [config_variable, cfg_dbfilename (cfg w)]) w
           else reply_and_finish NULL_RESPONSE w)
       else reply_and_finish NULL_RESPONSE w)"

definition parseGETCommand :: "string \<Rightarrow> size_t \<Rightarrow> world \<Rightarrow> outcome" where
  "parseGETCommand input pos w =
     or_throw (parseBulkString input pos) w (\<lambda>(argument, pos).
       let (response, db, clock) = db_get argument (db_handler w) (clk w);
           w = w\<lparr>db_handler := db, clk := clock\<rparr>
       in if response \<noteq> NULL_RESPONSE then reply_and_finish (create_string_reponse response) w
          else reply_and_finish response w)"

text \<open>The expiry clause of \<open>SET\<close>; the clock is read before the number is.\<close>

definition read_expiry ::
  "string \<Rightarrow> size_t \<Rightarrow> int \<Rightarrow> world \<Rightarrow> (int \<times> size_t) result \<times> world" where
  "read_expiry input pos num_elements w =
     (if num_elements > 3 then
        or_throw (parseBulkString input pos) w (\<lambda>(expiry_command, pos).
        or_throw (parseBulkString input pos) w (\<lambda>(expiry_value, pos).
          let (current_time, clock) = get_current_time_milli (clk w);
              w = w\<lparr>clk := clock\<rparr>
          in or_throw (stoi expiry_value) w (\<lambda>n.
               if long_ok (current_time + n) then (Inr (current_time + n, pos), w)
               else (Inl Undefined_Behaviour, w))))
      else (Inr (0, pos), w))"

text \<open>The propagation loop, from index \<open>i\<close> on with \<open>n\<close> slaves left.\<close>

fun propagate_loop :: "nat \<Rightarrow> int \<Rightarrow> string \<Rightarrow> world \<Rightarrow> outcome" where
  "propagate_loop 0 i input w = (Inr (), w)"
| "propagate_loop (Suc n) i input w =
     or_throw (get_connected_slave_fd (get_server_info w) i) w (\<lambda>fd.
       propagate_loop n (i + 1) input (w\<lparr>net := net w @ [Send fd input]\<rparr>))"

definition propagate :: "string \<Rightarrow> world \<Rightarrow> outcome" where
  "propagate input w =
     (if get_role (get_server_info w) = ''master''
      then propagate_loop (nat (get_connected_slaves (get_server_info w))) 0 input w
      else (Inr (), w))"

text \<open>
  The end of \<open>SET\<close>, once the value is stored and acknowledged: a command that follows in the buffer
  is handled first, by the recursive call \<open>again\<close> of the dispatcher, then the whole buffer is
  propagated.
\<close>

definition set_tail ::
  "(size_t \<Rightarrow> world \<Rightarrow> outcome) \<Rightarrow> string \<Rightarrow> size_t \<Rightarrow> world \<Rightarrow> outcome" where
  "set_tail again input pos w =
     or_throw (char_at input pos) w (\<lambda>c.
       then_do (if c = CHR ''*'' then again pos w else (Inr (), w)) (\<lambda>w.
       then_do (propagate input w) (\<lambda>w. (Inr (), communication_over w))))"

definition parseSETCommand ::
  "(size_t \<Rightarrow> world \<Rightarrow> outcome) \<Rightarrow> string \<Rightarrow> size_t \<Rightarrow> int \<Rightarrow> world \<Rightarrow> outcome" where
  "parseSETCommand again input pos num_elements w =
     or_throw (parseBulkString input pos) w (\<lambda>(argument1, pos).
     or_throw (parseBulkString input pos) w (\<lambda>(argument2, pos).
     let (r, w) = read_expiry input pos num_elements w
     in or_throw r w (\<lambda>(expiry_time, pos).
       let w = w\<lparr>db_handler := db_set argument1 argument2 expiry_time (db_handler w)\<rparr>
       in set_tail again input pos (enqueueMessage OK_RESPONSE w))))"

definition parseECHOCommand :: "string \<Rightarrow> size_t \<Rightarrow> world \<Rightarrow> outcome" where
  "parseECHOCommand input pos w =
     or_throw (parseBulkString input pos) w (\<lambda>(argument, pos).
       reply_and_finish (create_string_reponse argument) w)"

definition parsePINGCommand :: "world \<Rightarrow> outcome" where
  "parsePINGCommand w = reply_and_finish PING_RESPONSE w"

section \<open>The dispatcher\<close>

text \<open>The comparison chain over the upper-cased command name.\<close>

definition dispatch ::
  "(size_t \<Rightarrow> world \<Rightarrow> outcome) \<Rightarrow> environment \<Rightarrow> int \<Rightarrow> string \<Rightarrow> string \<Rightarrow> int \<Rightarrow> size_t \<Rightarrow>
     world \<Rightarrow> outcome" where
  "dispatch again env client_fd input command num_elements pos w =
     (if command = ''ECHO'' then parseECHOCommand input pos w
      else if command = ''PING'' then parsePINGCommand w
      else if command = ''SET'' then parseSETCommand again input pos num_elements w
      else if command = ''GET'' then parseGETCommand input pos w
      else if command = ''CONFIG'' then parseCONFIGGETCommand input pos w
      else if command = ''KEYS'' then parseKEYSCommand env input pos w
      else if command = ''INFO'' then parseINFOCommand input pos w
      else if command = ''REPLCONF'' then parseREPLCONFCommand w
      else if command = ''PSYNC'' then parsePSYNCCommand env client_fd w
      else reply_and_finish NULL_RESPONSE w)"

text \<open>
  The dispatcher and \<open>SET\<close> call each other, once per command in the buffer. A negative bulk length
  can move the position backwards, so this recursion need not end; the first argument is the depth
  of calls the stack has room for, and running out of it ends the process.
\<close>

fun parseRESPCommand ::
  "nat \<Rightarrow> environment \<Rightarrow> int \<Rightarrow> string \<Rightarrow> size_t \<Rightarrow> world \<Rightarrow> outcome" where
  "parseRESPCommand 0 env client_fd input pos w = (Inl Stack_Overflow, w)"
| "parseRESPCommand (Suc depth) env client_fd input pos w =
     or_throw (char_at input pos) w (\<lambda>c.
       if c \<noteq> CHR ''*'' then (Inr (), communication_over w)
       else
         or_throw (read_array_header input (pos + 1)) w (\<lambda>(num_elements, pos).
         or_throw (parseBulkString input pos) w (\<lambda>(command, pos).
           dispatch (parseRESPCommand depth env client_fd input) env client_fd input
             (to_upper command) num_elements pos w)))"

declare parseRESPCommand.simps(2) [simp del]

section \<open>The contract of a handler\<close>

text \<open>
  Replies and network events are only appended, the configuration is left alone, the store stays
  well formed, and a handler that returns normally has told the connection's thread that the
  communication is over.
\<close>

definition extends :: "world \<Rightarrow> world \<Rightarrow> bool" where
  "extends w w' \<longleftrightarrow>
     prefix (replies w) (replies w') \<and> prefix (net w) (net w') \<and> cfg w' = cfg w \<and>
     (db_inv (db_handler w) \<longrightarrow> db_inv (db_handler w'))"

lemma extends_refl [simp]: "extends w w"
  by (simp add: extends_def)

lemma extends_trans [trans]: "extends u v \<Longrightarrow> extends v w \<Longrightarrow> extends u w"
  by (auto simp: extends_def intro: prefix_order.trans)

lemma extends_enqueue [simp]: "extends w (enqueueMessage m w)"
  by (simp add: extends_def enqueueMessage_def)

lemma extends_over [simp]: "extends w (communication_over w)"
  by (simp add: extends_def communication_over_def)

text \<open>The rules by which a handler is checked, one per way its code goes on.\<close>

fun keeps :: "world \<Rightarrow> outcome \<Rightarrow> bool" where
  "keeps w (r, w') \<longleftrightarrow> extends w w' \<and> (r = Inr () \<longrightarrow> \<not> is_communicating w')"

lemma keeps_throw:
  "extends w u \<Longrightarrow> (\<And>x. r = Inr x \<Longrightarrow> keeps w (f x)) \<Longrightarrow> keeps w (or_throw r u f)"
  by (cases r) auto

lemma keeps_reply: "extends w u \<Longrightarrow> keeps w (reply_and_finish m u)"
  by (auto simp: reply_and_finish_def extends_def enqueueMessage_def communication_over_def
      intro: prefix_order.trans)

lemma keeps_over [simp]: "extends w u \<Longrightarrow> keeps w (r, communication_over u)"
  by (auto simp: extends_def communication_over_def)

lemma keeps_then:
  "(\<And>r u. o1 = (r, u) \<Longrightarrow> extends w u) \<Longrightarrow> (\<And>u. o1 = (Inr (), u) \<Longrightarrow> keeps w (f u)) \<Longrightarrow>
   keeps w (then_do o1 f)"
  by (cases "(o1, f)" rule: then_do.cases) auto

lemma keeps_from: "extends w u \<Longrightarrow> keeps u p \<Longrightarrow> keeps w p"
  by (cases p) (auto intro: extends_trans)

lemmas keeps_rules = keeps_throw keeps_reply keeps_over

locale command_handler =
  fixes h :: "world \<Rightarrow> outcome"
  assumes h_keeps: "keeps w (h w)"
begin

lemma h_extends: "h w = (r, w') \<Longrightarrow> extends w w'"
  using h_keeps [of w] by simp

lemma h_inv: "h w = (r, w') \<Longrightarrow> db_inv (db_handler w) \<Longrightarrow> db_inv (db_handler w')"
  using h_extends by (simp add: extends_def)

lemma h_replies: "h w = (r, w') \<Longrightarrow> \<exists>ms. replies w' = replies w @ ms"
  using h_extends by (fastforce simp: extends_def prefix_def)

lemma h_net: "h w = (r, w') \<Longrightarrow> \<exists>es. net w' = net w @ es"
  using h_extends by (fastforce simp: extends_def prefix_def)

lemma h_finishes: "h w = (Inr (), w') \<Longrightarrow> \<not> is_communicating w'"
  using h_keeps [of w] by simp

end

interpretation echo: command_handler "parseECHOCommand input pos"
  by unfold_locales (auto simp: parseECHOCommand_def split: prod.splits intro!: keeps_rules)

interpretation ping: command_handler parsePINGCommand
  by unfold_locales (auto simp: parsePINGCommand_def intro!: keeps_rules)

interpretation replconf: command_handler parseREPLCONFCommand
  by unfold_locales (auto simp: parseREPLCONFCommand_def intro!: keeps_rules)

interpretation info: command_handler "parseINFOCommand input pos"
  by unfold_locales
    (auto simp: parseINFOCommand_def Let_def split: prod.splits intro!: keeps_rules)

interpretation keys: command_handler "parseKEYSCommand env input pos"
  by unfold_locales
    (auto simp: parseKEYSCommand_def Let_def split: prod.splits intro!: keeps_rules)

interpretation config_get: command_handler "parseCONFIGGETCommand input pos"
  by unfold_locales
    (auto simp: parseCONFIGGETCommand_def split: prod.splits intro!: keeps_rules)

lemma extends_get:
  "db_get key (db_handler w) (clk w) = (r, db, clock) \<Longrightarrow>
   extends w (w\<lparr>db_handler := db, clk := clock\<rparr>)"
  using db_inv_get [of key "db_handler w" "clk w"] by (auto simp: extends_def)

interpretation get: command_handler "parseGETCommand input pos"
  by unfold_locales
    (auto simp: parseGETCommand_def Let_def split: prod.splits intro!: keeps_rules extends_get)

lemma psync_register:
  assumes "(if role (get_server_info w) = ''master'' then
      and_then (int_add (connected_slaves (get_server_info w)) 1) (\<lambda>n.
        Inr (add_connected_slave fd (update_connected_slaves n (get_server_info w))))
    else Inr (get_server_info w)) = Inr si"
  shows "extends w (set_server_info si w)"
  using assms
  by (auto simp: extends_def set_server_info_def get_server_info_def db_inv_def int_add_def
      intro: si_inv_register split: if_splits)

interpretation psync: command_handler "parsePSYNCCommand env fd"
  by unfold_locales
    (auto simp: parsePSYNCCommand_def Let_def
      intro!: keeps_rules extends_trans [OF psync_register extends_enqueue])

section \<open>Propagation\<close>

lemma propagate_loop_ok:
  "si_inv (get_server_info w) \<Longrightarrow> i + n = length (connected_slaves_fd (get_server_info w)) \<Longrightarrow>
   propagate_loop n (int i) input w =
     (Inr (), w\<lparr>net := net w @
        map (\<lambda>fd. Send fd input) (drop i (connected_slaves_fd (get_server_info w)))\<rparr>)"
proof (induction n arbitrary: i w)
  case 0
  then show ?case by simp
next
  case (Suc n)
  let ?fds = "connected_slaves_fd (get_server_info w)"
  let ?w = "w\<lparr>net := net w @ [Send (?fds ! i) input]\<rparr>"
  have i: "i < length ?fds" and n: "Suc i + n = length ?fds"
    using Suc.prems(2) by simp_all
  have same: "get_server_info ?w = get_server_info w"
    by (simp add: get_server_info_def)
  have "propagate_loop n (int (Suc i)) input ?w =
      (Inr (), ?w\<lparr>net := net ?w @ map (\<lambda>fd. Send fd input) (drop (Suc i) ?fds)\<rparr>)"
    using Suc.IH [of ?w "Suc i"] Suc.prems(1) n by (simp add: same)
  then show ?case
    using i by (simp add: get_connected_slave_fd_def Cons_nth_drop_Suc [symmetric] add.commute)
qed

text \<open>Where a master's input goes: to every registered slave, in the order they registered.\<close>

definition propagation :: "string \<Rightarrow> ServerInfo \<Rightarrow> net_event list" where
  "propagation input si =
     (if role si = ''master'' then map (\<lambda>fd. Send fd input) (connected_slaves_fd si) else [])"

lemma propagate_ok:
  assumes "si_inv (get_server_info w)"
  shows "propagate input w = (Inr (), w\<lparr>net := net w @ propagation input (get_server_info w)\<rparr>)"
proof -
  have "nat (connected_slaves (get_server_info w)) = length (connected_slaves_fd (get_server_info w))"
    using assms by (simp add: si_inv_def)
  then show ?thesis
    using propagate_loop_ok [OF assms, of 0] assms
    by (simp add: propagate_def propagation_def)
qed

lemma extends_propagate_loop: "propagate_loop n i input w = (r, w') \<Longrightarrow> extends w w'"
proof (induction n arbitrary: i w)
  case (Suc n)
  show ?case
  proof (cases "get_connected_slave_fd (get_server_info w) i")
    case (Inr fd)
    with Suc.prems have "propagate_loop n (i + 1) input (w\<lparr>net := net w @ [Send fd input]\<rparr>) = (r, w')"
      by simp
    then have "extends (w\<lparr>net := net w @ [Send fd input]\<rparr>) w'" by (rule Suc.IH)
    then show ?thesis
      by (auto simp: extends_def dest: append_prefixD)
  qed (use Suc.prems in simp)
qed simp

lemma extends_propagate: "propagate input w = (r, w') \<Longrightarrow> extends w w'"
  by (auto simp: propagate_def split: if_splits dest: extends_propagate_loop)

section \<open>The contract of SET and of the dispatcher\<close>

lemma extends_snd_read_expiry: "extends w (snd (read_expiry input pos n w))"
  by (auto simp: read_expiry_def get_current_time_milli_def Let_def extends_def
      split: or_throw_split)

lemma extends_read_expiry: "read_expiry input pos n w = (r, w') \<Longrightarrow> extends w w'"
  using extends_snd_read_expiry [of w input pos n] by simp

lemma keeps_set:
  assumes "\<And>p. command_handler (again p)"
  shows "command_handler (parseSETCommand again input pos n)"
proof
  fix w
  have again: "extends u v" if "again p u = (r, v)" for p u r v
    using command_handler.h_extends [OF assms that] .
  have step: "extends w (enqueueMessage OK_RESPONSE (u\<lparr>db_handler := db_set k v e (db_handler u)\<rparr>))"
    if "extends w u" for u k v e
    using that by (auto simp: extends_def enqueueMessage_def intro: prefix_order.trans)
  have tail: "keeps w (set_tail again input p v)" if v: "extends w v" for p v
    unfolding set_tail_def
  proof (rule keeps_throw [OF v], rule keeps_then)
    fix c r u
    assume "(if c = CHR ''*'' then again p v else (Inr (), v)) = (r, u)"
    then show u: "extends w u"
      using v again by (auto split: if_splits intro: extends_trans)
  next
    fix c u
    assume "(if c = CHR ''*'' then again p v else (Inr (), v)) = (Inr (), u)"
    then have u: "extends w u"
      using v again by (auto split: if_splits intro: extends_trans)
    then show "keeps w (then_do (propagate input u) (\<lambda>w. (Inr (), communication_over w)))"
      using extends_propagate by (auto intro!: keeps_then keeps_over intro: extends_trans)
  qed
  show "keeps w (parseSETCommand again input pos n w)"
    unfolding parseSETCommand_def Let_def
    by (auto intro!: keeps_throw tail step dest!: extends_read_expiry split: prod.splits)
qed

lemma keeps_dispatch:
  assumes "\<And>p. command_handler (again p)"
  shows "keeps w (dispatch again env fd input command n pos w)"
  using command_handler.h_keeps [OF keeps_set [OF assms]] echo.h_keeps ping.h_keeps get.h_keeps
    config_get.h_keeps keys.h_keeps info.h_keeps replconf.h_keeps psync.h_keeps
  by (simp add: dispatch_def keeps_reply)

lemma keeps_parse: "command_handler (parseRESPCommand depth env fd input pos)"
proof (induction depth arbitrary: pos)
  case 0
  show ?case by unfold_locales simp
next
  case (Suc depth)
  show ?case
    by unfold_locales
      (auto simp: parseRESPCommand.simps(2) simp del: keeps.simps split: prod.splits
        intro!: keeps_throw keeps_over keeps_dispatch Suc.IH)
qed

interpretation dispatcher: command_handler "parseRESPCommand depth env fd input pos"
  by (rule keeps_parse)

section \<open>Reading a well-formed command\<close>

definition command_bytes :: "string list \<Rightarrow> string" where
  "command_bytes args = create_array_reponse args"

text \<open>Up to the command name only the header and the name matter.\<close>

lemma parse_header:
  assumes "cursor input pos (CHR ''*'' # to_string n @ CRLF @ create_string_reponse command @ rest)"
    and "int_ok n"
  shows "\<exists>pos'. parseRESPCommand (Suc depth) env fd input pos w =
      dispatch (parseRESPCommand depth env fd input) env fd input (to_upper command) n pos' w \<and>
    cursor input pos' rest"
proof -
  have c: "char_at input pos = Inr (CHR ''*'')"
    using assms(1) by (rule char_at_cursor)
  from read_array_header_cursor [OF cursor_Cons [OF assms(1)] assms(2)] obtain p1 where
    1: "read_array_header input (pos + 1) = Inr (n, p1)"
       "cursor input p1 (create_string_reponse command @ rest)" by blast
  from parseBulkString_cursor [OF 1(2)] obtain p2 where
    2: "parseBulkString input p1 = Inr (command, p2)" "cursor input p2 rest" by blast
  show ?thesis
    using c 1(1) 2 by (auto simp: parseRESPCommand.simps(2))
qed

lemma length_concat_bulks: "length ss \<le> length (concat (map create_string_reponse ss))"
proof (induction ss)
  case (Cons s ss)
  then show ?case by (simp add: length_create_string_reponse)
qed simp

lemma parse_command:
  assumes "cursor input pos (command_bytes (command # args) @ rest)"
  shows "\<exists>pos'. parseRESPCommand (Suc depth) env fd input pos w =
      dispatch (parseRESPCommand depth env fd input) env fd input (to_upper command)
        (int (Suc (length args))) pos' w \<and>
    cursor input pos' (concat (map create_string_reponse args) @ rest)"
proof (rule parse_header)
  show "cursor input pos (CHR ''*'' # to_string (int (Suc (length args))) @ CRLF @
      create_string_reponse command @ concat (map create_string_reponse args) @ rest)"
    using assms by (simp add: command_bytes_def create_array_reponse_eq)
  show "int_ok (int (Suc (length args)))"
    using cursor_small [OF assms] length_concat_bulks [of "command # args"]
    by (simp add: command_bytes_def create_array_reponse_eq int_ok_def)
qed

end
