(* ===== verification/Server_Spec.thy ===== *)
theory Server_Spec
  imports Redis_Parser
begin

text \<open>
  The abstract server: what a client is promised, as a map from keys to values with expiry, and the
  proof that the byte-level handlers implement it for one request, for a session of requests and for
  pipelined stores, including what is propagated to the replicas.
\<close>

section \<open>The abstract server\<close>

datatype request =
    Ping
  | Echo string
  | Get string
  | Set string string
  | Set_Px string string int

fun request_args :: "request \<Rightarrow> string list" where
  "request_args Ping = [''PING'']"
| "request_args (Echo m) = [''ECHO'', m]"
| "request_args (Get k) = [''GET'', k]"
| "request_args (Set k v) = [''SET'', k, v]"
| "request_args (Set_Px k v ms) = [''SET'', k, v, ''PX'', to_string ms]"

definition request_bytes :: "request \<Rightarrow> string" where
  "request_bytes q = command_bytes (request_args q)"

text \<open>A found value goes out as a bulk string, unless it is itself spelt like the null reply.\<close>

definition value_reply :: "string \<Rightarrow> string" where
  "value_reply v = (if v = NULL_RESPONSE then NULL_RESPONSE else create_string_reponse v)"

fun spec_serve :: "request \<Rightarrow> store \<Rightarrow> clock \<Rightarrow> string \<times> store \<times> clock" where
  "spec_serve Ping m c = (PING_RESPONSE, m, c)"
| "spec_serve (Echo s) m c = (create_string_reponse s, m, c)"
| "spec_serve (Get k) m c =
     (case m k of
        None \<Rightarrow> (NULL_RESPONSE, m, c)
      | Some v \<Rightarrow>
          if expiry_time v = 0 then (value_reply (db_value v), m, c)
          else if readings c (reads c) < expiry_time v
          then (value_reply (db_value v), m, c\<lparr>reads := Suc (reads c)\<rparr>)
          else (NULL_RESPONSE, m(k := None), c\<lparr>reads := Suc (reads c)\<rparr>))"
| "spec_serve (Set k v) m c = (OK_RESPONSE, m(k \<mapsto> \<lparr>db_value = v, expiry_time = 0\<rparr>), c)"
| "spec_serve (Set_Px k v ms) m c =
     (OK_RESPONSE, m(k \<mapsto> \<lparr>db_value = v, expiry_time = readings c (reads c) + ms\<rparr>),
      c\<lparr>reads := Suc (reads c)\<rparr>)"

text \<open>The limits of the wire and of the integer types.\<close>

fun request_ok :: "request \<Rightarrow> clock \<Rightarrow> bool" where
  "request_ok (Set_Px k v ms) c =
     (int_ok ms \<and> long_ok (readings c (reads c) + ms) \<and>
      length (request_bytes (Set_Px k v ms)) < 2 ^ 31)"
| "request_ok q c = (length (request_bytes q) < 2 ^ 31)"

section \<open>A server at rest\<close>

text \<open>A master without data, slaves or RDB file, whose clock stands at one: the state the concrete
  instances of the properties start from.\<close>

definition plain_env :: environment where
  "plain_env = \<lparr>std_regex = (\<lambda>p. Inl Regex_Error), iteration = (\<lambda>kvs. kvs), rdb_file = None,
     stack_bytes = (\<lambda>i. 0)\<rparr>"

definition empty_world :: world where
  "empty_world =
     \<lparr>db_handler = empty_db,
      cfg = \<lparr>cfg_dir = [], cfg_dbfilename = [], cfg_port = 6379\<rparr>,
      clk = \<lparr>readings = (\<lambda>n. 1), reads = 0\<rparr>, replies = [], net = [], is_communicating = False\<rparr>"

lemma empty_world_simps [simp]:
  "store_of (db_handler empty_world) = Map.empty" "replies empty_world = []"
  "clk empty_world = \<lparr>readings = (\<lambda>n. 1), reads = 0\<rparr>" "db_inv (db_handler empty_world)"
  "get_server_info empty_world = plain_server_info"
  by (simp_all add: empty_world_def get_server_info_def)

section \<open>One buffer\<close>

text \<open>
  What the connection's thread does with a received buffer: a fresh parser, marked as communicating,
  parses it from the start.
\<close>

definition serve_input :: "nat \<Rightarrow> environment \<Rightarrow> int \<Rightarrow> string \<Rightarrow> world \<Rightarrow> outcome" where
  "serve_input depth env client_fd input w =
     parseRESPCommand depth env client_fd input 0 (w\<lparr>is_communicating := True\<rparr>)"

fun serve_all :: "nat \<Rightarrow> environment \<Rightarrow> int \<Rightarrow> string list \<Rightarrow> world \<Rightarrow> outcome" where
  "serve_all depth env client_fd [] w = (Inr (), w)"
| "serve_all depth env client_fd (input # inputs) w =
     then_do (serve_input depth env client_fd input w) (serve_all depth env client_fd inputs)"

section \<open>Handlers at a cursor\<close>

lemma bulk1_cursor:
  "cursor input pos (create_string_reponse s) \<Longrightarrow>
   \<exists>p. parseBulkString input pos = Inr (s, p) \<and> cursor input p []"
  using parseBulkString_cursor [of input pos s "[]"] by simp

definition stored :: "string \<Rightarrow> string \<Rightarrow> int \<Rightarrow> world \<Rightarrow> world" where
  "stored k v e w =
     enqueueMessage OK_RESPONSE (w\<lparr>db_handler := db_set k v e (db_handler w)\<rparr>)"

lemma set_cursor:
  assumes "cursor input pos (create_string_reponse k @ create_string_reponse v @ rest)"
  shows "\<exists>p. parseSETCommand again input pos 3 w = set_tail again input p (stored k v 0 w) \<and>
    cursor input p rest"
proof -
  from parseBulkString_cursor [OF assms] obtain p1 where
    1: "parseBulkString input pos = Inr (k, p1)"
       "cursor input p1 (create_string_reponse v @ rest)" by blast
  from parseBulkString_cursor [OF 1(2)] obtain p2 where
    2: "parseBulkString input p1 = Inr (v, p2)" "cursor input p2 rest" by blast
  then show ?thesis
    using 1(1) by (auto simp: parseSETCommand_def read_expiry_def stored_def Let_def)
qed

lemma set_px_cursor:
  assumes "cursor input pos (create_string_reponse k @ create_string_reponse v @
      create_string_reponse px @ create_string_reponse (to_string ms) @ rest)"
    and "int_ok ms" and "long_ok (readings (clk w) (reads (clk w)) + ms)"
  defines "now \<equiv> readings (clk w) (reads (clk w))"
  shows "\<exists>p. parseSETCommand again input pos 5 w =
      set_tail again input p (stored k v (now + ms) (w\<lparr>clk := snd (get_current_time_milli (clk w))\<rparr>)) \<and>
    cursor input p rest"
proof -
  from parseBulkString_cursor [OF assms(1)] obtain p1 where
    1: "parseBulkString input pos = Inr (k, p1)"
       "cursor input p1 (create_string_reponse v @ create_string_reponse px @
          create_string_reponse (to_string ms) @ rest)" by blast
  from parseBulkString_cursor [OF 1(2)] obtain p2 where
    2: "parseBulkString input p1 = Inr (v, p2)"
       "cursor input p2 (create_string_reponse px @ create_string_reponse (to_string ms) @ rest)"
    by blast
  from parseBulkString_cursor [OF 2(2)] obtain p3 where
    3: "parseBulkString input p2 = Inr (px, p3)"
       "cursor input p3 (create_string_reponse (to_string ms) @ rest)" by blast
  from parseBulkString_cursor [OF 3(2)] obtain p4 where
    4: "parseBulkString input p3 = Inr (to_string ms, p4)" "cursor input p4 rest" by blast
  then show ?thesis
    using 1(1) 2(1) 3(1) assms(2,3)
    by (auto simp: parseSETCommand_def read_expiry_def stored_def Let_def now_def
        get_current_time_milli_def)
qed

lemma get_server_info_stored [simp]: "get_server_info (stored k v e w) = get_server_info w"
  by (simp add: get_server_info_def stored_def enqueueMessage_def)

lemma set_tail_end:
  assumes "cursor input p []" and "si_inv (get_server_info w)"
  shows "set_tail again input p w =
    (Inr (), communication_over (w\<lparr>net := net w @ propagation input (get_server_info w)\<rparr>))"
  using assms by (simp add: set_tail_def propagate_ok NUL_def)

section \<open>One request\<close>

lemma command_names [simp]:
  "to_upper ''ECHO'' = ''ECHO''" "to_upper ''PING'' = ''PING''" "to_upper ''SET'' = ''SET''"
  "to_upper ''GET'' = ''GET''" "to_upper ''KEYS'' = ''KEYS''" "to_upper ''PSYNC'' = ''PSYNC''"
  "to_upper ''REPLCONF'' = ''REPLCONF''"
  by (simp_all add: to_upper_def toupper_def)

lemma parse_request:
  assumes "length (request_bytes q) < 2 ^ 31" and "request_args q = command # args"
  shows "\<exists>p. parseRESPCommand (Suc d) env fd (request_bytes q) 0 w =
      dispatch (parseRESPCommand d env fd (request_bytes q)) env fd (request_bytes q)
        (to_upper command) (int (Suc (length args))) p w \<and>
    cursor (request_bytes q) p (concat (map create_string_reponse args))"
  using parse_command [of "request_bytes q" 0 command args "[]" d env fd w] assms
  by (simp add: request_bytes_def)

text \<open>The view of a world the abstract server is about.\<close>

definition world_view :: "world \<Rightarrow> store \<times> clock" where
  "world_view w = (store_of (db_handler w), clk w)"

lemma world_view_communicating [simp]: "world_view (w\<lparr>is_communicating := b\<rparr>) = world_view w"
  by (simp add: world_view_def)

lemma serve_get:
  assumes "cursor input p (create_string_reponse k)"
    and "spec_serve (Get k) (store_of (db_handler w)) (clk w) = (r, m, c)"
  shows "\<exists>w'. parseGETCommand input p w = (Inr (), w') \<and> replies w' = replies w @ [r] \<and>
    world_view w' = (m, c) \<and> get_server_info w' = get_server_info w"
proof -
  from bulk1_cursor [OF assms(1)] obtain p' where 1: "parseBulkString input p = Inr (k, p')"
    by blast
  show ?thesis
    using assms(2) db.look_erase
    by (auto simp: 1 parseGETCommand_def db_get_def Let_def get_current_time_milli_def
        reply_and_finish_def enqueueMessage_def communication_over_def value_reply_def
        world_view_def store_of_def get_server_info_def delete_conv'
        split: option.splits if_splits)
qed

lemma serve_request:
  assumes "request_ok q (clk w)" and "db_inv (db_handler w)"
    and "spec_serve q (store_of (db_handler w)) (clk w) = (r, m, c)"
  shows "\<exists>w'. parseRESPCommand (Suc d) env fd (request_bytes q) 0 w = (Inr (), w') \<and>
    replies w' = replies w @ [r] \<and> world_view w' = (m, c) \<and>
    get_server_info w' = get_server_info w"
proof -
  have len: "length (request_bytes q) < 2 ^ 31"
    using assms(1) by (cases q) simp_all
  have si: "si_inv (get_server_info u)" if "get_server_info u = get_server_info w" for u
    using assms(2) that by (simp add: db_inv_def get_server_info_def)
  note outcome = reply_and_finish_def enqueueMessage_def communication_over_def world_view_def
    get_server_info_def
  show ?thesis
  proof (cases q)
    case Ping
    from parse_request [OF len, of "''PING''" "[]" d env fd w] Ping assms(3) show ?thesis
      by (auto simp: dispatch_def parsePINGCommand_def outcome)
  next
    case (Echo s)
    from parse_request [OF len, of "''ECHO''" "[s]" d env fd w] Echo obtain p where
      p: "parseRESPCommand (Suc d) env fd (request_bytes q) 0 w =
            parseECHOCommand (request_bytes q) p w"
         "cursor (request_bytes q) p (create_string_reponse s)"
      by (auto simp: dispatch_def)
    from bulk1_cursor [OF p(2)] assms(3) Echo show ?thesis
      unfolding p(1) by (auto simp: parseECHOCommand_def outcome)
  next
    case (Get k)
    from parse_request [OF len, of "''GET''" "[k]" d env fd w] Get obtain p where
      p: "parseRESPCommand (Suc d) env fd (request_bytes q) 0 w =
            parseGETCommand (request_bytes q) p w"
         "cursor (request_bytes q) p (create_string_reponse k)"
      by (auto simp: dispatch_def)
    from serve_get [OF p(2)] assms(3) Get show ?thesis
      unfolding p(1) by simp
  next
    case (Set k v)
    from parse_request [OF len, of "''SET''" "[k, v]" d env fd w] Set obtain p where
      p: "parseRESPCommand (Suc d) env fd (request_bytes q) 0 w =
            parseSETCommand (parseRESPCommand d env fd (request_bytes q)) (request_bytes q) p 3 w"
         "cursor (request_bytes q) p (create_string_reponse k @ create_string_reponse v @ [])"
      by (auto simp: dispatch_def)
    from set_cursor [OF p(2)] obtain p' where
      "parseSETCommand (parseRESPCommand d env fd (request_bytes q)) (request_bytes q) p 3 w =
         set_tail (parseRESPCommand d env fd (request_bytes q)) (request_bytes q) p' (stored k v 0 w)"
      "cursor (request_bytes q) p' []" by blast
    with set_tail_end [OF this(2) si] assms(3) Set show ?thesis
      unfolding p(1) by (simp add: stored_def outcome)
  next
    case (Set_Px k v ms)
    from parse_request [OF len, of "''SET''" "[k, v, ''PX'', to_string ms]" d env fd w] Set_Px
    obtain p where
      p: "parseRESPCommand (Suc d) env fd (request_bytes q) 0 w =
            parseSETCommand (parseRESPCommand d env fd (request_bytes q)) (request_bytes q) p 5 w"
         "cursor (request_bytes q) p (create_string_reponse k @ create_string_reponse v @
            create_string_reponse ''PX'' @ create_string_reponse (to_string ms) @ [])"
      by (auto simp: dispatch_def)
    let ?u = "stored k v (readings (clk w) (reads (clk w)) + ms)
      (w\<lparr>clk := snd (get_current_time_milli (clk w))\<rparr>)"
    from set_px_cursor [OF p(2), of w] assms(1) Set_Px obtain p' where
      "parseSETCommand (parseRESPCommand d env fd (request_bytes q)) (request_bytes q) p 5 w =
         set_tail (parseRESPCommand d env fd (request_bytes q)) (request_bytes q) p' ?u"
      "cursor (request_bytes q) p' []" by auto
    with set_tail_end [OF this(2) si, of ?u] assms(3) Set_Px show ?thesis
      unfolding p(1) by (simp add: stored_def outcome get_current_time_milli_def)
  qed
qed

lemma serve_input_request:
  assumes "request_ok q (clk w)" and "db_inv (db_handler w)"
    and "spec_serve q (store_of (db_handler w)) (clk w) = (r, m, c)"
  shows "\<exists>w'. serve_input (Suc d) env fd (request_bytes q) w = (Inr (), w') \<and>
    replies w' = replies w @ [r] \<and> world_view w' = (m, c) \<and> db_inv (db_handler w') \<and>
    \<not> is_communicating w'"
proof -
  let ?w = "w\<lparr>is_communicating := True\<rparr>"
  from serve_request [of q ?w r m c d env fd] assms obtain w' where
    w': "parseRESPCommand (Suc d) env fd (request_bytes q) 0 ?w = (Inr (), w')"
       "replies w' = replies w @ [r]" "world_view w' = (m, c)" by auto
  with dispatcher.h_inv [OF w'(1)] dispatcher.h_finishes [OF w'(1)] assms(2) show ?thesis
    by (simp add: serve_input_def)
qed

section \<open>Sessions\<close>

fun spec_serve_all :: "request list \<Rightarrow> store \<Rightarrow> clock \<Rightarrow> string list \<times> store \<times> clock" where
  "spec_serve_all [] m c = ([], m, c)"
| "spec_serve_all (q # qs) m c =
     (let (r, m, c) = spec_serve q m c; (rs, m, c) = spec_serve_all qs m c in (r # rs, m, c))"

fun session_ok :: "request list \<Rightarrow> store \<Rightarrow> clock \<Rightarrow> bool" where
  "session_ok [] m c = True"
| "session_ok (q # qs) m c =
     (request_ok q c \<and> (let (r, m, c) = spec_serve q m c in session_ok qs m c))"

lemma serve_all_session:
  "session_ok qs (store_of (db_handler w)) (clk w) \<Longrightarrow> db_inv (db_handler w) \<Longrightarrow>
   spec_serve_all qs (store_of (db_handler w)) (clk w) = (rs, m, c) \<Longrightarrow>
   \<exists>w'. serve_all (Suc d) env fd (map request_bytes qs) w = (Inr (), w') \<and>
     replies w' = replies w @ rs \<and> world_view w' = (m, c)"
proof (induction qs arbitrary: w rs)
  case Nil
  then show ?case by (simp add: world_view_def)
next
  case (Cons q qs)
  obtain r m1 c1 where 1: "spec_serve q (store_of (db_handler w)) (clk w) = (r, m1, c1)"
    by (rule prod_cases3)
  obtain rs1 m2 c2 where 2: "spec_serve_all qs m1 c1 = (rs1, m2, c2)"
    by (rule prod_cases3)
  from serve_input_request [OF _ Cons.prems(2) 1, of d env fd] Cons.prems(1) obtain w1 where
    3: "serve_input (Suc d) env fd (request_bytes q) w = (Inr (), w1)"
       "replies w1 = replies w @ [r]" "world_view w1 = (m1, c1)" "db_inv (db_handler w1)"
    by auto
  from Cons.IH [of w1 rs1] 2 3 Cons.prems(1,3) 1 show ?case
    by (auto simp: world_view_def)
qed

text \<open>C1: The byte-level server implements the abstract one: a request sent as a RESP array is answered
  with exactly the abstract server's reply, the store and the clock move as it says, the store stays
  well formed and the connection's thread is told that the communication is over.\<close>

theorem serve_refines_spec:
  assumes "request_ok q (clk w)" and "db_inv (db_handler w)"
    and "spec_serve q (store_of (db_handler w)) (clk w) = (r, m, c)"
  shows "\<exists>w'. serve_input (Suc d) env fd (request_bytes q) w = (Inr (), w') \<and>
    replies w' = replies w @ [r] \<and> world_view w' = (m, c) \<and> db_inv (db_handler w') \<and>
    \<not> is_communicating w'"
  by (rule serve_input_request [OF assms])

theorem serve_refines_spec_witness:
  "\<exists>w'. serve_input 1 plain_env 7 (request_bytes Ping) empty_world = (Inr (), w') \<and>
     replies w' = [PING_RESPONSE]"
  using serve_refines_spec [of Ping empty_world PING_RESPONSE Map.empty _ 0 plain_env 7]
  by (auto simp: request_bytes_def command_bytes_def create_array_reponse_eq
      create_string_reponse_def to_string_def nat_digits.simps)

lemma short_requests:
  "length (request_bytes (Set ''k'' ''v'')) = 27" "length (request_bytes (Get ''k'')) = 20"
  "length (request_bytes (Set_Px ''k'' ''v'' 5)) = 42"
  by code_simp+

text \<open>A value stored with \<open>PX\<close> is returned by a later \<open>GET\<close> exactly while the clock is before the
  time of the store plus the given milliseconds; from then on the answer is the null reply.\<close>

lemma set_px_then_get:
  assumes "request_ok (Set_Px k v ms) (clk w)" and "length (request_bytes (Get k)) < 2 ^ 31"
    and "db_inv (db_handler w)"
  defines "t0 \<equiv> readings (clk w) (reads (clk w))"
    and "t1 \<equiv> readings (clk w) (Suc (reads (clk w)))"
  assumes "t0 + ms \<noteq> 0"
  shows "\<exists>w'. serve_all (Suc d) env fd (map request_bytes [Set_Px k v ms, Get k]) w = (Inr (), w') \<and>
    replies w' = replies w @
      [OK_RESPONSE, if t1 < t0 + ms then value_reply v else NULL_RESPONSE]"
proof -
  have ok: "session_ok [Set_Px k v ms, Get k] (store_of (db_handler w)) (clk w)"
    using assms(1,2) by simp
  obtain rs m c where spec:
    "spec_serve_all [Set_Px k v ms, Get k] (store_of (db_handler w)) (clk w) = (rs, m, c)"
    by (rule prod_cases3)
  then have "rs = [OK_RESPONSE, if t1 < t0 + ms then value_reply v else NULL_RESPONSE]"
    using assms(6) by (auto simp: t0_def t1_def split: if_splits)
  with serve_all_session [OF ok assms(3) spec] show ?thesis by blast
qed

section \<open>Pipelined stores\<close>

definition set_bytes :: "(string \<times> string) list \<Rightarrow> string" where
  "set_bytes kvs = concat (map (\<lambda>(k, v). request_bytes (Set k v)) kvs)"

definition store_pairs :: "(string \<times> string) list \<Rightarrow> DatabaseHandler \<Rightarrow> DatabaseHandler" where
  "store_pairs kvs db = fold (\<lambda>(k, v). db_set k v 0) kvs db"

lemma store_pairs_simps [simp]:
  "store_pairs [] db = db"
  "store_pairs ((k, v) # kvs) db = store_pairs kvs (db_set k v 0 db)"
  by (simp_all add: store_pairs_def)

lemma server_info_store_pairs [simp]: "server_info (store_pairs kvs db) = server_info db"
  by (induction kvs arbitrary: db) auto

lemma store_of_store_pairs:
  "store_of (store_pairs kvs db) =
     store_of db ++ map_of (rev (map (\<lambda>(k, v). (k, \<lparr>db_value = v, expiry_time = 0\<rparr>)) kvs))"
  by (induction kvs arbitrary: db) auto

text \<open>The world after a pipeline: every command stored and acknowledged, and the whole buffer sent to
  every slave once per command.\<close>

definition after_pipeline :: "string \<Rightarrow> (string \<times> string) list \<Rightarrow> world \<Rightarrow> world" where
  "after_pipeline input kvs w =
     w\<lparr>db_handler := store_pairs kvs (db_handler w),
       replies := replies w @ replicate (length kvs) OK_RESPONSE,
       net := net w @ concat (replicate (length kvs) (propagation input (get_server_info w))),
       is_communicating := False\<rparr>"

text \<open>Behind the last command there may be more, as long as it does not begin another array.\<close>

lemma parse_pipeline_behind:
  "cursor input pos (set_bytes kvs @ behind) \<Longrightarrow> \<forall>cs. behind \<noteq> CHR ''*'' # cs \<Longrightarrow> kvs \<noteq> [] \<Longrightarrow>
   length kvs \<le> depth \<Longrightarrow> si_inv (get_server_info w) \<Longrightarrow>
   parseRESPCommand depth env fd input pos w = (Inr (), after_pipeline input kvs w)"
proof (induction kvs arbitrary: pos depth w)
  case Nil
  then show ?case by simp
next
  case (Cons kv kvs)
  obtain k v where kv: "kv = (k, v)" by fastforce
  from Cons.prems(4) obtain d where d: "depth = Suc d" "length kvs \<le> d"
    by (cases depth) auto
  from Cons.prems(1) have "cursor input pos (command_bytes [''SET'', k, v] @ set_bytes kvs @ behind)"
    by (simp add: set_bytes_def kv request_bytes_def)
  from parse_command [OF this, of d env fd w] obtain p where
    p: "parseRESPCommand depth env fd input pos w =
          parseSETCommand (parseRESPCommand d env fd input) input p 3 w"
       "cursor input p (create_string_reponse k @ create_string_reponse v @ set_bytes kvs @ behind)"
    by (auto simp: d dispatch_def)
  from set_cursor [OF p(2)] obtain p' where
    p': "parseSETCommand (parseRESPCommand d env fd input) input p 3 w =
           set_tail (parseRESPCommand d env fd input) input p' (stored k v 0 w)"
        "cursor input p' (set_bytes kvs @ behind)" by blast
  have si: "si_inv (get_server_info (stored k v 0 w))"
    using Cons.prems(5) by simp
  show ?case
  proof (cases kvs)
    case Nil
    then have rest: "cursor input p' behind"
      using p'(2) by (simp add: set_bytes_def)
    have "set_tail (parseRESPCommand d env fd input) input p' (stored k v 0 w) =
        then_do (propagate input (stored k v 0 w)) (\<lambda>w. (Inr (), communication_over w))"
    proof (cases behind)
      case Nil
      with rest show ?thesis
        by (simp add: set_tail_def NUL_def)
    next
      case (Cons c cs)
      with rest have "char_at input p' = Inr c"
        using char_at_cursor by simp
      with Cons Cons.prems(2) show ?thesis
        by (simp add: set_tail_def)
    qed
    with si show ?thesis
      by (simp add: p(1) p'(1) Nil kv propagate_ok after_pipeline_def stored_def enqueueMessage_def
          communication_over_def get_server_info_def)
  next
    case (Cons kv' kvs')
    then have "\<exists>cs. set_bytes kvs = CHR ''*'' # cs"
      by (cases kv') (auto simp: set_bytes_def request_bytes_def command_bytes_def
          create_array_reponse_eq)
    then have c: "char_at input p' = Inr (CHR ''*'')"
      using p'(2) by auto
    have "parseRESPCommand d env fd input p' (stored k v 0 w) =
        (Inr (), after_pipeline input kvs (stored k v 0 w))"
      using Cons.IH [OF p'(2) Cons.prems(2) _ d(2) si] Cons by simp
    then show ?thesis
      using c Cons.prems(5)
      by (simp add: p(1) p'(1) set_tail_def kv propagate_ok after_pipeline_def stored_def
          enqueueMessage_def communication_over_def get_server_info_def
          replicate_append_same [symmetric])
  qed
qed

lemma parse_pipeline:
  "cursor input pos (set_bytes kvs) \<Longrightarrow> kvs \<noteq> [] \<Longrightarrow> length kvs \<le> depth \<Longrightarrow>
   si_inv (get_server_info w) \<Longrightarrow>
   parseRESPCommand depth env fd input pos w = (Inr (), after_pipeline input kvs w)"
  using parse_pipeline_behind [of input pos kvs "[]"] by simp

end
