(* ===== verification/Replication.thy ===== *)
theory Replication
  imports Server_Spec
begin

text \<open>
  Replication end to end: a replica's handshake (\<^verbatim>\<open>src/server_info.cpp\<close>) against the master's
  handlers, the registration by \<open>PSYNC\<close>, the propagation of stores and the replica that carries them
  out (\<^verbatim>\<open>src/redis_parser.cpp\<close>).
\<close>

section \<open>Pipelines as one buffer\<close>

lemma serve_pipeline:
  assumes "kvs \<noteq> []" and "length kvs \<le> depth" and "length (set_bytes kvs) < 2 ^ 31"
    and "db_inv (db_handler w)"
  shows "serve_input depth env fd (set_bytes kvs) w =
    (Inr (), after_pipeline (set_bytes kvs) kvs w)"
proof -
  have "si_inv (get_server_info (w\<lparr>is_communicating := True\<rparr>))"
    using assms(4) by (simp add: db_inv_def get_server_info_def)
  from parse_pipeline [OF _ assms(1,2) this, of "set_bytes kvs" 0 env fd] assms(3) show ?thesis
    by (simp add: serve_input_def after_pipeline_def get_server_info_def)
qed

lemma db_inv_after_pipeline:
  "db_inv (db_handler w) \<Longrightarrow> db_inv (db_handler (after_pipeline input kvs w))"
proof -
  have "db_inv db \<Longrightarrow> db_inv (store_pairs kvs db)" for db
    by (induction kvs arbitrary: db) auto
  then show "db_inv (db_handler w) \<Longrightarrow> ?thesis"
    by (simp add: after_pipeline_def)
qed

definition plain_values :: "(string \<times> string) list \<Rightarrow> (string \<times> DBValue) list" where
  "plain_values kvs = map (\<lambda>(k, v). (k, \<lparr>db_value = v, expiry_time = 0\<rparr>)) kvs"

lemma store_after_pipeline:
  "store_of (db_handler (after_pipeline input kvs w)) =
     store_of (db_handler w) ++ map_of (rev (plain_values kvs))"
  by (simp add: after_pipeline_def store_of_store_pairs plain_values_def)

section \<open>What a slave receives\<close>

fun received_by :: "int \<Rightarrow> net_event list \<Rightarrow> string list" where
  "received_by fd [] = []"
| "received_by fd (Send f s # es) = (if f = fd then s # received_by fd es else received_by fd es)"
| "received_by fd (Connect f ip port # es) = received_by fd es"

lemma received_by_append [simp]:
  "received_by fd (es @ es') = received_by fd es @ received_by fd es'"
  by (induction fd es rule: received_by.induct) auto

lemma set_received_propagation:
  "role si = ''master'' \<Longrightarrow> fd \<in> set (connected_slaves_fd si) \<Longrightarrow>
   set (received_by fd (propagation input si)) = {input}"
proof -
  have "set (received_by fd (map (\<lambda>f. Send f input) fds)) = (if fd \<in> set fds then {input} else {})"
    for fds by (induction fds) auto
  then show "role si = ''master'' \<Longrightarrow> fd \<in> set (connected_slaves_fd si) \<Longrightarrow> ?thesis"
    by (simp add: propagation_def)
qed

lemma set_received_replicate:
  "set (received_by fd (concat (replicate (Suc n) es))) = set (received_by fd es)"
  by (induction n) auto

text \<open>Carrying out the same pipeline again changes nothing in the store.\<close>

lemma serve_repeated_pipeline:
  "set inputs = {set_bytes kvs} \<Longrightarrow> kvs \<noteq> [] \<Longrightarrow> length kvs \<le> depth \<Longrightarrow>
   length (set_bytes kvs) < 2 ^ 31 \<Longrightarrow> db_inv (db_handler w) \<Longrightarrow>
   \<exists>w'. serve_all depth env fd inputs w = (Inr (), w') \<and>
     store_of (db_handler w') = store_of (db_handler w) ++ map_of (rev (plain_values kvs))"
proof (induction inputs arbitrary: w)
  case (Cons input inputs)
  let ?w = "after_pipeline input kvs w"
  have input: "input = set_bytes kvs"
    using Cons.prems(1) by auto
  then have first: "serve_input depth env fd input w = (Inr (), ?w)"
    using serve_pipeline Cons.prems by simp
  show ?case
  proof (cases "inputs = []")
    case True
    then show ?thesis
      using first store_after_pipeline by simp
  next
    case False
    then have "set inputs = {set_bytes kvs}"
      using Cons.prems(1) by (metis empty_iff insert_subset set_empty set_subset_Cons
          subset_singletonD)
    from Cons.IH [OF this Cons.prems(2-4) db_inv_after_pipeline [OF Cons.prems(5)], of input]
    obtain w' where "serve_all depth env fd inputs ?w = (Inr (), w')"
      "store_of (db_handler w') = store_of (db_handler ?w) ++ map_of (rev (plain_values kvs))"
      by blast
    then show ?thesis
      using first by (simp add: store_after_pipeline map_add_subsumed1 flip: map_add_assoc)
  qed
qed simp

section \<open>PSYNC and the handshake\<close>

definition register_slave :: "int \<Rightarrow> ServerInfo \<Rightarrow> ServerInfo" where
  "register_slave fd si =
     add_connected_slave fd (update_connected_slaves (connected_slaves si + 1) si)"

definition after_psync :: "environment \<Rightarrow> int \<Rightarrow> world \<Rightarrow> world" where
  "after_psync env fd w =
     (set_server_info (register_slave fd (get_server_info w)) w)
       \<lparr>replies := replies w @
          [''+FULLRESYNC '' @ master_replid (get_server_info w) @ '' 0'' @ CRLF, rdb_reply env],
        is_communicating := False\<rparr>"

lemma master_replid_register [simp]: "master_replid (register_slave fd si) = master_replid si"
  by (simp add: register_slave_def add_connected_slave_def update_connected_slaves_def)

lemma psync_master:
  assumes "role (get_server_info w) = ''master''"
    and "int_ok (connected_slaves (get_server_info w) + 1)"
  shows "parsePSYNCCommand env fd w = (Inr (), after_psync env fd w)"
  using assms
  by (simp add: parsePSYNCCommand_def after_psync_def Let_def reply_and_finish_def
      enqueueMessage_def communication_over_def set_server_info_def flip: register_slave_def)

lemma psync_replies:
  assumes "role (get_server_info w) = ''master'' \<longrightarrow> int_ok (connected_slaves (get_server_info w) + 1)"
  shows "\<exists>w'. parsePSYNCCommand env fd w = (Inr (), w') \<and>
    replies w' = replies w @
      [''+FULLRESYNC '' @ master_replid (get_server_info w) @ '' 0'' @ CRLF, rdb_reply env]"
proof (cases "role (get_server_info w) = ''master''")
  case True
  with assms show ?thesis
    by (simp add: psync_master after_psync_def)
next
  case False
  then show ?thesis
    by (simp add: parsePSYNCCommand_def Let_def reply_and_finish_def enqueueMessage_def
        communication_over_def set_server_info_def)
qed

text \<open>Messages whose handler looks at nothing behind the command name.\<close>

lemma serve_bare_command:
  assumes "cursor input 0 (CHR ''*'' # to_string n @ CRLF @ create_string_reponse command @ rest)"
    and "int_ok n"
  shows "\<exists>p. serve_input (Suc d) env fd input w =
    dispatch (parseRESPCommand d env fd input) env fd input (to_upper command) n p
      (w\<lparr>is_communicating := True\<rparr>)"
  using parse_header [OF assms, of d env fd "w\<lparr>is_communicating := True\<rparr>"]
  by (auto simp: serve_input_def)

lemma handshake_ping_cursor:
  "cursor handshake_ping 0 (CHR ''*'' # to_string 1 @ CRLF @ create_string_reponse ''PING'' @ [])"
  by (simp add: handshake_ping_def create_string_reponse_def print_number)

lemma handshake_port_cursor:
  assumes "int_ok port"
  shows "\<exists>rest. cursor (handshake_port port) 0
    (CHR ''*'' # to_string 3 @ CRLF @ create_string_reponse ''REPLCONF'' @ rest)"
  using length_to_string [OF assms]
  by (simp add: handshake_port_def create_string_reponse_def to_string_def [of 3]
      to_string_def [of 8] nat_digits.simps digit_char_literals)

lemma handshake_capa_cursor:
  "\<exists>rest. cursor handshake_capa 0
    (CHR ''*'' # to_string 3 @ CRLF @ create_string_reponse ''REPLCONF'' @ rest)"
  by (simp add: handshake_capa_def create_string_reponse_def print_number)

lemma handshake_psync_cursor:
  "\<exists>rest. cursor handshake_psync 0
    (CHR ''*'' # to_string 3 @ CRLF @ create_string_reponse ''PSYNC'' @ rest)"
  by (simp add: handshake_psync_def create_string_reponse_def print_number)

lemma small_counts: "int_ok 1" "int_ok 3"
  by (simp_all add: int_ok_def)

lemma serve_handshake_message:
  "serve_input (Suc d) env fd handshake_ping w =
     (Inr (), w\<lparr>replies := replies w @ [PING_RESPONSE], is_communicating := False\<rparr>)"
  "int_ok port \<Longrightarrow> serve_input (Suc d) env fd (handshake_port port) w =
     (Inr (), w\<lparr>replies := replies w @ [OK_RESPONSE], is_communicating := False\<rparr>)"
  "serve_input (Suc d) env fd handshake_capa w =
     (Inr (), w\<lparr>replies := replies w @ [OK_RESPONSE], is_communicating := False\<rparr>)"
  "role (get_server_info w) = ''master'' \<Longrightarrow> int_ok (connected_slaves (get_server_info w) + 1) \<Longrightarrow>
   serve_input (Suc d) env fd handshake_psync w = (Inr (), after_psync env fd w)"
proof -
  note outcome = reply_and_finish_def enqueueMessage_def communication_over_def
  show "serve_input (Suc d) env fd handshake_ping w =
     (Inr (), w\<lparr>replies := replies w @ [PING_RESPONSE], is_communicating := False\<rparr>)"
    using serve_bare_command [OF handshake_ping_cursor small_counts(1), of d env fd w]
    by (auto simp: dispatch_def parsePINGCommand_def outcome)
  show "serve_input (Suc d) env fd (handshake_port port) w =
     (Inr (), w\<lparr>replies := replies w @ [OK_RESPONSE], is_communicating := False\<rparr>)"
    if "int_ok port"
    using handshake_port_cursor [OF that] serve_bare_command [OF _ small_counts(2)]
    by (fastforce simp: dispatch_def parseREPLCONFCommand_def outcome)
  show "serve_input (Suc d) env fd handshake_capa w =
     (Inr (), w\<lparr>replies := replies w @ [OK_RESPONSE], is_communicating := False\<rparr>)"
    using handshake_capa_cursor serve_bare_command [OF _ small_counts(2)]
    by (fastforce simp: dispatch_def parseREPLCONFCommand_def outcome)
  show "serve_input (Suc d) env fd handshake_psync w = (Inr (), after_psync env fd w)"
    if "role (get_server_info w) = ''master''" "int_ok (connected_slaves (get_server_info w) + 1)"
  proof -
    let ?w = "w\<lparr>is_communicating := True\<rparr>"
    have same: "get_server_info ?w = get_server_info w"
      by (simp add: get_server_info_def)
    have "parsePSYNCCommand env fd ?w = (Inr (), after_psync env fd w)"
      using psync_master [of ?w env fd] that
      by (simp add: same) (simp add: after_psync_def same set_server_info_def)
    then show ?thesis
      using handshake_psync_cursor serve_bare_command [OF _ small_counts(2)]
      by (fastforce simp: dispatch_def)
  qed
qed

text \<open>A master with one registered replica.\<close>

definition master_world :: world where
  "master_world = set_server_info (register_slave 9 plain_server_info) empty_world"

section \<open>Properties\<close>

text \<open>One buffer per command: every slave is sent each command once.\<close>

lemma length_set_bytes_member: "kv \<in> set kvs \<Longrightarrow> length (set_bytes [kv]) \<le> length (set_bytes kvs)"
  by (induction kvs) (auto simp: set_bytes_def)

lemma serve_single_sets:
  "list_all (\<lambda>kv. length (set_bytes [kv]) < 2 ^ 31) kvs \<Longrightarrow> db_inv (db_handler w) \<Longrightarrow>
   \<exists>q. serve_all (Suc d) env fd (map (\<lambda>kv. set_bytes [kv]) kvs) w = (Inr (), q) \<and>
     db_handler q = store_pairs kvs (db_handler w) \<and> clk q = clk w \<and>
     replies q = replies w @ replicate (length kvs) OK_RESPONSE \<and>
     net q = net w @ concat (map (\<lambda>kv. propagation (set_bytes [kv]) (get_server_info w)) kvs)"
proof (induction kvs arbitrary: w)
  case Nil
  then show ?case by simp
next
  case (Cons kv kvs)
  let ?w = "after_pipeline (set_bytes [kv]) [kv] w"
  have one: "serve_input (Suc d) env fd (set_bytes [kv]) w = (Inr (), ?w)"
    using Cons.prems by (intro serve_pipeline) simp_all
  have "get_server_info ?w = get_server_info w"
    by (simp add: after_pipeline_def get_server_info_def)
  moreover have "db_inv (db_handler ?w)"
    by (rule db_inv_after_pipeline) (rule Cons.prems(2))
  ultimately show ?case
    using Cons.IH [of ?w] Cons.prems(1) one
    by (cases kv) (auto simp: after_pipeline_def)
qed

text \<open>Pipelined stores are all carried out: one buffer holding any number of \<open>SET\<close> commands, within the
  depth of the stack, is answered with one acknowledgement per command, and the store holds the last
  value given to each key. The buffer is sent to every slave as a whole, once per command it holds.\<close>

lemma pipelined_sets_all_stored:
  assumes "kvs \<noteq> []" and "length kvs \<le> depth" and "length (set_bytes kvs) < 2 ^ 31"
    and "db_inv (db_handler w)"
  shows "\<exists>w'. serve_input depth env fd (set_bytes kvs) w = (Inr (), w') \<and>
    replies w' = replies w @ replicate (length kvs) OK_RESPONSE \<and>
    store_of (db_handler w') = store_of (db_handler w) ++ map_of (rev (plain_values kvs)) \<and>
    net w' = net w @
      concat (replicate (length kvs) (propagation (set_bytes kvs) (get_server_info w)))"
proof -
  have "serve_input depth env fd (set_bytes kvs) w = (Inr (), after_pipeline (set_bytes kvs) kvs w)"
    by (rule serve_pipeline [OF assms])
  moreover have "replies (after_pipeline (set_bytes kvs) kvs w) =
      replies w @ replicate (length kvs) OK_RESPONSE"
    "net (after_pipeline (set_bytes kvs) kvs w) = net w @
      concat (replicate (length kvs) (propagation (set_bytes kvs) (get_server_info w)))"
    by (simp_all add: after_pipeline_def)
  ultimately show ?thesis
    using store_after_pipeline by blast
qed

text \<open>C23: Pipelining is equivalent to one request per buffer, as far as the client and the store can tell:
  a buffer with any number of \<open>SET\<close> commands, within the depth of the stack, leaves the same store and clock
  and gives the same replies as the commands sent one by one. Only the slaves see a difference: they are
  sent the whole buffer once per command it holds, instead of each command once.\<close>

theorem pipelining_equals_single_requests:
  assumes "kvs \<noteq> []" and "length kvs \<le> depth" and "length (set_bytes kvs) < 2 ^ 31"
    and "db_inv (db_handler w)"
  shows "\<exists>p q. serve_input depth env fd (set_bytes kvs) w = (Inr (), p) \<and>
    serve_all depth env fd (map (\<lambda>kv. set_bytes [kv]) kvs) w = (Inr (), q) \<and>
    db_handler p = db_handler q \<and> clk p = clk q \<and> replies p = replies q \<and>
    replies p = replies w @ replicate (length kvs) OK_RESPONSE \<and>
    store_of (db_handler p) = store_of (db_handler w) ++ map_of (rev (plain_values kvs)) \<and>
    net p = net w @
      concat (replicate (length kvs) (propagation (set_bytes kvs) (get_server_info w))) \<and>
    net q = net w @ concat (map (\<lambda>kv. propagation (set_bytes [kv]) (get_server_info w)) kvs)"
proof -
  obtain d where d: "depth = Suc d"
    using assms(1,2) by (cases depth) auto
  have "list_all (\<lambda>kv. length (set_bytes [kv]) < 2 ^ 31) kvs"
    using length_set_bytes_member [of _ kvs] assms(3) by (fastforce simp: list_all_iff)
  from serve_single_sets [OF this assms(4), of d env fd] obtain q where
    "serve_all depth env fd (map (\<lambda>kv. set_bytes [kv]) kvs) w = (Inr (), q)"
    "db_handler q = store_pairs kvs (db_handler w)" "clk q = clk w"
    "replies q = replies w @ replicate (length kvs) OK_RESPONSE"
    "net q = net w @ concat (map (\<lambda>kv. propagation (set_bytes [kv]) (get_server_info w)) kvs)"
    using d by blast
  moreover have "serve_input depth env fd (set_bytes kvs) w =
      (Inr (), after_pipeline (set_bytes kvs) kvs w)"
    by (rule serve_pipeline [OF assms])
  ultimately show ?thesis
    using store_after_pipeline [of "set_bytes kvs" kvs w]
    by (intro exI [of _ "after_pipeline (set_bytes kvs) kvs w"] exI [of _ q])
      (simp add: after_pipeline_def)
qed

theorem pipelining_equals_single_requests_witness:
  "\<exists>p q. serve_input 2 plain_env 7 (set_bytes [(''k'', ''v''), (''k'', ''w'')]) master_world =
       (Inr (), p) \<and>
     serve_all 2 plain_env 7 [set_bytes [(''k'', ''v'')], set_bytes [(''k'', ''w'')]] master_world =
       (Inr (), q) \<and>
     db_handler p = db_handler q \<and> replies p = replies q \<and> net p \<noteq> net q"
proof -
  have len: "length (set_bytes [(''k'', ''v''), (''k'', ''w'')]) = 54"
    "length (set_bytes [(''k'', ''v'')]) = 27" "length (set_bytes [(''k'', ''w'')]) = 27"
    by code_simp+
  have inv: "db_inv (db_handler master_world)"
    by (simp add: master_world_def set_server_info_def db_inv_def empty_world_def empty_db_def
        new_DatabaseHandler_def register_slave_def si_inv_def add_connected_slave_def
        update_connected_slaves_def plain_server_info_def)
  have slaves: "propagation input (get_server_info master_world) = [Send 9 input]" for input
    by (simp add: propagation_def master_world_def set_server_info_def get_server_info_def
        register_slave_def add_connected_slave_def update_connected_slaves_def plain_server_info_def)
  from pipelining_equals_single_requests [of "[(''k'', ''v''), (''k'', ''w'')]" 2 master_world plain_env 7]
    len(1) inv
  obtain p q where "serve_input 2 plain_env 7 (set_bytes [(''k'', ''v''), (''k'', ''w'')]) master_world =
      (Inr (), p)"
    "serve_all 2 plain_env 7 [set_bytes [(''k'', ''v'')], set_bytes [(''k'', ''w'')]] master_world =
      (Inr (), q)" "db_handler p = db_handler q" "replies p = replies q"
    "net p = net master_world @ [Send 9 (set_bytes [(''k'', ''v''), (''k'', ''w'')]),
       Send 9 (set_bytes [(''k'', ''v''), (''k'', ''w'')])]"
    "net q = net master_world @ [Send 9 (set_bytes [(''k'', ''v'')]), Send 9 (set_bytes [(''k'', ''w'')])]"
    by (auto simp: slaves simp del: serve_all.simps)
  moreover have "set_bytes [(''k'', ''v''), (''k'', ''w'')] \<noteq> set_bytes [(''k'', ''v'')]"
    using len(1,2) by (metis numeral_eq_iff num.distinct(5) num.inject(1,2))
  ultimately show ?thesis by auto
qed

text \<open>A replica follows its master: when both hold the same data and the replica's connection is
  registered, then after a buffer of stores at the master the replica, having carried out what was
  sent to it (one buffer per \<open>send\<close>), holds the master's data again, although it receives the buffer
  once per command.\<close>

lemma replica_follows_pipeline:
  assumes "kvs \<noteq> []" and "length kvs \<le> depth" and "length (set_bytes kvs) < 2 ^ 31"
    and "db_inv (db_handler master)" and "db_inv (db_handler replica)"
    and "role (get_server_info master) = ''master''"
    and "fd \<in> set (connected_slaves_fd (get_server_info master))"
    and "store_of (db_handler replica) = store_of (db_handler master)"
  shows "\<exists>master' replica'.
    serve_input depth env client_fd (set_bytes kvs) master = (Inr (), master') \<and>
    serve_all depth env' link_fd (received_by fd (drop (length (net master)) (net master'))) replica =
      (Inr (), replica') \<and>
    store_of (db_handler replica') = store_of (db_handler master')"
proof -
  let ?input = "set_bytes kvs"
  let ?master = "after_pipeline ?input kvs master"
  obtain n where n: "length kvs = Suc n"
    using assms(1) by (cases kvs) auto
  have "set (received_by fd (drop (length (net master)) (net ?master))) = {?input}"
    using set_received_replicate [of fd n] set_received_propagation [OF assms(6,7)]
    by (simp add: after_pipeline_def n del: replicate_Suc)
  from serve_repeated_pipeline [OF this assms(1-3,5)] obtain replica' where
    "serve_all depth env' link_fd (received_by fd (drop (length (net master)) (net ?master))) replica =
       (Inr (), replica')"
    "store_of (db_handler replica') = store_of (db_handler replica) ++ map_of (rev (plain_values kvs))"
    by blast
  then show ?thesis
    using serve_pipeline [OF assms(1-4)] assms(8) store_after_pipeline by metis
qed

text \<open>The handshake a replica sends is accepted by a master: its four messages are answered with
  \<open>PONG\<close>, two acknowledgements, the full resynchronisation line with the master's id and the RDB file,
  and afterwards the connection is registered, so that the next store is propagated to it as well.\<close>

lemma handshake_registers_replica:
  assumes "send_handshake port si = Inr events" and "role si = ''slave''" and "int_ok port"
    and "role (get_server_info w) = ''master''"
    and "int_ok (connected_slaves (get_server_info w) + 1)"
  shows "\<exists>w'. serve_all (Suc d) env fd (received_by (the (master_fd si)) events) w = (Inr (), w') \<and>
    replies w' = replies w @ [PING_RESPONSE, OK_RESPONSE, OK_RESPONSE,
      ''+FULLRESYNC '' @ master_replid (get_server_info w) @ '' 0'' @ CRLF, rdb_reply env] \<and>
    database (db_handler w') = database (db_handler w) \<and>
    propagation input (get_server_info w') = propagation input (get_server_info w) @ [Send fd input]"
proof -
  have received: "received_by (the (master_fd si)) events =
      [handshake_ping, handshake_port port, handshake_capa, handshake_psync]"
    using assms(1,2) by (auto simp: send_handshake_def split: option.splits)
  let ?u = "w\<lparr>replies := replies w @ [PING_RESPONSE, OK_RESPONSE, OK_RESPONSE],
    is_communicating := False\<rparr>"
  have same: "get_server_info ?u = get_server_info w"
    by (simp add: get_server_info_def)
  have "serve_all (Suc d) env fd (received_by (the (master_fd si)) events) w =
      (Inr (), after_psync env fd ?u)"
    using serve_handshake_message(4) [of ?u d env fd] assms(3-5)
    by (simp add: received serve_handshake_message(1-3) same del: fun_upd_apply)
  moreover have "role (register_slave fd (get_server_info w)) = ''master''"
    "connected_slaves_fd (register_slave fd (get_server_info w)) =
       connected_slaves_fd (get_server_info w) @ [fd]"
    using assms(4) by (simp_all add: register_slave_def add_connected_slave_def
        update_connected_slaves_def)
  ultimately show ?thesis
    using assms(4)
    by (simp add: after_psync_def same propagation_def set_server_info_def)
       (simp add: get_server_info_def)
qed

text \<open>C38: \<open>PSYNC\<close> is answered with the resynchronisation line and one more message, which announces the length of
  what follows correctly; what follows is the file at \<open>RDB_FILE_PATH\<close> and then up to eight bytes of the
  stack, never none, so a replica is always sent more than the file. A master that can count one more
  slave and every server that is no master answer like this.\<close>

theorem psync_reply_is_padded_file:
  assumes "rdb_file env = Some bytes"
    and "role (get_server_info w) = ''master'' \<longrightarrow> int_ok (connected_slaves (get_server_info w) + 1)"
  defines "n \<equiv> 8 * (length bytes div 8 + 1)"
  shows "\<exists>w' contents. parsePSYNCCommand env fd w = (Inr (), w') \<and>
    replies w' = replies w @ [''+FULLRESYNC '' @ master_replid (get_server_info w) @ '' 0'' @ CRLF,
      ''$'' @ to_string (int (length contents)) @ CRLF @ contents] \<and>
    length contents = n \<and> length bytes < n \<and>
    take (length bytes) contents = map char_of_byte bytes \<and>
    drop (length bytes) contents = map (\<lambda>i. char_of_byte (stack_bytes env i)) [length bytes ..< n]"
proof -
  let ?contents = "map char_of_byte (bytes @ map (stack_bytes env) [length bytes ..< n])"
  have n: "length bytes < n"
    unfolding n_def by presburger
  have "read_rdb_file_binary (open_stream bytes (stack_bytes env)) = ?contents"
    using read_rdb_loop_value [of "open_stream bytes (stack_bytes env)" bytes "[]"]
    by (simp add: read_rdb_file_binary_def open_stream_def stream_at_def n_def)
  then have "rdb_reply env = ''$'' @ to_string (int (length ?contents)) @ CRLF @ ?contents"
    using assms(1) by (simp add: rdb_reply_def Let_def)
  moreover from psync_replies [OF assms(2)] obtain w' where "parsePSYNCCommand env fd w = (Inr (), w')"
    "replies w' = replies w @ [''+FULLRESYNC '' @ master_replid (get_server_info w) @ '' 0'' @ CRLF, rdb_reply env]"
    by blast
  moreover have "length ?contents = n"
    using n by simp
  ultimately show ?thesis
    using n by (intro exI [of _ w'] exI [of _ ?contents]) (simp add: comp_def)
qed

text \<open>The 88 bytes of an empty dump are sent as 96.\<close>

theorem psync_reply_is_padded_file_witness:
  "\<exists>w' contents. parsePSYNCCommand (plain_env\<lparr>rdb_file := Some (replicate 88 0x52)\<rparr>) 7 empty_world = (Inr (), w') \<and>
     last (replies w') = ''$'' @ to_string (int (length contents)) @ CRLF @ contents \<and> length contents = 96"
proof -
  have "role (get_server_info empty_world) = ''master'' \<longrightarrow>
      int_ok (connected_slaves (get_server_info empty_world) + 1)"
    by (simp add: int_ok_def get_server_info_def empty_world_def empty_db_def new_DatabaseHandler_def
        plain_server_info_def)
  from psync_reply_is_padded_file [OF _ this, of "plain_env\<lparr>rdb_file := Some (replicate 88 0x52)\<rparr>"
      "replicate 88 0x52" 7] obtain w' contents where
    "parsePSYNCCommand (plain_env\<lparr>rdb_file := Some (replicate 88 0x52)\<rparr>) 7 empty_world = (Inr (), w')"
    "replies w' = replies empty_world @ [''+FULLRESYNC '' @ master_replid (get_server_info empty_world) @ '' 0'' @ CRLF,
       ''$'' @ to_string (int (length contents)) @ CRLF @ contents]"
    "length contents = 96" by auto
  then show ?thesis
    by (intro exI [of _ w'] exI [of _ contents]) (simp only: last_appendR, simp)
qed

end
