(* ===== verification/Rdb_Parser.thy ===== *)
theory Rdb_Parser
  imports Byte_Utils Database_Handler
begin

text \<open>
  The RDB loader of \<^verbatim>\<open>src/read_file.cpp\<close> (class \<open>RedisRDBParser\<close>): header, metadata,
  one database section with its key-value pairs, and the loop over section markers. Every reader
  passes the stream; \<open>readDatabase\<close> also passes the store it fills. Output to the terminal is not
  modelled. Conversions between integer types are those of the code.
\<close>

section \<open>Strings and sizes\<close>

text \<open>\<open>uint8_t x; file.read(&x, 1)\<close> and the wider integers, all into uninitialised locals.\<close>

definition read_uint :: "nat \<Rightarrow> istream \<Rightarrow> 'a::len word \<times> istream" where
  "read_uint n file = (let (bytes, file) = read_fresh n file in (le_word bytes, file))"

definition readIntegerEncodedString :: "u8 \<Rightarrow> istream \<Rightarrow> string \<times> istream" where
  "readIntegerEncodedString encodingType file =
     (if encodingType AND 0xFF = 0xC0 then
        let (v :: u8, file) = read_uint 1 file in (to_string (int (unat v)), file)
      else if encodingType AND 0xFF = 0xC1 then
        let (v :: u16, file) = read_uint 2 file in (to_string (int (unat v)), file)
      else if encodingType AND 0xFF = 0xC2 then
        let (v :: u32, file) = read_uint 4 file in (to_string (int (unat v)), file)
      else ([], file))"

definition readEncodedString :: "u8 \<Rightarrow> istream \<Rightarrow> string \<times> istream" where
  "readEncodedString encodingType file =
     (let t = encodingType XOR 0xC0
      in if t = 0 \<or> t = 1 \<or> t = 2 then readIntegerEncodedString encodingType file
         else ([], file))"

text \<open>The raw string is a buffer of zero bytes that the read fills.\<close>

definition readLengthPrefixedString :: "istream \<Rightarrow> string \<times> istream" where
  "readLengthPrefixedString file =
     (let (lengthByte :: u8, file) = read_uint 1 file
      in if lengthByte AND 0xC0 = 0xC0 then readEncodedString lengthByte file
         else let (bytes, file) = sread (replicate (unat lengthByte) 0) file
              in (map char_of_byte bytes, file))"

definition readSizeEncoded :: "u8 \<Rightarrow> istream \<Rightarrow> u64 \<times> istream" where
  "readSizeEncoded sizeEncoding file =
     (if sizeEncoding AND 0xC0 = 0 then (ucast sizeEncoding, file)
      else if sizeEncoding AND 0xC0 = 0x40 then
        let (nextByte :: u8, file) = read_uint 1 file
        in (push_bit 8 (ucast sizeEncoding) OR ucast nextByte, file)
      else if sizeEncoding AND 0xC0 = 0x80 then
        let (next4Bytes :: u64, file) = read_uint 8 file in (next4Bytes, file)
      else (0, file))"

definition readStringKeyValue :: "istream \<Rightarrow> (string \<times> string) \<times> istream" where
  "readStringKeyValue file =
     (let (key, file) = readLengthPrefixedString file;
          (v, file) = readLengthPrefixedString file
      in ((key, v), file))"

section \<open>Sections of the file\<close>

definition readHeader :: "istream \<Rightarrow> bool \<times> istream" where
  "readHeader file =
     (let (header, file) = read_fresh 9 file
      in (map char_of_byte (take 5 header) = ''REDIS'', file))"

definition readMetaData :: "istream \<Rightarrow> bool \<times> istream" where
  "readMetaData file =
     (let (attribute, file) = readLengthPrefixedString file;
          (v, file) = readLengthPrefixedString file
      in (\<not> (attribute = [] \<or> v = []), file))"

text \<open>
  \<open>nextByte\<close> and \<open>value_type\<close> live through all iterations, so a failed read leaves the previous
  value: \<open>reread\<close> reads one byte over an old one.
\<close>

definition reread :: "u8 \<Rightarrow> istream \<Rightarrow> u8 \<times> istream" where
  "reread old file = (let (bytes, file) = sread [old] file in (le_word bytes, file))"

text \<open>
  One iteration of the entry loop: the pair to store with its expiry time and the value type read,
  or \<open>None\<close> for a value type that is not a string. \<open>time_sec * 1000\<close> is computed in \<open>uint32_t\<close>, and
  the 64-bit time is converted to \<open>long\<close>.
\<close>

definition read_entry ::
  "u8 \<Rightarrow> u8 \<Rightarrow> istream \<Rightarrow> ((string \<times> string) \<times> int) option \<times> u8 \<times> istream" where
  "read_entry nextByte value_type file =
     (if nextByte = 0xFC then
        let (time_millisec :: u64, file) = read_uint 8 file;
            (value_type, file) = reread value_type file
        in if value_type = 0 then
             let (kv, file) = readStringKeyValue file
             in (Some (kv, sint time_millisec), value_type, file)
           else (None, value_type, file)
      else if nextByte = 0xFD then
        let (time_sec :: u32, file) = read_uint 4 file;
            (value_type, file) = reread value_type file
        in if value_type = 0 then
             let (kv, file) = readStringKeyValue file
             in (Some (kv, uint (time_sec * 1000)), value_type, file)
           else (None, value_type, file)
      else
        if nextByte = 0 then
          let (kv, file) = readStringKeyValue file in (Some (kv, 0), nextByte, file)
        else (None, nextByte, file))"

text \<open>The \<open>for\<close> loop over \<open>hash_table_size\<close> entries, with the number of entries still to read.\<close>

fun read_entries ::
  "nat \<Rightarrow> u8 \<Rightarrow> u8 \<Rightarrow> istream \<Rightarrow> DatabaseHandler \<Rightarrow> bool \<times> istream \<times> DatabaseHandler" where
  "read_entries 0 nextByte value_type file db = (True, file, db)"
| "read_entries (Suc n) nextByte value_type file db =
     (let (nextByte, file) = reread nextByte file
      in case read_entry nextByte value_type file of
           (None, value_type, file) \<Rightarrow> (False, file, db)
         | (Some ((key, v), expiry), value_type, file) \<Rightarrow>
             read_entries n nextByte value_type file (db_set key v expiry db))"

definition readDatabase :: "istream \<Rightarrow> DatabaseHandler \<Rightarrow> bool \<times> istream \<times> DatabaseHandler" where
  "readDatabase file db =
     (let (nextByte :: u8, file) = read_uint 1 file;
          (database_index, file) = readSizeEncoded nextByte file;
          (nextByte, file) = reread nextByte file
      in if nextByte = 0xFB then
           let (nextByte, file) = reread nextByte file;
               (size64, file) = readSizeEncoded nextByte file;
               hash_table_size = (ucast size64 :: u8);
               (nextByte, file) = reread nextByte file;
               (expiry64, file) = readSizeEncoded nextByte file;
               (value_type_bytes, file) = uninit 1 file
           in read_entries (unat hash_table_size) nextByte (le_word value_type_bytes) file db
         else (True, file, db))"

section \<open>Every reader advances\<close>

lemma advances_read_uint: "read_uint n file = (w, t) \<Longrightarrow> advances file t"
  by (auto simp: read_uint_def split: prod.splits dest: fresh_reader.rd_advances)

interpretation uint_reader: stream_reader "read_uint n"
  by unfold_locales (rule advances_read_uint)

lemma advances_readIntegerEncodedString:
  "readIntegerEncodedString e file = (s, t) \<Longrightarrow> advances file t"
  by (auto simp: readIntegerEncodedString_def Let_def split: prod.splits if_splits
      dest: advances_read_uint)

lemma advances_readLengthPrefixedString:
  "readLengthPrefixedString file = (s, t) \<Longrightarrow> advances file t"
  by (auto simp: readLengthPrefixedString_def readEncodedString_def Let_def
      split: prod.splits if_splits
      dest!: advances_read_uint advances_readIntegerEncodedString advances_sread
      intro: advances_trans)

interpretation string_reader: stream_reader readLengthPrefixedString
  by unfold_locales (rule advances_readLengthPrefixedString)

interpretation key_value_reader: stream_reader readStringKeyValue
  by unfold_locales
    (auto simp: readStringKeyValue_def split: prod.splits intro: string_reader.rd_then
      dest: string_reader.rd_advances)

interpretation size_reader: stream_reader "readSizeEncoded e"
  by unfold_locales
    (auto simp: readSizeEncoded_def split: prod.splits if_splits dest: uint_reader.rd_advances)

interpretation byte_reader: stream_reader "reread old"
  by unfold_locales (auto simp: reread_def split: prod.splits dest: sread_reader.rd_advances)

interpretation metadata_reader: stream_reader readMetaData
  by unfold_locales
    (auto simp: readMetaData_def split: prod.splits intro: string_reader.rd_then
      dest: string_reader.rd_advances)

interpretation header_reader: stream_reader readHeader
  by unfold_locales (auto simp: readHeader_def split: prod.splits dest: fresh_reader.rd_advances)

lemma advances_read_entry:
  "read_entry b vt file = (r, vt', t) \<Longrightarrow> advances file t"
  by (auto simp: read_entry_def split: prod.splits if_splits
      intro: uint_reader.rd_then byte_reader.rd_then
      dest: byte_reader.rd_advances key_value_reader.rd_advances)

lemma advances_read_entries:
  "read_entries n b vt s db = (r, t, db') \<Longrightarrow> advances s t"
proof (induction n arbitrary: b vt s db)
  case (Suc n)
  obtain b1 s1 where 1: "reread b s = (b1, s1)" by fastforce
  obtain e vt2 s2 where 2: "read_entry b1 vt s1 = (e, vt2, s2)" by (rule prod_cases3)
  have "advances s s2"
    using byte_reader.rd_then [OF 1] advances_read_entry [OF 2] by blast
  moreover have "advances s2 t"
    using Suc.prems 1 2 by (auto split: option.splits prod.splits intro: Suc.IH)
  ultimately show ?case by (rule advances_trans)
qed simp

lemma advances_readDatabase:
  assumes "readDatabase s db = (r, t, db')"
  shows "advances s t"
proof -
  obtain b1 s1 where 1: "read_uint 1 s = (b1 :: u8, s1)" by fastforce
  obtain i s2 where 2: "readSizeEncoded b1 s1 = (i, s2)" by fastforce
  obtain b3 s3 where 3: "reread b1 s2 = (b3, s3)" by fastforce
  obtain b4 s4 where 4: "reread b3 s3 = (b4, s4)" by fastforce
  obtain n5 s5 where 5: "readSizeEncoded b4 s4 = (n5, s5)" by fastforce
  obtain b6 s6 where 6: "reread b4 s5 = (b6, s6)" by fastforce
  obtain n7 s7 where 7: "readSizeEncoded b6 s6 = (n7, s7)" by fastforce
  obtain v s8 where 8: "uninit 1 s7 = (v, s8)" by fastforce
  note then_reads = uint_reader.rd_then [OF 1] size_reader.rd_then [OF 2] byte_reader.rd_then [OF 3]
    byte_reader.rd_then [OF 4] size_reader.rd_then [OF 5] byte_reader.rd_then [OF 6]
    size_reader.rd_then [OF 7] advances_trans [OF advances_uninit [OF 8]]
  show ?thesis
  proof (cases "b3 = 0xFB")
    case True
    then have "read_entries (unat (ucast n5 :: u8)) b6 (le_word v) s8 db = (r, t, db')"
      using assms 1 2 3 4 5 6 7 8 by (simp add: readDatabase_def)
    then show ?thesis
      by (intro then_reads) (rule advances_read_entries)
  next
    case False
    then have "t = s3"
      using assms 1 2 3 by (simp add: readDatabase_def)
    then show ?thesis
      by (simp, intro then_reads(1,2)) (rule byte_reader.rd_advances [OF 3])
  qed
qed

section \<open>The section loop\<close>

lemma read_uint_fuel_left:
  "read_uint n file = (w, t) \<Longrightarrow> 0 < n \<Longrightarrow> \<not> st_fail file \<Longrightarrow> fuel_left t < fuel_left file"
  by (auto simp: read_uint_def split: prod.splits intro: read_fresh_fuel_left)

lemma section_fuel_left:
  assumes "read_uint 1 s = (i :: u8, s1)" and "\<not> st_fail s" and "advances s1 s2"
  shows "fuel_left s2 < fuel_left s"
  using read_uint_fuel_left [OF assms(1)] assms(2) advances_fuel_left [OF assms(3)] by simp

text \<open>
  \<open>while (file)\<close>: one more section marker is read than the file has, and the marker of that last
  read is an uninitialised byte.
\<close>

function parse_loop :: "istream \<Rightarrow> DatabaseHandler \<Rightarrow> bool \<times> istream \<times> DatabaseHandler" where
  "parse_loop file db =
     (if st_fail file then (True, file, db)
      else let (indicator :: u8, file1) = read_uint 1 file
           in if indicator = 0xFA then
                let (ok, file2) = readMetaData file1
                in if ok then parse_loop file2 db else (False, file2, db)
              else if indicator = 0xFE then
                let (ok, file2, db2) = readDatabase file1 db
                in if ok then parse_loop file2 db2 else (False, file2, db2)
              else parse_loop file1 db)"
  by pat_completeness auto
termination
  by (relation "measure (\<lambda>(file, _). fuel_left file)")
     (auto intro: section_fuel_left [OF sym] advances_readDatabase [OF sym]
       metadata_reader.rd_advances [OF sym] simp del: One_nat_def)

declare parse_loop.simps [simp del]

text \<open>\<open>parse()\<close>: \<open>None\<close> is a file that cannot be opened.\<close>

definition rdb_parse ::
  "u8 list option \<Rightarrow> (nat \<Rightarrow> u8) \<Rightarrow> DatabaseHandler \<Rightarrow> bool \<times> DatabaseHandler" where
  "rdb_parse contents stale db =
     (case contents of
        None \<Rightarrow> (False, db)
      | Some bytes \<Rightarrow>
          (let (ok, file) = readHeader (open_stream bytes stale)
           in if \<not> ok then (False, db)
              else let (ok, file, db) = parse_loop file db in (ok, db)))"

end
