(* ===== verification/Rdb_Roundtrip.thy ===== *)
theory Rdb_Roundtrip
  imports Rdb_Parser
begin

text \<open>
  The RDB format as the loader's contract: an encoder for files with one database of string
  entries (the files Redis writes for such a database while every length fits in six bits), the
  proof that loading such a file stores exactly its entries, and what the loader makes of the
  encodings it reads differently from the format.
\<close>

section \<open>The format\<close>

definition enc_string :: "string \<Rightarrow> u8 list" where
  "enc_string s = word_of_nat (length s) # map byte_of_char s"

definition enc_meta :: "string \<times> string \<Rightarrow> u8 list" where
  "enc_meta av = 0xFA # enc_string (fst av) @ enc_string (snd av)"

definition enc_expiry :: "int \<Rightarrow> u8 list" where
  "enc_expiry e = (if e = 0 then [] else 0xFC # le_bytes 8 (nat e))"

definition enc_entry :: "string \<times> DBValue \<Rightarrow> u8 list" where
  "enc_entry kv =
     enc_expiry (expiry_time (snd kv)) @ 0 # enc_string (fst kv) @ enc_string (db_value (snd kv))"

definition rdb_dump ::
  "string \<Rightarrow> (string \<times> string) list \<Rightarrow> (string \<times> DBValue) list \<Rightarrow> u8 list \<Rightarrow> u8 list" where
  "rdb_dump version metas entries crc =
     map byte_of_char (''REDIS'' @ version) @ concat (map enc_meta metas) @
     [0xFE, 0, 0xFB, word_of_nat (length entries),
      word_of_nat (length (filter (\<lambda>kv. expiry_time (snd kv) \<noteq> 0) entries))] @
     concat (map enc_entry entries) @ 0xFF # crc"

definition short :: "string \<Rightarrow> bool" where
  "short s \<longleftrightarrow> length s < 64"

definition entry_ok :: "string \<times> DBValue \<Rightarrow> bool" where
  "entry_ok kv \<longleftrightarrow> short (fst kv) \<and> short (db_value (snd kv)) \<and>
     0 \<le> expiry_time (snd kv) \<and> expiry_time (snd kv) < 2 ^ 63"

definition meta_ok :: "string \<times> string \<Rightarrow> bool" where
  "meta_ok av \<longleftrightarrow> short (fst av) \<and> short (snd av) \<and> fst av \<noteq> [] \<and> snd av \<noteq> []"

text \<open>Bytes the section loop takes for a marker.\<close>

definition marker :: "u8 \<Rightarrow> bool" where
  "marker b \<longleftrightarrow> b = 0xFA \<or> b = 0xFE"

section \<open>Reading what the encoder wrote\<close>

lemma small_size_byte [simp]: "n < 64 \<Longrightarrow> (word_of_nat n :: u8) AND 0xC0 = 0"
proof -
  assume "n < 64"
  moreover have "list_all (\<lambda>n. (word_of_nat n :: u8) AND 0xC0 = 0) [0 ..< 64]"
    by code_simp
  ultimately show ?thesis by (simp add: list_all_iff)
qed

lemma read_byte_at:
  "stream_at s (b # bs) \<Longrightarrow> \<exists>t. read_uint 1 s = (b, t) \<and> stream_at t bs"
  using read_fresh_at [of s "[b]" bs 1] by (auto simp: read_uint_def le_word_def)

lemma reread_at:
  "stream_at s (b # bs) \<Longrightarrow> \<exists>t. reread old s = (b, t) \<and> stream_at t bs"
  using sread_at [of s "[b]" bs "[old]"] by (auto simp: reread_def le_word_def)

lemma read_uint_at:
  "stream_at s (xs @ bs) \<Longrightarrow> length xs = n \<Longrightarrow>
   \<exists>t. read_uint n s = (le_word xs, t) \<and> stream_at t bs"
  using read_fresh_at [of s xs bs n] by (auto simp: read_uint_def)

lemma readSizeEncoded_small:
  "n < 64 \<Longrightarrow> readSizeEncoded (word_of_nat n) s = (word_of_nat n, s)"
  by (simp add: readSizeEncoded_def unsigned_of_nat take_bit_nat_eq_self)

lemma readLengthPrefixedString_at:
  assumes "stream_at s (enc_string str @ bs)" and "short str"
  shows "\<exists>t. readLengthPrefixedString s = (str, t) \<and> stream_at t bs"
proof -
  have n: "length str < 64" using assms(2) by (simp add: short_def)
  from read_byte_at [of s] assms(1) obtain s1 where
    1: "read_uint 1 s = (word_of_nat (length str) :: u8, s1)"
       "stream_at s1 (map byte_of_char str @ bs)"
    by (auto simp: enc_string_def)
  from sread_at [OF 1(2), of "replicate (length str) 0"] obtain s2 where
    2: "sread (replicate (length str) 0) s1 = (map byte_of_char str, s2)" "stream_at s2 bs"
    by auto
  show ?thesis
    using n 1(1) 2 by (simp add: readLengthPrefixedString_def)
qed

lemma readStringKeyValue_at:
  assumes "stream_at s (enc_string k @ enc_string v @ bs)" and "short k" and "short v"
  shows "\<exists>t. readStringKeyValue s = ((k, v), t) \<and> stream_at t bs"
  using readLengthPrefixedString_at [OF assms(1,2)] readLengthPrefixedString_at [of _ v bs] assms(3)
  by (fastforce simp: readStringKeyValue_def)

lemma readMetaData_at:
  assumes "stream_at s (enc_string a @ enc_string v @ bs)" and "meta_ok (a, v)"
  shows "\<exists>t. readMetaData s = (True, t) \<and> stream_at t bs"
  using readLengthPrefixedString_at [OF assms(1)] readLengthPrefixedString_at [of _ v bs] assms(2)
  by (fastforce simp: readMetaData_def meta_ok_def)

lemma sint_le_word_le_bytes:
  assumes "0 \<le> e" and "e < 2 ^ 63"
  shows "sint (le_word (le_bytes 8 (nat e)) :: u64) = e"
proof -
  have "unat (le_word (le_bytes 8 (nat e)) :: u64) = nat e"
    using assms by (intro unat_le_word_le_bytes) (auto simp: nat_less_iff)
  then have "uint (le_word (le_bytes 8 (nat e)) :: u64) = e"
    using assms(1) by (metis int_nat_eq uint_nat)
  then show ?thesis
    using assms by (simp add: sint_uint signed_take_bit_int_eq_self)
qed

lemma read_entry_at:
  assumes "stream_at s (enc_entry kv @ bs)" and "entry_ok kv"
  shows "\<exists>b s1 vt t. reread old s = (b, s1) \<and>
    read_entry b vt0 s1 = (Some ((fst kv, db_value (snd kv)), expiry_time (snd kv)), vt, t) \<and>
    stream_at t bs"
proof (cases "expiry_time (snd kv) = 0")
  case True
  let ?body = "enc_string (fst kv) @ enc_string (db_value (snd kv)) @ bs"
  from reread_at [of s 0 ?body old] assms(1) True obtain s1 where
    1: "reread old s = (0, s1)" "stream_at s1 ?body"
    by (auto simp: enc_entry_def enc_expiry_def)
  from readStringKeyValue_at [OF 1(2)] assms(2) obtain t where
    "readStringKeyValue s1 = ((fst kv, db_value (snd kv)), t)" "stream_at t bs"
    by (auto simp: entry_ok_def)
  with 1 True show ?thesis by (auto simp: read_entry_def)
next
  case False
  define e where "e = expiry_time (snd kv)"
  let ?body = "enc_string (fst kv) @ enc_string (db_value (snd kv)) @ bs"
  from reread_at [of s "0xFC" "le_bytes 8 (nat e) @ 0 # ?body" old] assms(1) False obtain s1 where
    1: "reread old s = (0xFC, s1)" "stream_at s1 (le_bytes 8 (nat e) @ 0 # ?body)"
    by (auto simp: enc_entry_def enc_expiry_def e_def)
  from read_uint_at [OF 1(2)] obtain s2 where
    2: "read_uint 8 s1 = (le_word (le_bytes 8 (nat e)) :: u64, s2)" "stream_at s2 (0 # ?body)"
    by auto
  from reread_at [OF 2(2), of vt0] obtain s3 where
    3: "reread vt0 s2 = (0, s3)" "stream_at s3 ?body" by auto
  from readStringKeyValue_at [OF 3(2)] assms(2) obtain t where
    4: "readStringKeyValue s3 = ((fst kv, db_value (snd kv)), t)" "stream_at t bs"
    by (auto simp: entry_ok_def)
  have "sint (le_word (le_bytes 8 (nat e)) :: u64) = e"
    using assms(2) by (intro sint_le_word_le_bytes) (simp_all add: entry_ok_def e_def)
  with 1 2 3 4 show ?thesis by (auto simp: read_entry_def e_def)
qed

lemma read_entries_at:
  "stream_at s (concat (map enc_entry entries) @ bs) \<Longrightarrow> list_all entry_ok entries \<Longrightarrow>
   \<exists>t. read_entries (length entries) b vt s db =
         (True, t, fold (\<lambda>(k, v). db_put k v) entries db) \<and> stream_at t bs"
proof (induction entries arbitrary: s b vt db)
  case Nil
  then show ?case by simp
next
  case (Cons kv entries)
  from Cons.prems have "stream_at s (enc_entry kv @ concat (map enc_entry entries) @ bs)" "entry_ok kv"
    by simp_all
  from read_entry_at [OF this, of b vt] obtain b1 s1 vt1 s2 where
    1: "reread b s = (b1, s1)"
       "read_entry b1 vt s1 = (Some ((fst kv, db_value (snd kv)), expiry_time (snd kv)), vt1, s2)"
       "stream_at s2 (concat (map enc_entry entries) @ bs)"
    by blast
  from Cons.IH [OF 1(3)] Cons.prems(2) show ?case
    by (cases kv) (simp add: 1(1,2) db_put_def)
qed

text \<open>A database section whose size takes the bytes \<open>b # size_bytes\<close>: as many entries as a byte of the size says.\<close>

lemma readDatabase_sized:
  assumes "stream_at s ([0, 0xFB, b] @ size_bytes @ word_of_nat m # concat (map enc_entry entries) @ bs)"
    and "\<And>u x. stream_at u (size_bytes @ x) \<Longrightarrow> \<exists>t. readSizeEncoded b u = (sz, t) \<and> stream_at t x"
    and "unat (ucast sz :: u8) = length entries" and "list_all entry_ok entries" and "m < 64"
  shows "\<exists>t. readDatabase s db = (True, t, fold (\<lambda>(k, v). db_put k v) entries db) \<and> stream_at t bs"
proof -
  let ?m = "word_of_nat m :: u8"
  let ?es = "concat (map enc_entry entries) @ bs"
  from read_byte_at [of s 0 "0xFB # b # size_bytes @ ?m # ?es"] assms(1) obtain s1 where
    1: "read_uint 1 s = (0 :: u8, s1)" "stream_at s1 (0xFB # b # size_bytes @ ?m # ?es)" by auto
  have 2: "readSizeEncoded 0 s1 = (0, s1)" by (simp add: readSizeEncoded_def)
  from reread_at [OF 1(2), of 0] obtain s3 where
    3: "reread 0 s1 = (0xFB, s3)" "stream_at s3 (b # size_bytes @ ?m # ?es)" by auto
  from reread_at [OF 3(2), of "0xFB"] obtain s4 where
    4: "reread 0xFB s3 = (b, s4)" "stream_at s4 (size_bytes @ ?m # ?es)" by auto
  from assms(2) [OF 4(2)] obtain s5 where
    5: "readSizeEncoded b s4 = (sz, s5)" "stream_at s5 (?m # ?es)" by blast
  from reread_at [OF 5(2), of b] obtain s6 where
    6: "reread b s5 = (?m, s6)" "stream_at s6 ?es" by auto
  have 7: "readSizeEncoded ?m s6 = (word_of_nat m, s6)"
    by (rule readSizeEncoded_small [OF assms(5)])
  obtain v s8 where 8: "uninit 1 s6 = (v, s8)" by fastforce
  with 6(2) have "stream_at s8 ?es"
    by (auto simp: uninit_def stream_at_def)
  from read_entries_at [OF this assms(4), of ?m "le_word v" db] obtain t where
    9: "read_entries (length entries) ?m (le_word v) s8 db =
        (True, t, fold (\<lambda>(k, v). db_put k v) entries db)" "stream_at t bs"
    by blast
  then show ?thesis
    by (simp add: readDatabase_def 1(1) 2 3(1) 4(1) 5(1) 6(1) 7 8 assms(3) del: One_nat_def)
qed

lemma readDatabase_at:
  assumes "stream_at s ([0, 0xFB, word_of_nat (length entries), word_of_nat m] @
      concat (map enc_entry entries) @ bs)"
    and "list_all entry_ok entries" and "length entries < 64" and "m < 64"
  shows "\<exists>t. readDatabase s db = (True, t, fold (\<lambda>(k, v). db_put k v) entries db) \<and> stream_at t bs"
proof (rule readDatabase_sized [of s _ "[]", OF _ _ _ assms(2,4)])
  show "stream_at s ([0, 0xFB, word_of_nat (length entries)] @ [] @ word_of_nat m #
      concat (map enc_entry entries) @ bs)"
    using assms(1) by simp
  show "\<exists>t. readSizeEncoded (word_of_nat (length entries)) u = (word_of_nat (length entries), t) \<and> stream_at t x"
    if "stream_at u ([] @ x)" for u x
    using readSizeEncoded_small [OF assms(3), of u] that by simp
  show "unat (ucast (word_of_nat (length entries) :: u64) :: u8) = length entries"
    using assms(3) by (simp add: unsigned_ucast_eq unat_of_nat take_bit_nat_eq_self)
qed

section \<open>The section loop on an encoded file\<close>

lemma parse_loop_failed [simp]: "st_fail s \<Longrightarrow> parse_loop s db = (True, s, db)"
  by (simp add: parse_loop.simps)

lemma advances_stale: "advances s t \<Longrightarrow> st_stale t = st_stale s"
  by (simp add: advances_def)

lemma stream_at_live: "stream_at s bs \<Longrightarrow> \<not> st_fail s"
  by (simp add: stream_at_def)

lemma parse_loop_skip:
  assumes "stream_at s (b # bs)" and "\<not> marker b"
  shows "\<exists>t. parse_loop s db = parse_loop t db \<and> stream_at t bs \<and> st_stale t = st_stale s"
proof -
  from read_byte_at [OF assms(1)] obtain t where
    t: "read_uint 1 s = (b, t)" "stream_at t bs" by blast
  then have "st_stale t = st_stale s"
    using advances_stale [OF advances_read_uint [OF t(1)]] by simp
  with t assms(2) stream_at_live [OF assms(1)] show ?thesis
    by (auto simp: parse_loop.simps [of s] marker_def)
qed

lemma parse_loop_meta:
  assumes "stream_at s (enc_meta av @ bs)" and "meta_ok av"
  shows "\<exists>t. parse_loop s db = parse_loop t db \<and> stream_at t bs \<and> st_stale t = st_stale s"
proof -
  from assms(1) have at: "stream_at s (0xFA # enc_string (fst av) @ enc_string (snd av) @ bs)"
    by (simp add: enc_meta_def)
  from read_byte_at [OF at] obtain s1 where
    1: "read_uint 1 s = (0xFA :: u8, s1)"
       "stream_at s1 (enc_string (fst av) @ enc_string (snd av) @ bs)" by auto
  from readMetaData_at [OF 1(2)] assms(2) obtain t where
    "readMetaData s1 = (True, t)" "stream_at t bs" by auto
  moreover from this(1) 1(1) have "st_stale t = st_stale s"
    using advances_stale [OF uint_reader.rd_then [OF 1(1) metadata_reader.rd_advances]] by blast
  ultimately show ?thesis
    using 1(1) stream_at_live [OF at] by (auto simp: parse_loop.simps [of s])
qed

lemma parse_loop_metas:
  "stream_at s (concat (map enc_meta metas) @ bs) \<Longrightarrow> list_all meta_ok metas \<Longrightarrow>
   \<exists>t. parse_loop s db = parse_loop t db \<and> stream_at t bs \<and> st_stale t = st_stale s"
proof (induction metas arbitrary: s)
  case (Cons av metas)
  then have at: "stream_at s (enc_meta av @ concat (map enc_meta metas) @ bs)" and ok: "meta_ok av"
    by simp_all
  from parse_loop_meta [OF at ok, of db] obtain s1 where
    1: "parse_loop s db = parse_loop s1 db" "stream_at s1 (concat (map enc_meta metas) @ bs)"
       "st_stale s1 = st_stale s"
    by blast
  from Cons.IH [OF 1(2)] Cons.prems(2) 1(1,3) show ?case by simp
qed auto

lemma parse_loop_database:
  assumes "stream_at s ([0xFE, 0, 0xFB, word_of_nat (length entries), word_of_nat m] @
      concat (map enc_entry entries) @ bs)"
    and "list_all entry_ok entries" and "length entries < 64" and "m < 64"
  shows "\<exists>t. parse_loop s db = parse_loop t (fold (\<lambda>(k, v). db_put k v) entries db) \<and>
    stream_at t bs \<and> st_stale t = st_stale s"
proof -
  from read_byte_at [of s "0xFE"] assms(1) obtain s1 where
    1: "read_uint 1 s = (0xFE :: u8, s1)"
       "stream_at s1 ([0, 0xFB, word_of_nat (length entries), word_of_nat m] @
          concat (map enc_entry entries) @ bs)" by auto
  from readDatabase_at [OF 1(2) assms(2-4), of db] obtain t where
    "readDatabase s1 db = (True, t, fold (\<lambda>(k, v). db_put k v) entries db)" "stream_at t bs"
    by blast
  moreover from this(1) 1(1) have "st_stale t = st_stale s"
    using advances_stale [OF uint_reader.rd_then [OF 1(1) advances_readDatabase]] by blast
  ultimately show ?thesis
    using 1(1) stream_at_live [OF assms(1)] by (auto simp: parse_loop.simps [of s])
qed

text \<open>The last read finds the end of the file and sees a byte of the supply.\<close>

lemma parse_loop_end:
  assumes "stream_at s []" and "\<not> marker (st_stale s (st_drawn s))"
  shows "\<exists>t. parse_loop s db = (True, t, db)"
  using assms
  by (auto simp: parse_loop.simps [of s] stream_at_def read_uint_def read_fresh_def uninit_def
      sread_def le_word_def marker_def)

lemma parse_loop_tail:
  "stream_at s bs \<Longrightarrow> list_all (\<lambda>b. \<not> marker b) bs \<Longrightarrow> (\<And>i. \<not> marker (st_stale s i)) \<Longrightarrow>
   \<exists>t. parse_loop s db = (True, t, db)"
proof (induction bs arbitrary: s)
  case Nil
  then show ?case by (intro parse_loop_end) auto
next
  case (Cons b bs)
  then obtain t where "parse_loop s db = parse_loop t db" "stream_at t bs" "st_stale t = st_stale s"
    using parse_loop_skip [of s b bs db] by auto
  with Cons.IH [of t] Cons.prems show ?case by auto
qed

lemma readHeader_at:
  assumes "stream_at s (map byte_of_char (''REDIS'' @ version) @ bs)" and "length version = 4"
  shows "\<exists>t. readHeader s = (True, t) \<and> stream_at t bs \<and> st_stale t = st_stale s"
proof -
  from read_fresh_at [OF assms(1), of 9] assms(2) obtain t where
    t: "read_fresh 9 s = (map byte_of_char (''REDIS'' @ version), t)" "stream_at t bs" by auto
  have "take 5 (map byte_of_char (''REDIS'' @ version)) = map byte_of_char ''REDIS''"
    by simp
  then have "readHeader s = (True, t)"
    using t(1) by (simp add: readHeader_def)
  with t show ?thesis
    using advances_stale [OF header_reader.rd_advances] by blast
qed

text \<open>Up to the end marker the file is read as it was written.\<close>

lemma rdb_parse_body:
  assumes "length version = 4" and "list_all meta_ok metas" and "list_all entry_ok entries"
    and "length entries < 64"
  shows "\<exists>t. rdb_parse (Some (rdb_dump version metas entries crc)) stale db =
      (let (ok, file, db) = parse_loop t (fold (\<lambda>(k, v). db_put k v) entries db) in (ok, db)) \<and>
    stream_at t (0xFF # crc) \<and> st_stale t = stale"
proof -
  let ?m = "length (filter (\<lambda>kv. expiry_time (snd kv) \<noteq> 0) entries)"
  let ?file = "open_stream (rdb_dump version metas entries crc) stale"
  have m: "?m < 64"
    using assms(4) length_filter_le [of _ entries] by (rule le_less_trans [rotated])
  have "stream_at ?file (map byte_of_char (''REDIS'' @ version) @ concat (map enc_meta metas) @
          [0xFE, 0, 0xFB, word_of_nat (length entries), word_of_nat ?m] @
          concat (map enc_entry entries) @ 0xFF # crc)"
    by (simp add: rdb_dump_def)
  from readHeader_at [OF this assms(1)] obtain s1 where
    1: "readHeader ?file = (True, s1)"
       "stream_at s1 (concat (map enc_meta metas) @
          [0xFE, 0, 0xFB, word_of_nat (length entries), word_of_nat ?m] @
          concat (map enc_entry entries) @ 0xFF # crc)"
       "st_stale s1 = st_stale ?file"
    by blast
  from parse_loop_metas [OF 1(2) assms(2), of db] obtain s2 where
    2: "parse_loop s1 db = parse_loop s2 db" "st_stale s2 = stale"
       "stream_at s2 ([0xFE, 0, 0xFB, word_of_nat (length entries), word_of_nat ?m] @
          concat (map enc_entry entries) @ 0xFF # crc)"
    using 1(3) by (auto simp: open_stream_def)
  from parse_loop_database [OF 2(3) assms(3,4) m, of db] obtain s3 where
    3: "parse_loop s2 db = parse_loop s3 (fold (\<lambda>(k, v). db_put k v) entries db)"
       "st_stale s3 = stale" "stream_at s3 (0xFF # crc)"
    using 2(2) by auto
  from 3 show ?thesis
    by (auto simp: rdb_parse_def 1(1) 2(1))
qed

lemma rdb_parse_dump:
  assumes "length version = 4" and "list_all meta_ok metas" and "list_all entry_ok entries"
    and "length entries < 64" and "list_all (\<lambda>b. \<not> marker b) crc" and "\<And>i. \<not> marker (stale i)"
  shows "rdb_parse (Some (rdb_dump version metas entries crc)) stale db =
           (True, fold (\<lambda>(k, v). db_put k v) entries db)"
proof -
  from rdb_parse_body [OF assms(1-4), of crc stale db] obtain s where
    s: "rdb_parse (Some (rdb_dump version metas entries crc)) stale db =
          (let (ok, file, db) = parse_loop s (fold (\<lambda>(k, v). db_put k v) entries db) in (ok, db))"
       "stream_at s (0xFF # crc)" "st_stale s = stale" by blast
  have "list_all (\<lambda>b. \<not> marker b) (0xFF # crc)"
    using assms(5) by (simp add: marker_def)
  from parse_loop_tail [OF s(2) this] assms(6) s(3) obtain t where
    "parse_loop s (fold (\<lambda>(k, v). db_put k v) entries db) =
       (True, t, fold (\<lambda>(k, v). db_put k v) entries db)"
    by blast
  then show ?thesis
    by (simp add: s(1))
qed

text \<open>Eight checksum bytes that spell a database section with one entry, the empty key.\<close>

definition phantom_crc :: "u8 list" where
  "phantom_crc = [0xFE, 0, 0xFB, 1, 0, 0, 0, 0]"

definition phantom_entries :: "(string \<times> DBValue) list" where
  "phantom_entries = [([], \<lparr>db_value = [], expiry_time = 0\<rparr>)]"

lemma phantom_crc_section:
  "phantom_crc = [0xFE, 0, 0xFB, word_of_nat (length phantom_entries), word_of_nat 0] @
     concat (map enc_entry phantom_entries) @ []"
  by (simp add: phantom_crc_def phantom_entries_def enc_entry_def enc_expiry_def enc_string_def)

text \<open>Loading keeps the store well formed, and success means the whole file was consumed.\<close>

definition loads :: "DatabaseHandler \<Rightarrow> DatabaseHandler \<Rightarrow> bool" where
  "loads db db' \<longleftrightarrow> (db_inv db \<longrightarrow> db_inv db') \<and> server_info db' = server_info db"

lemma loads_refl [simp]: "loads db db"
  by (simp add: loads_def)

lemma loads_trans: "loads db1 db2 \<Longrightarrow> loads db2 db3 \<Longrightarrow> loads db1 db3"
  by (simp add: loads_def)

lemma loads_set: "loads (db_set k v e db) db' \<Longrightarrow> loads db db'"
  by (auto simp: loads_def)

lemma loads_read_entries: "read_entries n b vt s db = (r, t, db') \<Longrightarrow> loads db db'"
proof (induction n arbitrary: b vt s db)
  case (Suc n)
  then show ?case
    by (auto split: prod.splits option.splits intro: loads_set [OF Suc.IH])
qed simp

lemma loads_readDatabase: "readDatabase s db = (r, t, db') \<Longrightarrow> loads db db'"
  by (auto simp: readDatabase_def Let_def split: prod.splits if_splits dest: loads_read_entries)

lemma parse_loop_facts:
  "parse_loop s db = (r, t, db') \<Longrightarrow> loads db db' \<and> (r \<longrightarrow> st_fail t)"
proof (induction "fuel_left s" arbitrary: s db rule: less_induct)
  case less
  show ?case
  proof (cases "st_fail s")
    case True
    with less.prems show ?thesis by simp
  next
    case False
    obtain i s1 where i: "read_uint 1 s = (i :: u8, s1)" by fastforce
    obtain ok s2 where m: "readMetaData s1 = (ok, s2)" by fastforce
    obtain ok' s3 db3 where d: "readDatabase s1 db = (ok', s3, db3)" by (rule prod_cases3)
    note loop = less.prems [unfolded parse_loop.simps [of s] i, simplified False m d, simplified]
    have ih: "parse_loop u d1 = (r, t, db') \<Longrightarrow> advances s1 u \<Longrightarrow>
        loads d1 db' \<and> (r \<longrightarrow> st_fail t)" for u d1
      by (rule less.hyps [OF section_fuel_left [OF i False]])
    consider (meta) "i = 0xFA" | (database) "i = 0xFE" | (other) "i \<noteq> 0xFA" "i \<noteq> 0xFE" by blast
    then show ?thesis
    proof cases
      case meta
      with loop m ih [of s2 db] metadata_reader.rd_advances [OF m] show ?thesis
        by (auto split: if_splits)
    next
      case database
      with loop d ih [of s3 db3] advances_readDatabase [OF d] loads_readDatabase [OF d] show ?thesis
        by (auto split: if_splits intro: loads_trans)
    next
      case other
      with loop ih [of s1 db] show ?thesis by auto
    qed
  qed
qed

lemma loads_rdb_parse: "loads db (snd (rdb_parse contents stale db))"
proof (cases contents)
  case None
  then show ?thesis by (simp add: rdb_parse_def)
next
  case (Some bytes)
  obtain ok s where h: "readHeader (open_stream bytes stale) = (ok, s)" by fastforce
  obtain r t db' where l: "parse_loop s db = (r, t, db')" by (rule prod_cases3)
  from parse_loop_facts [OF l] Some h l show ?thesis
    by (simp add: rdb_parse_def)
qed

section \<open>Properties\<close>

text \<open>C13: Loading an RDB file of string entries stores exactly its entries, in order and with their
  expiry times, over whatever was in the store, and reports success. The trailing checksum is read
  as section markers, so it must not contain one, nor must the byte the last read leaves.\<close>

theorem rdb_load_roundtrip:
  assumes "length version = 4" and "list_all meta_ok metas" and "list_all entry_ok entries"
    and "length entries < 64" and "list_all (\<lambda>b. \<not> marker b) crc" and "\<And>i. \<not> marker (stale i)"
  shows "rdb_parse (Some (rdb_dump version metas entries crc)) stale db =
           (True, fold (\<lambda>(k, v). db_put k v) entries db) \<and>
         (distinct (map fst entries) \<longrightarrow>
           store_of (fold (\<lambda>(k, v). db_put k v) entries db) = store_of db ++ map_of entries)"
proof (intro conjI impI)
  show "rdb_parse (Some (rdb_dump version metas entries crc)) stale db =
          (True, fold (\<lambda>(k, v). db_put k v) entries db)"
    by (rule rdb_parse_dump [OF assms])
qed (rule db.look_put_all_distinct)

theorem rdb_load_roundtrip_witness:
  "rdb_parse (Some (rdb_dump ''0011'' [] [(''k'', \<lparr>db_value = ''v'', expiry_time = 5\<rparr>)] [1, 2]))
     (\<lambda>i. 0) empty_db =
   (True, db_set ''k'' ''v'' 5 empty_db)"
  using rdb_load_roundtrip [of "''0011''" "[]" "[(''k'', \<lparr>db_value = ''v'', expiry_time = 5\<rparr>)]"
      "[1, 2]" "\<lambda>i. 0" empty_db]
  by (simp add: entry_ok_def short_def marker_def db_put_def)

text \<open>C34: A file whose checksum spells a section puts a key into the store that the file does not hold:
  with the checksum \<open>phantom_crc\<close> the loader adds an entry with the empty key.\<close>

theorem checksum_is_read_as_data:
  assumes "length version = 4" and "list_all meta_ok metas" and "list_all entry_ok entries"
    and "length entries < 64" and "\<And>i. \<not> marker (stale i)"
  shows "rdb_parse (Some (rdb_dump version metas entries phantom_crc)) stale db =
    (True, db_set [] [] 0 (fold (\<lambda>(k, v). db_put k v) entries db))"
proof -
  let ?db = "fold (\<lambda>(k, v). db_put k v) entries db"
  from rdb_parse_body [OF assms(1-4), of phantom_crc stale db] obtain s where
    s: "rdb_parse (Some (rdb_dump version metas entries phantom_crc)) stale db =
          (let (ok, file, db) = parse_loop s ?db in (ok, db))"
       "stream_at s (0xFF # phantom_crc)" "st_stale s = stale" by blast
  from parse_loop_skip [OF s(2), of ?db] obtain t where
    t: "parse_loop s ?db = parse_loop t ?db" "stream_at t phantom_crc" "st_stale t = stale"
    using s(3) by (auto simp: marker_def)
  from parse_loop_database [OF t(2) [unfolded phantom_crc_section], of ?db] obtain u where
    u: "parse_loop t ?db = parse_loop u (db_set [] [] 0 ?db)" "stream_at u []" "st_stale u = stale"
    using t(3) by (auto simp: phantom_entries_def entry_ok_def short_def db_put_def)
  from parse_loop_end [OF u(2), of "db_set [] [] 0 ?db"] assms(5) u(3) show ?thesis
    by (auto simp: s(1) t(1) u(1))
qed

theorem checksum_is_read_as_data_witness:
  "rdb_parse (Some (rdb_dump ''0011'' [] [] phantom_crc)) (\<lambda>i. 0) empty_db =
     (True, db_set [] [] 0 empty_db)"
  using checksum_is_read_as_data [of "''0011''" "[]" "[]" "\<lambda>i. 0" empty_db]
  by (simp add: marker_def)

lemma readHeader_magic:
  "5 \<le> length bytes \<Longrightarrow>
   fst (readHeader (open_stream bytes stale)) \<longleftrightarrow> map char_of_byte (take 5 bytes) = ''REDIS''"
  by (simp add: readHeader_def read_fresh_def uninit_def sread_def open_stream_def)

lemma ucast_u8_of_nat: "m < 256 \<Longrightarrow> ucast (word_of_nat m :: u8) = (word_of_nat m :: u64)"
  by (simp add: word_unat_eq_iff unsigned_ucast_eq unat_of_nat take_bit_nat_eq_self)

text \<open>C32: Whatever the bytes of the file, loading terminates, keeps the store well formed (no key
  twice, slave table consistent), and leaves it untouched when the file cannot be opened or does not
  start with the magic string.\<close>

theorem rdb_parse_keeps_invariant:
  "(db_inv db \<longrightarrow> db_inv (snd (rdb_parse contents stale db))) \<and>
   (contents = None \<or> (\<exists>bytes. contents = Some bytes \<and> 5 \<le> length bytes \<and>
        map char_of_byte (take 5 bytes) \<noteq> ''REDIS'') \<longrightarrow>
      rdb_parse contents stale db = (False, db))"
proof (intro conjI impI)
  assume "db_inv db"
  then show "db_inv (snd (rdb_parse contents stale db))"
    using loads_rdb_parse [of db contents stale] by (simp add: loads_def)
next
  assume "contents = None \<or> (\<exists>bytes. contents = Some bytes \<and> 5 \<le> length bytes \<and>
      map char_of_byte (take 5 bytes) \<noteq> ''REDIS'')"
  then show "rdb_parse contents stale db = (False, db)"
    using readHeader_magic [of "the contents" stale]
    by (cases "readHeader (open_stream (the contents) stale)") (auto simp: rdb_parse_def)
qed

theorem rdb_parse_keeps_invariant_witness:
  "db_inv (snd (rdb_parse (Some [0x52, 0x45]) (\<lambda>i. 0) empty_db))"
  using rdb_parse_keeps_invariant [of empty_db "Some [0x52, 0x45]" "\<lambda>i. 0"] by simp

text \<open>A value type other than a string ends the load with an error, and the entries in front of
  it stay in the store.\<close>

lemma rdb_unknown_type_keeps_prefix:
  assumes "stream_at s (concat (map enc_entry entries) @ t # bs)" and "list_all entry_ok entries"
    and "t \<noteq> 0" and "t \<noteq> 0xFC" and "t \<noteq> 0xFD" and "length entries < n"
  shows "\<exists>u. read_entries n b vt s db = (False, u, fold (\<lambda>(k, v). db_put k v) entries db)"
  using assms(1,2,6)
proof (induction entries arbitrary: s n b vt db)
  case Nil
  then obtain k where n: "n = Suc k" by (cases n) auto
  from Nil obtain s1 where "reread b s = (t, s1)"
    using reread_at [of s t bs b] by auto
  then show ?case
    using assms(3-5) by (simp add: n read_entry_def)
next
  case (Cons kv entries)
  then obtain k where n: "n = Suc k" "length entries < k" by (cases n) auto
  from Cons.prems have "stream_at s (enc_entry kv @ concat (map enc_entry entries) @ t # bs)"
    "entry_ok kv" by simp_all
  from read_entry_at [OF this, of b vt] obtain b1 s1 vt1 s2 where
    1: "reread b s = (b1, s1)"
       "read_entry b1 vt s1 = (Some ((fst kv, db_value (snd kv)), expiry_time (snd kv)), vt1, s2)"
       "stream_at s2 (concat (map enc_entry entries) @ t # bs)"
    by blast
  from Cons.IH [OF 1(3) _ n(2)] Cons.prems(2) show ?case
    by (cases kv) (simp add: n(1) 1(1,2) db_put_def)
qed

lemma len8: "(2 :: nat) ^ LENGTH(8) = 256"
  by simp

lemma small_byte_mask: "m < 256 \<Longrightarrow> (word_of_nat m :: u64) AND 0xFF = word_of_nat m"
  by (simp add: and_byte_mask word_unat_eq_iff unsigned_take_bit_eq unat_of_nat take_bit_nat_eq_self)

text \<open>A table size of 64 to 16383, which the format writes in two bytes, is read with its marker bits left in.\<close>

lemma two_byte_size:
  assumes "64 \<le> n" and "n < 16384"
    and "stream_at s (word_of_nat (n mod 256) # bs)"
  shows "\<exists>t. readSizeEncoded (word_of_nat (64 + n div 256)) s = (word_of_nat (16384 + n), t) \<and> stream_at t bs"
proof -
  let ?h = "n div 256"
  have h: "?h < 64" using assms(2) by simp
  have "list_all (\<lambda>k. (word_of_nat (64 + k) :: u8) AND 0xC0 = 0x40) [0 ..< 64]"
    by code_simp
  with h have enc: "(word_of_nat (64 + ?h) :: u8) AND 0xC0 = 0x40"
    by (simp only: list_all_iff set_upt atLeastLessThan_iff zero_le True_implies_equals simp_thms)
  from read_byte_at [OF assms(3)] obtain t where
    t: "read_uint 1 s = (word_of_nat (n mod 256) :: u8, t)" "stream_at t bs" by blast
  let ?v = "push_bit 8 (word_of_nat (64 + ?h)) OR (word_of_nat (n mod 256) AND 0xFF) :: u64"
  have m: "64 + ?h < 256" "n mod 256 < 256"
    using h by simp_all
  have small: "unat (word_of_nat (64 + ?h) :: u64) = 64 + ?h"
    "unat (word_of_nat (n mod 256) :: u64) = n mod 256"
    using h by (intro unat_size_t_of_nat, simp)+
  have "unat ?v = (64 + ?h) * 256 + n mod 256"
    using h by (subst unat_shift_or_byte) (simp_all only: small, simp_all)
  then have "unat ?v = 16384 + n"
    by simp
  moreover have "unat (word_of_nat (16384 + n) :: u64) = 16384 + n"
    using assms(2) by (intro unat_size_t_of_nat) simp
  ultimately have v: "?v = word_of_nat (16384 + n)"
    by (simp only: word_unat_eq_iff)
  have "readSizeEncoded (word_of_nat (64 + ?h)) s = (?v, t)"
    using enc t(1) ucast_u8_of_nat [OF m(1)] ucast_u8_of_nat [OF m(2)] small_byte_mask [OF m(2)]
    by (simp only: readSizeEncoded_def) simp
  with v t(2) show ?thesis by (simp del: of_nat_add)
qed

lemma cut_size:
  assumes "n < 16384"
  shows "unat (ucast (word_of_nat (16384 + n) :: u64) :: u8) = n mod 256"
proof -
  have "unat (word_of_nat (16384 + n) :: u64) = 16384 + n"
    using assms by (intro unat_size_t_of_nat) simp
  moreover have "(16384 + n) mod 256 = n mod 256"
    using mod_mult_self2 [of n 256 64] by (simp add: add.commute)
  ultimately show ?thesis
    by (simp only: unsigned_ucast_eq take_bit_eq_mod len8)
qed

text \<open>C35: The number of entries is cut to a byte: of a database section with 64 to 16383 entries, whose size the
  format writes in two bytes, the loader takes as many as the size modulo 256 says, reports success, and
  leaves the other entries in the stream, where the loop over the sections takes their bytes for markers.\<close>

theorem hash_table_size_is_truncated:
  assumes "n = length entries" and "64 \<le> n" and "n < 16384" and "list_all entry_ok entries" and "m < 64"
    and "stream_at s ([0, 0xFB, word_of_nat (64 + n div 256), word_of_nat (n mod 256), word_of_nat m] @
      concat (map enc_entry entries) @ bs)"
  shows "\<exists>t. readDatabase s db = (True, t, fold (\<lambda>(k, v). db_put k v) (take (n mod 256) entries) db) \<and>
    stream_at t (concat (map enc_entry (drop (n mod 256) entries)) @ bs)"
proof (rule readDatabase_sized [where size_bytes = "[word_of_nat (n mod 256)]", OF _ _ _ _ assms(5)])
  have "concat (map enc_entry entries) =
      concat (map enc_entry (take (n mod 256) entries)) @ concat (map enc_entry (drop (n mod 256) entries))"
    by (simp flip: concat_append map_append)
  with assms(6) show "stream_at s ([0, 0xFB, word_of_nat (64 + n div 256)] @ [word_of_nat (n mod 256)] @
      word_of_nat m # concat (map enc_entry (take (n mod 256) entries)) @
      concat (map enc_entry (drop (n mod 256) entries)) @ bs)"
    by simp
  show "\<exists>t. readSizeEncoded (word_of_nat (64 + n div 256)) u = (word_of_nat (16384 + n), t) \<and> stream_at t x"
    if "stream_at u ([word_of_nat (n mod 256)] @ x)" for u x
    using two_byte_size [OF assms(2,3)] that by simp
  show "unat (ucast (word_of_nat (16384 + n) :: u64) :: u8) = length (take (n mod 256) entries)"
    using cut_size [OF assms(3)] assms(1) by (simp del: of_nat_add)
  show "list_all entry_ok (take (n mod 256) entries)"
    using assms(4) by (auto simp: list_all_iff dest: in_set_takeD)
qed

text \<open>Of 256 entries none is loaded.\<close>

theorem hash_table_size_is_truncated_witness:
  "\<exists>t. readDatabase (open_stream ([0, 0xFB, 0x41, 0, 0] @
       concat (map enc_entry (replicate 256 (''k'', \<lparr>db_value = ''v'', expiry_time = 0\<rparr>)))) (\<lambda>i. 0)) empty_db =
     (True, t, empty_db)"
proof -
  define es where "es = replicate 256 (''k'', \<lparr>db_value = ''v'', expiry_time = 0\<rparr>)"
  have "list_all entry_ok es" "length es = 256"
    unfolding es_def by (simp_all only: list_all_iff set_replicate_conv_if length_replicate)
      (simp add: entry_ok_def short_def)
  with hash_table_size_is_truncated [of 256 es 0 "open_stream ([0, 0xFB, 0x41, 0, 0] @
      concat (map enc_entry es)) (\<lambda>i. 0)" "[]" empty_db]
  show ?thesis
    unfolding es_def [symmetric] by auto
qed

text \<open>C36: An expiry in seconds is multiplied in 32 bits: what is stored is the millisecond time modulo
  \<open>2 ^ 32\<close>, so from fifty days after the epoch on the key is dead the moment it is loaded, or never
  expires when the product wraps to zero.\<close>

theorem expiry_in_seconds_wraps:
  assumes "stream_at s (le_bytes 4 sec @ 0 # enc_string k @ enc_string v @ bs)" and "sec < 2 ^ 32"
    and "short k" and "short v"
  defines "e \<equiv> int (sec * 1000 mod 2 ^ 32)"
  shows "\<exists>t. read_entry 0xFD vt s = (Some ((k, v), e), 0, t) \<and> stream_at t bs \<and>
    (\<forall>now \<ge> 2 ^ 32. live now (store_of (db_set k v e db)) k = (if e = 0 then Some v else None))"
proof -
  from read_uint_at [OF assms(1)] obtain s1 where
    1: "read_uint 4 s = (le_word (le_bytes 4 sec) :: u32, s1)"
       "stream_at s1 (0 # enc_string k @ enc_string v @ bs)" by auto
  from reread_at [OF 1(2), of vt] obtain s2 where
    2: "reread vt s1 = (0, s2)" "stream_at s2 (enc_string k @ enc_string v @ bs)" by auto
  from readStringKeyValue_at [OF 2(2) assms(3,4)] obtain t where
    3: "readStringKeyValue s2 = ((k, v), t)" "stream_at t bs" by blast
  have "unat (le_word (le_bytes 4 sec) :: u32) = sec"
    using assms(2) by (intro unat_le_word_le_bytes) simp_all
  then have "unat (le_word (le_bytes 4 sec) * 1000 :: u32) = sec * 1000 mod 2 ^ 32"
    by (simp add: unat_word_ariths)
  then have "uint (le_word (le_bytes 4 sec) * 1000 :: u32) = e"
    unfolding e_def by (metis uint_nat)
  moreover have "e < 2 ^ 32"
    by (simp add: e_def)
  ultimately show ?thesis
    using 1(1) 2(1) 3 by (auto simp: read_entry_def live_def fresh_def)
qed

theorem expiry_in_seconds_wraps_witness:
  "\<exists>t. read_entry 0xFD 0 (open_stream (le_bytes 4 1700000000 @ 0 # enc_string ''k'' @ enc_string ''v'')
     (\<lambda>i. 0)) = (Some ((''k'', ''v''), 3487918080), 0, t)"
  using expiry_in_seconds_wraps [of
      "open_stream (le_bytes 4 1700000000 @ 0 # enc_string ''k'' @ enc_string ''v'') (\<lambda>i. 0)"
      1700000000 "''k''" "''v''" "[]" 0 empty_db]
  by (auto simp: short_def)

lemma le_word_byte: "le_word [b] = b"
  by (simp add: le_word_def)

lemma uint_le_word:
  assumes "LENGTH('w) = 8 * length ds"
  shows "uint (le_word ds :: 'w::len word) = int (le_val ds)"
proof -
  have "unat (le_word ds :: 'w word) = le_val ds"
    using le_val_less [of ds] assms
    by (simp add: le_word_def unat_of_nat take_bit_nat_eq_self power_mult)
  then show ?thesis by (metis uint_nat)
qed

text \<open>An integer-encoded string is printed as an unsigned number, whatever its width: the sign the
  format gives these encodings is lost, so \<open>-1\<close> loads as \<open>255\<close>, \<open>65535\<close> or
  \<open>4294967295\<close>.\<close>

lemma integer_encoding_is_unsigned:
  assumes "(enc, n) \<in> {(0xC0, 1), (0xC1, 2), (0xC2, 4)}" and "length ds = n"
    and "stream_at s (enc # ds @ bs)"
  shows "\<exists>t. readLengthPrefixedString s = (to_string (int (le_val ds)), t) \<and> stream_at t bs"
proof -
  from read_fresh_at [of s "[enc]" "ds @ bs" 1] assms(3) obtain s1 where
    enc: "read_fresh 1 s = ([enc], s1)" "stream_at s1 (ds @ bs)" by auto
  from read_fresh_at [OF enc(2) assms(2)] obtain t where
    t: "read_fresh n s1 = (ds, t)" "stream_at t bs" by blast
  note defs = readLengthPrefixedString_def readEncodedString_def readIntegerEncodedString_def
  from assms(1) consider "enc = 0xC0" "n = 1" | "enc = 0xC1" "n = 2" | "enc = 0xC2" "n = 4"
    by auto
  then have "readLengthPrefixedString s = (to_string (int (le_val ds)), t)"
    using enc(1) t(1) assms(2)
    by cases (simp_all add: defs read_uint_def uint_le_word le_word_byte)
  with t(2) show ?thesis by blast
qed

text \<open>A string of 64 to 16383 bytes, as the format writes it: a 14-bit length in two bytes.\<close>

definition enc_long :: "string \<Rightarrow> u8 list" where
  "enc_long s =
     word_of_nat (64 + length s div 256) # word_of_nat (length s mod 256) # map byte_of_char s"

lemma long_length_byte:
  assumes "h < 64"
  shows "(word_of_nat (64 + h) :: u8) AND 0xC0 \<noteq> 0xC0" and "unat (word_of_nat (64 + h) :: u8) = 64 + h"
proof -
  have "list_all (\<lambda>k. (word_of_nat (64 + k) :: u8) AND 0xC0 \<noteq> 0xC0) [0 ..< 64]"
    by code_simp
  with assms show "(word_of_nat (64 + h) :: u8) AND 0xC0 \<noteq> 0xC0"
    by (simp only: list_all_iff set_upt atLeastLessThan_iff zero_le True_implies_equals simp_thms)
  show "unat (word_of_nat (64 + h) :: u8) = 64 + h"
    using assms by (intro unat_u8_of_nat) simp
qed

lemma readLengthPrefixedString_long:
  assumes "stream_at s (enc_long str @ bs)" and "64 \<le> length str" and "length str < 16384"
  defines "h \<equiv> 63 + length str div 256"
  shows "\<exists>t. readLengthPrefixedString s =
      (char_of_byte (word_of_nat (length str mod 256)) # take h str, t) \<and>
    stream_at t (map byte_of_char (drop h str) @ bs)"
proof -
  let ?b = "word_of_nat (64 + length str div 256) :: u8" and ?low = "word_of_nat (length str mod 256) :: u8"
  have h: "length str div 256 < 64" "h \<le> length str"
    using assms(2,3) by (simp_all add: h_def)
  have b: "?b AND 0xC0 \<noteq> 0xC0" "unat ?b = Suc h"
    using long_length_byte [OF h(1)] by (simp_all add: h_def)
  from read_byte_at [of s] assms(1) obtain s1 where
    1: "read_uint 1 s = (?b, s1)" "stream_at s1 (?low # map byte_of_char str @ bs)"
    by (auto simp: enc_long_def)
  have "?low # map byte_of_char str @ bs =
      (?low # map byte_of_char (take h str)) @ map byte_of_char (drop h str) @ bs"
    by (simp add: take_map [symmetric] drop_map [symmetric] flip: append_assoc)
  with 1(2) have "stream_at s1 ((?low # map byte_of_char (take h str)) @ map byte_of_char (drop h str) @ bs)"
    by simp
  from sread_at [OF this, of "replicate (Suc h) 0"] h(2) obtain s2 where
    2: "sread (replicate (Suc h) 0) s1 = (?low # map byte_of_char (take h str), s2)"
       "stream_at s2 (map byte_of_char (drop h str) @ bs)" by auto
  then have "readLengthPrefixedString s = (char_of_byte ?low # take h str, s2)"
    using b 1(1) by (simp add: readLengthPrefixedString_def b(2) [unfolded One_nat_def] comp_def)
  with 2(2) show ?thesis by blast
qed

text \<open>C37: A value of 64 to 16383 bytes does not survive loading: the first byte of its two-byte length is taken
  for the whole length, so what is stored is the second length byte and the first bytes of the value, and
  the rest of the value, at least one byte, is read as the entries behind it.\<close>

theorem long_value_is_misread:
  assumes "stream_at s (enc_string k @ enc_long v @ bs)" and "short k"
    and "64 \<le> length v" and "length v < 16384"
  defines "h \<equiv> 63 + length v div 256"
  defines "stored_value \<equiv> char_of_byte (word_of_nat (length v mod 256)) # take h v"
  shows "\<exists>t. read_entry 0 vt s = (Some ((k, stored_value), 0), 0, t) \<and>
    stream_at t (map byte_of_char (drop h v) @ bs) \<and>
    (64 < length v \<longrightarrow> length stored_value < length v) \<and>
    store_of (db_set k stored_value 0 db) k = Some \<lparr>db_value = stored_value, expiry_time = 0\<rparr>"
proof -
  from readLengthPrefixedString_at [OF assms(1,2)] obtain s1 where
    1: "readLengthPrefixedString s = (k, s1)" "stream_at s1 (enc_long v @ bs)" by blast
  from readLengthPrefixedString_long [OF 1(2) assms(3,4)] obtain t where
    2: "readLengthPrefixedString s1 = (stored_value, t)" "stream_at t (map byte_of_char (drop h v) @ bs)"
    by (auto simp: stored_value_def h_def)
  have "length v = 256 * (length v div 256) + length v mod 256"
    by simp
  then have "length stored_value < length v" if "64 < length v"
    using that by (simp add: stored_value_def h_def)
  then show ?thesis
    using 1(1) 2 by (intro exI [of _ t]) (simp add: read_entry_def readStringKeyValue_def)
qed

theorem long_value_is_misread_witness:
  "\<exists>t. read_entry 0 0 (open_stream (enc_string ''k'' @ enc_long (replicate 70 (CHR ''x''))) (\<lambda>i. 0)) =
       (Some ((''k'', CHR ''F'' # replicate 63 (CHR ''x'')), 0), 0, t) \<and>
     stream_at t (replicate 7 0x78)"
proof -
  have "char_of_byte (word_of_nat (70 mod 256)) = CHR ''F''" "byte_of_char (CHR ''x'') = 0x78"
    by code_simp+
  then show ?thesis
    using long_value_is_misread [of "open_stream (enc_string ''k'' @ enc_long (replicate 70 (CHR ''x''))) (\<lambda>i. 0)"
        "''k''" "replicate 70 (CHR ''x'')" "[]" 0 empty_db]
    by (auto simp: short_def take_replicate)
qed

end
