(* ===== verification/Server_Boot.thy ===== *)
theory Server_Boot
  imports Replication Rdb_Roundtrip
begin

text \<open>
  Starting the server: the command line (\<open>parseCommandLineArgs\<close> of \<^verbatim>\<open>src/utils.cpp\<close>) and the
  sequence of \<open>main\<close> in \<^verbatim>\<open>src/Server.cpp\<close> with its accept loop: settings, loading the RDB file,
  the listening socket, a replica's handshake, and a connection per client. The settings are those of \<^verbatim>\<open>src/globals.cpp\<close>.
\<close>

section \<open>The command line\<close>

definition DEFUALT_PORT :: int where
  "DEFUALT_PORT = 6379"

definition default_config :: config where
  "default_config = \<lparr>cfg_dir = [], cfg_dbfilename = [], cfg_port = DEFUALT_PORT\<rparr>"

record boot =
  boot_cfg :: config
  boot_info :: ServerInfo
  boot_net :: "net_event list"

text \<open>
  An option needs a value behind it, which is skipped; anything else is ignored. \<open>new_fd\<close> is what
  \<open>socket\<close> gives for the connection to the master.
\<close>

fun parseCommandLineArgs :: "int \<Rightarrow> string list \<Rightarrow> boot \<Rightarrow> boot result" where
  "parseCommandLineArgs new_fd (arg # v # args) b =
     (if arg = ''--dir'' then
        parseCommandLineArgs new_fd args (b\<lparr>boot_cfg := (boot_cfg b)\<lparr>cfg_dir := v\<rparr>\<rparr>)
      else if arg = ''--dbfilename'' then
        parseCommandLineArgs new_fd args (b\<lparr>boot_cfg := (boot_cfg b)\<lparr>cfg_dbfilename := v\<rparr>\<rparr>)
      else if arg = ''--port'' then
        and_then (stoi v) (\<lambda>port.
          parseCommandLineArgs new_fd args (b\<lparr>boot_cfg := (boot_cfg b)\<lparr>cfg_port := port\<rparr>\<rparr>))
      else if arg = ''--replicaof'' then
        and_then (get_master_ip_port v (update_role ''slave'' (boot_info b))) (\<lambda>si.
          let (si, events) = connect_to_master new_fd si
          in parseCommandLineArgs new_fd args (b\<lparr>boot_info := si, boot_net := boot_net b @ events\<rparr>))
      else parseCommandLineArgs new_fd (v # args) b)"
| "parseCommandLineArgs new_fd _ b = Inr b"

section \<open>main\<close>

text \<open>
  What \<open>main\<close> takes from outside: the random draws, the descriptor of the master's connection, the
  files, the stack bytes, the first reading of the clock onwards, and whether the listening socket
  could be created, bound and put to listening. \<open>None\<close> is exit with status 1, \<open>Some\<close> the world in
  which the accept loop starts.
\<close>

record host =
  draws :: "nat \<Rightarrow> nat"
  new_fd :: int
  files :: "string \<Rightarrow> u8 list option"
  host_stack :: "nat \<Rightarrow> u8"
  host_clock :: clock
  can_listen :: bool

definition server_main :: "host \<Rightarrow> string list \<Rightarrow> world option result" where
  "server_main h argv =
     and_then (new_ServerInfo (draws h)) (\<lambda>si.
     and_then (parseCommandLineArgs (new_fd h) argv
         \<lparr>boot_cfg = default_config, boot_info = si, boot_net = []\<rparr>) (\<lambda>b.
       let path = cfg_dir (boot_cfg b) @ ''/'' @ cfg_dbfilename (boot_cfg b);
           (ok, db) = rdb_parse (files h path) (host_stack h) (new_DatabaseHandler (boot_info b))
       in if \<not> can_listen h then Inr None
          else and_then (send_handshake (cfg_port (boot_cfg b)) (boot_info b)) (\<lambda>events. Inr (Some
            \<lparr>db_handler = db, cfg = boot_cfg b, clk = host_clock h, replies = [],
             net = boot_net b @ events, is_communicating = False\<rparr>))))"

text \<open>A start that succeeds at every stage.\<close>

lemma server_main_run:
  assumes "new_ServerInfo (draws h) = Inr si"
    and "parseCommandLineArgs (new_fd h) argv
      \<lparr>boot_cfg = default_config, boot_info = si, boot_net = []\<rparr> = Inr b"
    and "can_listen h" and "send_handshake (cfg_port (boot_cfg b)) (boot_info b) = Inr events"
  shows "server_main h argv = Inr (Some
    \<lparr>db_handler = snd (rdb_parse (files h (cfg_dir (boot_cfg b) @ ''/'' @ cfg_dbfilename (boot_cfg b)))
        (host_stack h) (new_DatabaseHandler (boot_info b))),
     cfg = boot_cfg b, clk = host_clock h, replies = [], net = boot_net b @ events,
     is_communicating = False\<rparr>)"
  using assms by (simp add: server_main_def Let_def case_prod_beta)

section \<open>The connections\<close>

text \<open>
  \<open>client_handler_thread\<close> starts a thread per descriptor: first, before the handshake, for the
  connection to the master, if there is one, and then for every client. The accept loop is over the
  results of \<open>accept\<close> so far; \<open>None\<close> is a loop that waits for the next, \<open>Some\<close> the exit status. The
  clients are counted, for a message, in an \<open>int\<close>.
\<close>

definition master_connection :: "world \<Rightarrow> int list result" where
  "master_connection w =
     (if get_role (get_server_info w) = ''slave''
      then and_then (get_master_fd (get_server_info w)) (\<lambda>fd. Inr [fd]) else Inr [])"

fun accept_loop :: "int \<Rightarrow> int list \<Rightarrow> int list \<times> int option result" where
  "accept_loop number_of_clients [] = ([], Inr None)"
| "accept_loop number_of_clients (client_fd # results) =
     (if client_fd < 0 then ([], Inr (Some 1))
      else case int_add number_of_clients 1 of
             Inl e \<Rightarrow> ([], Inl e)
           | Inr n \<Rightarrow> let (fds, r) = accept_loop n results in (client_fd # fds, r))"

definition connections :: "world \<Rightarrow> int list \<Rightarrow> int list \<times> int option result" where
  "connections w results =
     (case master_connection w of
        Inl e \<Rightarrow> ([], Inl e)
      | Inr fds \<Rightarrow> let (clients, r) = accept_loop 1 results in (fds @ clients, r))"

lemma accept_loop_serves:
  "0 \<le> n \<Longrightarrow> n + int (length fds) < 2 ^ 31 \<Longrightarrow> list_all ((\<le>) 0) fds \<Longrightarrow>
   accept_loop n (fds @ results) =
     (let (clients, r) = accept_loop (n + int (length fds)) results in (fds @ clients, r))"
proof (induction fds arbitrary: n)
  case (Cons fd fds)
  then show ?case
    by (simp add: int_ok_def add.assoc [symmetric] add.commute case_prod_beta Let_def)
qed simp

lemma accept_loop_failure:
  "0 \<le> n \<Longrightarrow> n + int (length fds) < 2 ^ 31 \<Longrightarrow> list_all ((\<le>) 0) fds \<Longrightarrow> bad < 0 \<Longrightarrow>
   accept_loop n (fds @ bad # results) = (fds, Inr (Some 1))"
  by (simp add: accept_loop_serves)

section \<open>The slave flag and the connection\<close>

text \<open>
  Every \<open>--replicaof\<close> makes the server a slave and connects it, so a server is a master that has not touched the
  network, or a slave with a descriptor, whose last event is the connection to its master.
\<close>

definition boot_inv :: "int \<Rightarrow> boot \<Rightarrow> bool" where
  "boot_inv fd b \<longleftrightarrow>
     (role (boot_info b) = ''master'' \<and> boot_net b = [] \<or>
      role (boot_info b) = ''slave'' \<and> master_fd (boot_info b) = Some fd \<and>
      (\<exists>es. boot_net b = es @ [Connect fd (master_ip (boot_info b)) (word_of_int (master_port (boot_info b)))])) \<and>
     si_inv (boot_info b) \<and> connected_slaves_fd (boot_info b) = []"

lemma search_replicaof_port:
  "search_replicaof s = Some (hst, port) \<Longrightarrow> \<exists>n. stoi port = Inr n"
proof (induction s)
  case (Cons c s)
  then show ?case
    using stoi_digits_upto [of 5 _ port]
    by (auto simp: match_replicaof_def split: option.splits if_splits)
qed simp

text \<open>The argument of \<open>--replicaof\<close> never ends the program: a port that matches is a number.\<close>

lemma get_master_ip_port_total:
  "\<exists>si'. get_master_ip_port args si = Inr si' \<and> role si' = role si \<and>
     connected_slaves si' = connected_slaves si \<and> connected_slaves_fd si' = connected_slaves_fd si"
proof (cases "search_replicaof args")
  case None
  then show ?thesis by (simp add: get_master_ip_port_def)
next
  case (Some m)
  then obtain hst port where m: "search_replicaof args = Some (hst, port)" by (cases m) auto
  with search_replicaof_port [OF m] show ?thesis by (auto simp: get_master_ip_port_def)
qed

lemma replicaof_inv:
  assumes "boot_inv fd b" and "get_master_ip_port v (update_role ''slave'' (boot_info b)) = Inr si"
    and "connect_to_master fd si = (si', es)"
  shows "boot_inv fd (b\<lparr>boot_info := si', boot_net := boot_net b @ es\<rparr>)"
  using assms get_master_ip_port_total [of v "update_role ''slave'' (boot_info b)"]
  by (auto simp: boot_inv_def connect_to_master_def update_role_def si_inv_def)

text \<open>A command line is read to the end, or \<open>stoi\<close> throws on one of its arguments.\<close>

definition booted :: "int \<Rightarrow> string list \<Rightarrow> boot result \<Rightarrow> bool" where
  "booted fd argv r \<longleftrightarrow>
     (case r of Inl e \<Rightarrow> (\<exists>v \<in> set argv. stoi v = Inl e) | Inr b \<Rightarrow> boot_inv fd b)"

lemma booted_later: "booted fd argv r \<Longrightarrow> set argv \<subseteq> set argv' \<Longrightarrow> booted fd argv' r"
  by (auto simp: booted_def split: sum.splits)

lemma boot_args: "boot_inv fd b \<Longrightarrow> booted fd argv (parseCommandLineArgs fd argv b)"
proof (induction fd argv b rule: parseCommandLineArgs.induct)
  case (1 fd arg v args b)
  have keep: "boot_inv fd (b\<lparr>boot_cfg := c\<rparr>)" for c
    using 1(6) by (simp add: boot_inv_def)
  have later: "booted fd args r \<Longrightarrow> booted fd (arg # v # args) r" for r
    by (erule booted_later) auto
  consider "arg = ''--dir''" | "arg = ''--dbfilename''" | "arg = ''--port''" | "arg = ''--replicaof''"
    | "arg \<notin> {''--dir'', ''--dbfilename'', ''--port'', ''--replicaof''}" by blast
  then show ?case
  proof cases
    case 1
    with "1.IH"(1) keep later show ?thesis by simp
  next
    case 2
    with "1.IH"(2) keep later show ?thesis by simp
  next
    case 3
    show ?thesis
    proof (cases "stoi v")
      case (Inl e)
      with 3 show ?thesis by (auto simp: booted_def)
    next
      case (Inr port)
      with 3 "1.IH"(3) [of port] keep later show ?thesis by simp
    qed
  next
    case 4
    obtain si where si: "get_master_ip_port v (update_role ''slave'' (boot_info b)) = Inr si"
      using get_master_ip_port_total by blast
    obtain si' es where c: "connect_to_master fd si = (si', es)" by fastforce
    with 4 si "1.IH"(4) [of "(si', es)" si si' es] replicaof_inv [OF "1.prems" si c] later show ?thesis
      by simp
  next
    case 5
    with "1.IH"(5) "1.prems" have "booted fd (v # args) (parseCommandLineArgs fd (v # args) b)" by simp
    with 5 show ?thesis
      by (auto elim: booted_later)
  qed
qed (auto simp: booted_def)

text \<open>A host on which a server can be started with a dump: the file is an encoded one with the given
  entries, and listening works.\<close>

definition holds_dump ::
  "host \<Rightarrow> string \<Rightarrow> string \<Rightarrow> string \<Rightarrow> (string \<times> string) list \<Rightarrow> (string \<times> DBValue) list \<Rightarrow>
    u8 list \<Rightarrow> bool" where
  "holds_dump h dir name version metas entries crc \<longleftrightarrow>
     (\<forall>i. draws h i < length CHARACTERS) \<and> can_listen h \<and>
     files h (dir @ ''/'' @ name) = Some (rdb_dump version metas entries crc) \<and>
     length version = 4 \<and> list_all meta_ok metas \<and> list_all entry_ok entries \<and>
     length entries < 64 \<and> list_all (\<lambda>b. \<not> marker b) crc \<and> (\<forall>i. \<not> marker (host_stack h i)) \<and>
     distinct (map fst entries)"

lemma server_main_dump:
  assumes "holds_dump h dir name version metas entries crc"
  shows "\<exists>w. server_main h [''server'', ''--dir'', dir, ''--dbfilename'', name] = Inr (Some w) \<and>
    store_of (db_handler w) = map_of entries \<and> db_inv (db_handler w) \<and> clk w = host_clock h \<and>
    replies w = [] \<and> role (get_server_info w) = ''master'' \<and>
    connected_slaves_fd (get_server_info w) = [] \<and> length (master_replid (get_server_info w)) = 40"
proof -
  note h = assms [unfolded holds_dump_def]
  have "generate_master_replid (draws h) = Inr (map (\<lambda>j. CHARACTERS ! draws h j) [0 ..< 40])"
    using replid_loop_ok [of "draws h" 0 40 "[]"] h
    by (simp add: generate_master_replid_def REPLID_LEN_def)
  then obtain si where si: "new_ServerInfo (draws h) = Inr si" "role si = ''master''" "si_inv si"
    "connected_slaves_fd si = []" "length (master_replid si) = 40"
    by (auto simp: new_ServerInfo_def si_inv_def)
  let ?db = "fold (\<lambda>(k, v). db_put k v) entries (new_DatabaseHandler si)"
  let ?w = "\<lparr>db_handler = ?db, cfg = \<lparr>cfg_dir = dir, cfg_dbfilename = name, cfg_port = DEFUALT_PORT\<rparr>,
    clk = host_clock h, replies = [], net = [], is_communicating = False\<rparr>"
  have parse: "rdb_parse (Some (rdb_dump version metas entries crc)) (host_stack h)
      (new_DatabaseHandler si) = (True, ?db)"
    using h by (intro rdb_parse_dump) auto
  then have main: "server_main h [''server'', ''--dir'', dir, ''--dbfilename'', name] = Inr (Some ?w)"
    using h si by (simp add: server_main_def default_config_def send_handshake_def)
  have "loads (new_DatabaseHandler si) ?db"
    using loads_rdb_parse [of "new_DatabaseHandler si"] parse by (metis snd_conv)
  then have "db_inv ?db" "server_info ?db = si"
    using si by (simp_all add: loads_def db_inv_def new_DatabaseHandler_def)
  moreover have "store_of ?db = map_of entries"
    using db.look_put_all_distinct [of entries "new_DatabaseHandler si"] h
    by (simp add: new_DatabaseHandler_def store_of_def)
  ultimately show ?thesis
    using main si by (simp add: get_server_info_def)
qed

section \<open>Properties\<close>

lemma stoi_error: "stoi v = Inl e \<Longrightarrow> e = Invalid_Argument \<or> e = Out_Of_Range"
  by (auto simp: stoi_def Let_def split: prod.splits if_splits)

definition greeting_of :: "int \<Rightarrow> int \<Rightarrow> net_event list" where
  "greeting_of fd port =
     map (Send fd) [handshake_ping, handshake_port port, handshake_capa, handshake_psync]"

lemma main_outcome_of_args:
  assumes "\<And>i. draws h i < length CHARACTERS"
  shows "case server_main h argv of
      Inl e \<Rightarrow> (e = Invalid_Argument \<or> e = Out_Of_Range) \<and> (\<exists>v \<in> set argv. stoi v = Inl e)
    | Inr None \<Rightarrow> \<not> can_listen h
    | Inr (Some w) \<Rightarrow> can_listen h \<and> db_inv (db_handler w) \<and> replies w = [] \<and>
        connected_slaves_fd (get_server_info w) = [] \<and>
        (role (get_server_info w) = ''master'' \<and> net w = [] \<or>
         role (get_server_info w) = ''slave'' \<and> master_fd (get_server_info w) = Some (new_fd h) \<and>
         (\<exists>es. net w = es @ Connect (new_fd h) (master_ip (get_server_info w))
             (word_of_int (master_port (get_server_info w))) # greeting_of (new_fd h) (cfg_port (cfg w))))"
proof -
  from new_server_info_ok [of "draws h", OF assms] obtain si where si: "new_ServerInfo (draws h) = Inr si" by blast
  let ?b = "\<lparr>boot_cfg = default_config, boot_info = si, boot_net = []\<rparr>"
  have "boot_inv (new_fd h) ?b"
    using si by (auto simp: new_ServerInfo_def and_then_Inr_iff boot_inv_def si_inv_def)
  note args = boot_args [OF this, of argv]
  show ?thesis
  proof (cases "parseCommandLineArgs (new_fd h) argv ?b")
    case (Inl e)
    with args si show ?thesis
      by (auto simp: server_main_def booted_def dest: stoi_error)
  next
    case (Inr b)
    with args have inv: "boot_inv (new_fd h) b"
      by (simp add: booted_def)
    obtain ok db where p: "rdb_parse (files h (cfg_dir (boot_cfg b) @ ''/'' @ cfg_dbfilename (boot_cfg b)))
        (host_stack h) (new_DatabaseHandler (boot_info b)) = (ok, db)" by fastforce
    have "db_inv (new_DatabaseHandler (boot_info b))"
      using inv by (simp add: db_inv_def boot_inv_def new_DatabaseHandler_def)
    then have db: "db_inv db" "server_info db = boot_info b"
      using loads_rdb_parse [of "new_DatabaseHandler (boot_info b)"
          "files h (cfg_dir (boot_cfg b) @ ''/'' @ cfg_dbfilename (boot_cfg b))" "host_stack h"] p
      by (simp_all add: loads_def new_DatabaseHandler_def)
    have "send_handshake (cfg_port (boot_cfg b)) (boot_info b) =
        Inr (if role (boot_info b) = ''slave'' then greeting_of (new_fd h) (cfg_port (boot_cfg b)) else [])"
      using inv by (auto simp: send_handshake_def greeting_of_def boot_inv_def)
    with si Inr p have "server_main h argv = (if \<not> can_listen h then Inr None else Inr (Some
        \<lparr>db_handler = db, cfg = boot_cfg b, clk = host_clock h, replies = [],
         net = boot_net b @
           (if role (boot_info b) = ''slave'' then greeting_of (new_fd h) (cfg_port (boot_cfg b)) else []),
         is_communicating = False\<rparr>))"
      by (simp add: server_main_def)
    with inv db show ?thesis
      by (auto simp: get_server_info_def boot_inv_def)
  qed
qed

lemma started_well_formed:
  assumes "\<And>i. draws h i < length CHARACTERS" and "server_main h argv = Inr (Some w)"
  shows "db_inv (db_handler w) \<and> replies w = [] \<and>
    (role (get_server_info w) = ''master'' \<or>
     role (get_server_info w) = ''slave'' \<and> master_fd (get_server_info w) \<noteq> None)"
  using main_outcome_of_args [of h argv, OF assms(1)] assms(2) by auto

text \<open>A host whose draws are in range and on which listening works.\<close>

definition plain_host :: "(string \<Rightarrow> u8 list option) \<Rightarrow> host" where
  "plain_host fs = \<lparr>draws = (\<lambda>i. 0), new_fd = 3, files = fs, host_stack = (\<lambda>i. 0),
     host_clock = \<lparr>readings = (\<lambda>n. 1), reads = 0\<rparr>, can_listen = True\<rparr>"

lemma plain_host_draws: "draws (plain_host fs) i < length CHARACTERS"
  by (simp add: plain_host_def CHARACTERS_def)

definition replid_A :: string where
  "replid_A = replicate 40 (CHR ''A'')"

lemma new_ServerInfo_A:
  "new_ServerInfo (\<lambda>i. 0) = Inr plain_server_info"
proof -
  have "generate_master_replid (\<lambda>i. 0) = Inr (map (\<lambda>j. CHARACTERS ! 0) [0 ..< 40])"
    using replid_loop_ok [of "\<lambda>i. 0" 0 40 "[]"]
    by (simp add: generate_master_replid_def REPLID_LEN_def CHARACTERS_def)
  moreover have "map (\<lambda>j. CHARACTERS ! 0) [0 ..< 40] = replicate 40 (CHR ''A'')"
    by (simp add: CHARACTERS_def map_replicate_const)
  ultimately show ?thesis
    by (simp add: new_ServerInfo_def plain_server_info_def)
qed

text \<open>C39: Every start, whatever the command line: it ends with an exception of \<open>stoi\<close> on one of the arguments, and
  with no undefined access; or with status 1 where the socket cannot listen; or the server runs. A
  running server has a well-formed store and no slaves, and it is a master that has sent nothing, or a slave that
  has connected, with the descriptor it keeps, to the address and port it keeps, and then sent the four
  messages of the handshake on that connection, with its own port in the second.\<close>

theorem started_server_well_formed:
  assumes "\<And>i. draws h i < length CHARACTERS"
  shows "case server_main h argv of
      Inl e \<Rightarrow> (e = Invalid_Argument \<or> e = Out_Of_Range) \<and> (\<exists>v \<in> set argv. stoi v = Inl e)
    | Inr None \<Rightarrow> \<not> can_listen h
    | Inr (Some w) \<Rightarrow> can_listen h \<and> db_inv (db_handler w) \<and> replies w = [] \<and>
        connected_slaves_fd (get_server_info w) = [] \<and>
        (role (get_server_info w) = ''master'' \<and> net w = [] \<or>
         role (get_server_info w) = ''slave'' \<and> master_fd (get_server_info w) = Some (new_fd h) \<and>
         (\<exists>es. net w = es @ Connect (new_fd h) (master_ip (get_server_info w))
             (word_of_int (master_port (get_server_info w))) # greeting_of (new_fd h) (cfg_port (cfg w))))"
  by (rule main_outcome_of_args [OF assms])

text \<open>An option whose value is missing is ignored, and a port that is no number ends the start.\<close>

theorem started_server_well_formed_witness:
  "(\<exists>w. server_main (plain_host (\<lambda>f. None)) [''server'', ''--port''] = Inr (Some w) \<and> db_inv (db_handler w) \<and>
     net w = []) \<and>
   (\<exists>e. server_main (plain_host (\<lambda>f. None)) [''server'', ''--port'', ''x''] = Inl e \<and>
     (\<exists>v \<in> {''server'', ''--port'', ''x''}. stoi v = Inl e))"
proof
  have main: "server_main (plain_host (\<lambda>f. None)) [''server'', ''--port''] = Inr (Some
      \<lparr>db_handler = empty_db, cfg = default_config, clk = \<lparr>readings = (\<lambda>n. 1), reads = 0\<rparr>,
       replies = [], net = [], is_communicating = False\<rparr>)"
    by (simp add: server_main_def plain_host_def new_ServerInfo_A rdb_parse_def empty_db_def
        send_handshake_def plain_server_info_def)
  from started_server_well_formed [of "plain_host (\<lambda>f. None)" "[''server'', ''--port'']", OF plain_host_draws]
  show "\<exists>w. server_main (plain_host (\<lambda>f. None)) [''server'', ''--port''] = Inr (Some w) \<and>
      db_inv (db_handler w) \<and> net w = []"
    unfolding main by simp
next
  have e: "stoi ''x'' = Inl Invalid_Argument"
    by code_simp
  have main: "server_main (plain_host (\<lambda>f. None)) [''server'', ''--port'', ''x''] = Inl Invalid_Argument"
    by (simp add: server_main_def plain_host_def new_ServerInfo_A e)
  from started_server_well_formed [of "plain_host (\<lambda>f. None)" "[''server'', ''--port'', ''x'']", OF plain_host_draws]
  show "\<exists>e. server_main (plain_host (\<lambda>f. None)) [''server'', ''--port'', ''x''] = Inl e \<and>
      (\<exists>v \<in> {''server'', ''--port'', ''x''}. stoi v = Inl e)"
    unfolding main by simp
qed

text \<open>A restarted server serves its dump: started with the directory and name of an RDB file, it holds
  exactly the entries of the file, and a \<open>GET\<close> of a stored key without expiry answers with the stored
  value.\<close>

lemma restarted_server_serves_dump:
  assumes "holds_dump h dir name version metas entries crc"
    and "(k, \<lparr>db_value = v, expiry_time = 0\<rparr>) \<in> set entries"
  shows "\<exists>w w'. server_main h [''server'', ''--dir'', dir, ''--dbfilename'', name] = Inr (Some w) \<and>
    store_of (db_handler w) = map_of entries \<and>
    serve_input (Suc d) env fd (request_bytes (Get k)) w = (Inr (), w') \<and>
    replies w' = [value_reply v]"
proof -
  from server_main_dump [OF assms(1)] obtain w where
    w: "server_main h [''server'', ''--dir'', dir, ''--dbfilename'', name] = Inr (Some w)"
       "store_of (db_handler w) = map_of entries" "db_inv (db_handler w)" "replies w = []" by blast
  have "map_of entries k = Some \<lparr>db_value = v, expiry_time = 0\<rparr>"
    using assms by (simp add: holds_dump_def)
  moreover have "length k < 64"
    using assms by (auto simp: holds_dump_def list_all_iff entry_ok_def short_def)
  then have "length (request_bytes (Get k)) < 2 ^ 31"
    using length_to_string [of "int (length k)"]
    by (simp add: request_bytes_def command_bytes_def create_array_reponse_eq
        length_create_string_reponse int_ok_def print_number)
  ultimately obtain w' where "serve_input (Suc d) env fd (request_bytes (Get k)) w = (Inr (), w')"
    "replies w' = [value_reply v]"
    using serve_input_request [of "Get k" w "value_reply v" _ _ d env fd] w by auto
  with w show ?thesis by blast
qed

text \<open>A server started as a replica of \<open>localhost\<close> connects to the given port and then sends the four
  messages of the handshake, with its own port in the second, before it accepts any client. Without an RDB
  file it holds nothing.\<close>

lemma replica_start_connects_and_greets:
  assumes "\<And>i. draws h i < length CHARACTERS" and "can_listen h"
    and "0 < p" and "p < 10 ^ 5" and "int_ok own"
  shows "\<exists>w. server_main h [''server'', ''--port'', to_string own,
      ''--replicaof'', ''localhost '' @ to_string (int p)] = Inr (Some w) \<and>
    role (get_server_info w) = ''slave'' \<and> cfg_port (cfg w) = own \<and>
    net w = Connect (new_fd h) LOCALHOST (word_of_int (int p)) # map (Send (new_fd h))
      [handshake_ping, handshake_port own, handshake_capa, handshake_psync] \<and>
    (files h ''/'' = None \<longrightarrow> store_of (db_handler w) = Map.empty)"
proof -
  have "generate_master_replid (draws h) = Inr (map (\<lambda>j. CHARACTERS ! draws h j) [0 ..< 40])"
    using replid_loop_ok [of "draws h" 0 40 "[]", OF assms(1)]
    by (simp add: generate_master_replid_def REPLID_LEN_def)
  then obtain si where si: "new_ServerInfo (draws h) = Inr si"
    by (auto simp: new_ServerInfo_def)
  let ?si = "(update_role ''slave'' si)\<lparr>master_ip := LOCALHOST, master_port := int p,
    master_fd := Some (new_fd h)\<rparr>"
  let ?b = "\<lparr>boot_cfg = default_config\<lparr>cfg_port := own\<rparr>, boot_info = ?si,
    boot_net = [Connect (new_fd h) LOCALHOST (word_of_int (int p))]\<rparr>"
  have args: "parseCommandLineArgs (new_fd h) [''server'', ''--port'', to_string own,
      ''--replicaof'', ''localhost '' @ to_string (int p)]
      \<lparr>boot_cfg = default_config, boot_info = si, boot_net = []\<rparr> = Inr ?b"
    using assms(5) localhost_argument [OF assms(3,4), of "update_role ''slave'' si"]
    by (simp add: connect_to_master_def update_role_def del: append.simps)
  have load: "server_info (snd (rdb_parse f (host_stack h) (new_DatabaseHandler ?si))) = ?si" for f
    using loads_rdb_parse [of "new_DatabaseHandler ?si" f "host_stack h"]
    by (simp add: loads_def new_DatabaseHandler_def)
  have greet: "send_handshake own ?si = Inr (map (Send (new_fd h))
      [handshake_ping, handshake_port own, handshake_capa, handshake_psync])"
    by (simp add: send_handshake_def update_role_def)
  from greet have "send_handshake (cfg_port (boot_cfg ?b)) (boot_info ?b) = Inr (map (Send (new_fd h))
      [handshake_ping, handshake_port own, handshake_capa, handshake_psync])" by simp
  moreover have "store_of (snd (rdb_parse None (host_stack h) (new_DatabaseHandler ?si))) = Map.empty"
    by (simp add: rdb_parse_def new_DatabaseHandler_def store_of_def)
  ultimately show ?thesis
    using server_main_run [OF si args assms(2)] load
    by (simp add: get_server_info_def update_role_def default_config_def)
qed

end
