(* ===== verification/Malformed_Input.thy ===== *)
theory Malformed_Input
  imports Server_Spec
begin

text \<open>
  What the parser of \<^verbatim>\<open>src/redis_parser.cpp\<close> does with buffers that are not a sequence of
  well-formed commands: input that is no array, a command cut by a packet boundary, and lengths that
  point the position behind the buffer or back into it.
\<close>

section \<open>Helpers\<close>

text \<open>The first call, with the receive buffer at position 0.\<close>

lemma serve_input_eq:
  "serve_input depth env fd input w =
     parseRESPCommand depth env fd input 0 (w\<lparr>is_communicating := True\<rparr>)"
  by (simp add: serve_input_def)

lemma char_at_0: "char_at input 0 = Inr (case input of [] \<Rightarrow> NUL | c # cs \<Rightarrow> c)"
  by (simp add: char_at_def split: list.splits)

lemma parseBulkString_other:
  "char_at input pos = Inr c \<Longrightarrow> c \<noteq> CHR ''$'' \<Longrightarrow>
   parseBulkString input pos = Inl (Runtime_Error ''protocol error: expected bulk string'')"
  by (simp add: parseBulkString_def)

lemma NUL_not_dollar [simp]: "NUL \<noteq> CHR ''$''"
  by (simp add: NUL_def)

text \<open>A bulk string of which fewer characters have arrived than its length says: what is there is
  read, and the position is where the whole string would have ended.\<close>

lemma parseBulkString_short:
  assumes "cursor input pos (CHR ''$'' # to_string (int n) @ CRLF @ v)" and "int n + 2 < 2 ^ 31"
  shows "\<exists>p. parseBulkString input pos = Inr (take n v, p) \<and>
    unat p + length v = length input + n + 2"
proof -
  define p where "p = str_find input CRLF (pos + 1) + 2"
  have small: "int_ok (int n)" "int_ok (int n + 2)"
    using assms(2) by (simp_all add: int_ok_def)
  note h = parseBulkString_header [OF assms(1) small(1), folded p_def]
  have "unat (word_of_int (int n) :: size_t) = n"
    using assms(2) unat_add_small [of 0 n] by simp
  then have "substr input p (word_of_int (int n)) = Inr (take n v)"
    using h(2) by (auto simp: substr_def cursor_def)
  moreover have "unat (p + word_of_nat (n + 2)) = unat p + n + 2"
    using cursor_small [OF h(2)] assms(2) by (subst unat_add_small) simp_all
  then have "unat (p + word_of_int (int n + 2)) + length v = length input + n + 2"
    using cursor_length [OF h(2)] by (simp add: add.commute)
  ultimately show ?thesis
    using small(2) h(1) by simp
qed

section \<open>A length that points back\<close>

text \<open>A store whose value has length -28: the position returns to the start of the buffer.\<close>

definition looping_set :: string where
  "looping_set = CHR ''*'' # to_string 3 @ CRLF @ create_string_reponse ''SET'' @
     create_string_reponse ''k'' @ CHR ''$'' # to_string (- 28) @ CRLF"

lemma looping_set_bytes:
  "looping_set = ''*3'' @ CRLF @ ''$3'' @ CRLF @ ''SET'' @ CRLF @ ''$1'' @ CRLF @ ''k'' @ CRLF @
     ''$-28'' @ CRLF"
  by code_simp

lemma length_looping_set: "length looping_set = 26"
  by (simp add: looping_set_bytes)

lemma looping_value:
  assumes "cursor looping_set pos (CHR ''$'' # to_string (- 28) @ CRLF)"
  shows "parseBulkString looping_set pos = Inr ([], 0)"
proof -
  define p where "p = str_find looping_set CRLF (pos + 1) + 2"
  have ok: "int_ok (- 28)" by (simp add: int_ok_def)
  note h = parseBulkString_header [of looping_set pos "- 28" "[]", folded p_def, simplified,
      OF assms [simplified] ok]
  have "unat p = 26"
    using cursor_length [OF h(2)] length_looping_set by simp
  then have p: "p = 26"
    by (simp add: word_unat_eq_iff)
  have "substr looping_set p (word_of_int (- 28)) = Inr []"
    using h(2) by (auto simp: substr_def cursor_def)
  then show ?thesis
    using h(1) by (simp add: int_add_def int_ok_def p)
qed

lemma looping_step:
  "parseRESPCommand (Suc depth) env fd looping_set 0 w =
     set_tail (parseRESPCommand depth env fd looping_set) looping_set 0 (stored ''k'' [] 0 w)"
proof -
  have "cursor looping_set 0 (CHR ''*'' # to_string 3 @ CRLF @ create_string_reponse ''SET'' @
      create_string_reponse ''k'' @ CHR ''$'' # to_string (- 28) @ CRLF)"
    using length_looping_set by (simp add: looping_set_def)
  from parse_header [OF this, of depth env fd w] obtain p where
    p: "parseRESPCommand (Suc depth) env fd looping_set 0 w =
          parseSETCommand (parseRESPCommand depth env fd looping_set) looping_set p 3 w"
       "cursor looping_set p (create_string_reponse ''k'' @ CHR ''$'' # to_string (- 28) @ CRLF)"
    by (auto simp: int_ok_def dispatch_def)
  from parseBulkString_cursor [OF p(2)] obtain p' where
    "parseBulkString looping_set p = Inr (''k'', p')"
    "cursor looping_set p' (CHR ''$'' # to_string (- 28) @ CRLF)" by blast
  then show ?thesis
    using looping_value [of p'] p(1)
    by (simp add: parseSETCommand_def read_expiry_def stored_def Let_def)
qed

lemma looping_overflows:
  "\<exists>w'. parseRESPCommand depth env fd looping_set 0 w = (Inl Stack_Overflow, w') \<and>
     replies w' = replies w @ replicate depth OK_RESPONSE"
proof (induction depth arbitrary: w)
  case 0
  then show ?case by simp
next
  case (Suc depth)
  have c: "char_at looping_set 0 = Inr (CHR ''*'')"
    by (simp add: char_at_0 looping_set_def)
  obtain w' where w': "parseRESPCommand depth env fd looping_set 0 (stored ''k'' [] 0 w) =
      (Inl Stack_Overflow, w')"
    "replies w' = replies (stored ''k'' [] 0 w) @ replicate depth OK_RESPONSE"
    using Suc.IH [of "stored ''k'' [] 0 w"] by blast
  then show ?case
    by (simp add: looping_step set_tail_def c stored_def enqueueMessage_def)
qed

section \<open>Properties\<close>

text \<open>C14: Whatever bytes arrive, well-formed or not, and whether or not the parser returns: replies and
  propagated buffers are only appended, the configuration is left alone, a well-formed store stays
  well formed, and a normal return always ends the communication.\<close>

theorem any_input_keeps_contract:
  "keeps w (serve_input depth env fd input w)"
proof -
  have "extends w (w\<lparr>is_communicating := True\<rparr>)"
    by (simp add: extends_def)
  then show ?thesis
    unfolding serve_input_def by (rule keeps_from) (rule dispatcher.h_keeps)
qed

text \<open>Input that does not start with a star is dropped without a reply: nothing is stored, sent or
  propagated, and the connection's thread is told that the communication is over.\<close>

lemma non_array_input_is_ignored:
  assumes "\<forall>cs. input \<noteq> CHR ''*'' # cs"
  shows "serve_input (Suc depth) env fd input w = (Inr (), w\<lparr>is_communicating := False\<rparr>)"
  using assms
  by (cases input)
    (auto simp: serve_input_eq parseRESPCommand.simps(2) char_at_0 communication_over_def NUL_def)

text \<open>A command whose first packet ends behind the array header, wherever the rest is, ends the whole
  server: the parser does not wait for more bytes but throws, and nothing catches the exception.\<close>

lemma header_without_command_kills_server:
  assumes "int_ok n"
  shows "serve_input (Suc depth) env fd (CHR ''*'' # to_string n @ CRLF) w =
    (Inl (Runtime_Error ''protocol error: expected bulk string''), w\<lparr>is_communicating := True\<rparr>)"
proof -
  have len: "length (CHR ''*'' # to_string n @ CRLF) < 2 ^ 31"
    using length_to_string [OF assms] by simp
  have "cursor (CHR ''*'' # to_string n @ CRLF) 0 (CHR ''*'' # to_string n @ CRLF)"
    using len by (simp only: cursor_start)
  from read_array_header_cursor [of _ _ n "[]", simplified, OF cursor_Cons [OF this] assms]
  obtain p where
    p: "read_array_header (CHR ''*'' # to_string n @ CRLF) 1 = Inr (n, p)"
       "cursor (CHR ''*'' # to_string n @ CRLF) p []" by auto
  then show ?thesis
    by (simp add: serve_input_eq parseRESPCommand.simps(2) char_at_0
        parseBulkString_other [OF char_at_cursor_end])
qed

text \<open>The bytes of a store in front of the characters of the value.\<close>

definition set_header :: "string \<Rightarrow> string \<Rightarrow> string" where
  "set_header k v = CHR ''*'' # to_string 3 @ CRLF @ create_string_reponse ''SET'' @
     create_string_reponse k @ CHR ''$'' # to_string (int (length v)) @ CRLF"

lemma set_header_value: "set_header k v @ v @ CRLF = request_bytes (Set k v)"
  by (simp add: set_header_def request_bytes_def command_bytes_def create_array_reponse_eq
      create_string_reponse_def [of v])

lemma set_cut_in_value:
  assumes "length part \<le> Suc (length v)" and "length (set_header k v @ part) < 2 ^ 31"
    and "length v < 2 ^ 31 - 2"
  shows "serve_input (Suc depth) env fd (set_header k v @ part) w =
    (Inl Undefined_Behaviour, stored k (take (length v) part) 0 (w\<lparr>is_communicating := True\<rparr>))"
proof -
  let ?input = "set_header k v @ part"
  have "cursor ?input 0 (CHR ''*'' # to_string 3 @ CRLF @ create_string_reponse ''SET'' @
      create_string_reponse k @ CHR ''$'' # to_string (int (length v)) @ CRLF @ part)"
    using assms(2) by (simp add: set_header_def)
  from parse_header [OF this, of depth env fd "w\<lparr>is_communicating := True\<rparr>"] obtain p where
    p: "serve_input (Suc depth) env fd ?input w =
          parseSETCommand (parseRESPCommand depth env fd ?input) ?input p 3
            (w\<lparr>is_communicating := True\<rparr>)"
       "cursor ?input p (create_string_reponse k @ CHR ''$'' # to_string (int (length v)) @ CRLF @ part)"
    by (auto simp: int_ok_def dispatch_def serve_input_eq)
  from parseBulkString_cursor [OF p(2)] obtain p' where
    1: "parseBulkString ?input p = Inr (k, p')"
       "cursor ?input p' (CHR ''$'' # to_string (int (length v)) @ CRLF @ part)" by blast
  from parseBulkString_short [OF 1(2)] assms(3) obtain q where
    2: "parseBulkString ?input p' = Inr (take (length v) part, q)"
       "unat q + length part = length ?input + length v + 2" by auto
  then have "length ?input < unat q"
    using assms(1) by simp
  then have "char_at ?input q = Inl Undefined_Behaviour"
    by (simp add: char_at_def)
  then show ?thesis
    using 1(1) 2(1) p(1)
    by (simp add: parseSETCommand_def read_expiry_def set_tail_def stored_def Let_def)
qed

text \<open>C26: A store cut by a packet boundary anywhere behind the length of its value and before its last byte
  is not waited for: the part of the value that has arrived is stored and acknowledged as the value, and
  then a byte behind the end of the buffer is read, which the language leaves undefined.\<close>

theorem set_cut_in_value_reads_out_of_bounds:
  assumes "prefix input (request_bytes (Set k v))" and "prefix (set_header k v) input"
    and "input \<noteq> request_bytes (Set k v)" and "length (request_bytes (Set k v)) < 2 ^ 31"
  shows "serve_input (Suc depth) env fd input w =
    (Inl Undefined_Behaviour,
     stored k (take (length v) (drop (length (set_header k v)) input)) 0 (w\<lparr>is_communicating := True\<rparr>))"
proof -
  from assms(2) obtain part where part: "input = set_header k v @ part"
    by (auto simp: prefix_def)
  from assms(1) have len: "length input \<le> length (request_bytes (Set k v))"
    by (rule prefix_length_le)
  have "length input \<noteq> length (request_bytes (Set k v))"
    using assms(1,3) by (auto simp: prefix_def)
  moreover have total: "length (request_bytes (Set k v)) = length (set_header k v) + length v + 2"
    by (simp flip: set_header_value)
  ultimately have "length part \<le> Suc (length v)"
    using len part by simp
  moreover have "length (set_header k v @ part) < 2 ^ 31"
    using len assms(4) part by simp
  moreover have "0 < length (set_header k v)"
    by (simp add: set_header_def)
  then have "length v < 2 ^ 31 - 2"
    using total assms(4) by linarith
  ultimately show ?thesis
    using set_cut_in_value [of part v k depth env fd w] part by simp
qed

theorem set_cut_in_value_reads_out_of_bounds_witness:
  "fst (serve_input 1 plain_env 7
     (''*3'' @ CRLF @ ''$3'' @ CRLF @ ''SET'' @ CRLF @ ''$1'' @ CRLF @ ''k'' @ CRLF @
      ''$5'' @ CRLF @ ''val'') empty_world) = Inl Undefined_Behaviour"
proof -
  let ?input = "''*3'' @ CRLF @ ''$3'' @ CRLF @ ''SET'' @ CRLF @ ''$1'' @ CRLF @ ''k'' @ CRLF @
      ''$5'' @ CRLF @ ''val''"
  have "prefix ?input (request_bytes (Set ''k'' ''value''))" "prefix (set_header ''k'' ''value'') ?input"
    "?input \<noteq> request_bytes (Set ''k'' ''value'')" "length (request_bytes (Set ''k'' ''value'')) = 31"
    by code_simp+
  from set_cut_in_value_reads_out_of_bounds [OF this(1-3), of 0 plain_env 7 empty_world] this(4)
  show ?thesis by simp
qed

text \<open>C15: A single client message ends the server by exhausting the stack: the value of
  \<open>looping_set\<close> has a negative length that sets the position back to the start of the buffer, so
  the store is repeated, and acknowledged, once per level of the recursion whatever the depth of the
  stack.\<close>

theorem looping_set_exhausts_stack:
  "\<exists>w'. serve_input depth env fd looping_set w = (Inl Stack_Overflow, w') \<and>
     replies w' = replies w @ replicate depth OK_RESPONSE"
  using looping_overflows [of depth env fd "w\<lparr>is_communicating := True\<rparr>"]
  by (simp add: serve_input_eq)

end
