(* ===== verification/Worker_Pool.thy ===== *)
theory Worker_Pool
  imports Redis_Prelude
begin

text \<open>
  The thread pool of \<^verbatim>\<open>src/client_handler.cpp\<close>: one thread per connection puts a task into
  \<open>task_queue\<close> for every buffer it receives (\<open>enqueueTask\<close>), \<open>THREAD_POOL_SIZE\<close> workers take tasks
  out and run them (\<open>worker_thread\<close>). The steps are those of the mutex, the condition variable
  and the queue. What a task does to the state all tasks share is the parameter \<open>run\<close>.
\<close>

section \<open>State\<close>

definition THREAD_POOL_SIZE :: nat where
  "THREAD_POOL_SIZE = 4"

text \<open>A worker wants the mutex, evaluates the predicate of its wait, sleeps in it, or runs a task.\<close>

datatype 't worker_pc = W_Lock | W_Test | W_Asleep | W_Run 't

text \<open>A connection's thread is in \<open>recv\<close>, about to push, or about to notify.\<close>

datatype 't client_pc = C_Recv | C_Push 't | C_Notify

text \<open>\<open>enqueued\<close> and \<open>completed\<close> are ghosts: the tasks in the order they were pushed and finished.\<close>

record ('t, 'w) pool =
  worker_at :: "nat \<Rightarrow> 't worker_pc"
  client_at :: "nat \<Rightarrow> 't client_pc"
  mtx_owner :: "nat option"
  task_queue :: "'t list"
  shared :: 'w
  enqueued :: "'t list"
  completed :: "'t list"

definition pool_start :: "'w \<Rightarrow> ('t, 'w) pool" where
  "pool_start w =
     \<lparr>worker_at = (\<lambda>i. W_Lock), client_at = (\<lambda>c. C_Recv), mtx_owner = None, task_queue = [],
      shared = w, enqueued = [], completed = []\<rparr>"

section \<open>Steps\<close>

text \<open>
  The push happens under the lock, in a scope that contains nothing else. A worker's lock is released
  only by its wait and at the end of the loop body, behind the call of the task. \<open>notify_one\<close> wakes
  one sleeping worker if there is one.
\<close>

inductive pool_arrival :: "('t, 'w) pool \<Rightarrow> ('t, 'w) pool \<Rightarrow> bool" where
  receive: "client_at s c = C_Recv \<Longrightarrow>
    pool_arrival s (s\<lparr>client_at := (client_at s)(c := C_Push t)\<rparr>)"
| push: "client_at s c = C_Push t \<Longrightarrow> mtx_owner s = None \<Longrightarrow>
    pool_arrival s (s\<lparr>client_at := (client_at s)(c := C_Notify),
      task_queue := task_queue s @ [t], enqueued := enqueued s @ [t]\<rparr>)"

text \<open>A sleeping worker may also wake up spuriously.\<close>

inductive pool_spurious :: "('t, 'w) pool \<Rightarrow> ('t, 'w) pool \<Rightarrow> bool" where
  spurious: "i < THREAD_POOL_SIZE \<Longrightarrow> worker_at s i = W_Asleep \<Longrightarrow>
    pool_spurious s (s\<lparr>worker_at := (worker_at s)(i := W_Lock)\<rparr>)"

text \<open>What the pool does on its own, once a task is queued.\<close>

inductive pool_work :: "('t \<Rightarrow> 'w \<Rightarrow> 'w) \<Rightarrow> ('t, 'w) pool \<Rightarrow> ('t, 'w) pool \<Rightarrow> bool"
  for run where
  notify: "client_at s c = C_Notify \<Longrightarrow> i < THREAD_POOL_SIZE \<Longrightarrow> worker_at s i = W_Asleep \<Longrightarrow>
    pool_work run s (s\<lparr>client_at := (client_at s)(c := C_Recv),
      worker_at := (worker_at s)(i := W_Lock)\<rparr>)"
| notify_none: "client_at s c = C_Notify \<Longrightarrow> \<forall>i < THREAD_POOL_SIZE. worker_at s i \<noteq> W_Asleep \<Longrightarrow>
    pool_work run s (s\<lparr>client_at := (client_at s)(c := C_Recv)\<rparr>)"
| acquire: "i < THREAD_POOL_SIZE \<Longrightarrow> worker_at s i = W_Lock \<Longrightarrow> mtx_owner s = None \<Longrightarrow>
    pool_work run s (s\<lparr>worker_at := (worker_at s)(i := W_Test), mtx_owner := Some i\<rparr>)"
| sleep: "i < THREAD_POOL_SIZE \<Longrightarrow> worker_at s i = W_Test \<Longrightarrow> task_queue s = [] \<Longrightarrow>
    pool_work run s (s\<lparr>worker_at := (worker_at s)(i := W_Asleep), mtx_owner := None\<rparr>)"
| take_task: "i < THREAD_POOL_SIZE \<Longrightarrow> worker_at s i = W_Test \<Longrightarrow> task_queue s = t # ts \<Longrightarrow>
    pool_work run s (s\<lparr>worker_at := (worker_at s)(i := W_Run t), task_queue := ts\<rparr>)"
| finish: "i < THREAD_POOL_SIZE \<Longrightarrow> worker_at s i = W_Run t \<Longrightarrow>
    pool_work run s (s\<lparr>worker_at := (worker_at s)(i := W_Lock), mtx_owner := None,
      shared := run t (shared s), completed := completed s @ [t]\<rparr>)"

inductive_cases pool_arrivalE: "pool_arrival s t"
inductive_cases pool_spuriousE: "pool_spurious s t"
inductive_cases pool_workE: "pool_work run s t"

definition pool_step :: "('t \<Rightarrow> 'w \<Rightarrow> 'w) \<Rightarrow> ('t, 'w) pool \<Rightarrow> ('t, 'w) pool \<Rightarrow> bool" where
  "pool_step run s t \<longleftrightarrow> pool_arrival s t \<or> pool_spurious s t \<or> pool_work run s t"

definition pool_reachable :: "('t \<Rightarrow> 'w \<Rightarrow> 'w) \<Rightarrow> 'w \<Rightarrow> ('t, 'w) pool \<Rightarrow> bool" where
  "pool_reachable run w s \<longleftrightarrow> reachable (\<lambda>s. s = pool_start w) (pool_step run) s"

section \<open>Invariants\<close>

definition holds_lock :: "'t worker_pc \<Rightarrow> bool" where
  "holds_lock pc \<longleftrightarrow> (case pc of W_Test \<Rightarrow> True | W_Run t \<Rightarrow> True | _ \<Rightarrow> False)"

lemma holds_lock_simps [simp]:
  "holds_lock W_Test" "holds_lock (W_Run t)" "\<not> holds_lock W_Lock" "\<not> holds_lock W_Asleep"
  by (simp_all add: holds_lock_def)

definition lock_inv :: "('t, 'w) pool \<Rightarrow> bool" where
  "lock_inv s \<longleftrightarrow>
     (\<forall>i < THREAD_POOL_SIZE. holds_lock (worker_at s i) \<longleftrightarrow> mtx_owner s = Some i) \<and>
     (\<forall>i. mtx_owner s = Some i \<longrightarrow> i < THREAD_POOL_SIZE)"

text \<open>The task being run, if there is one.\<close>

definition running :: "('t, 'w) pool \<Rightarrow> 't list" where
  "running s =
     (case mtx_owner s of
        None \<Rightarrow> []
      | Some i \<Rightarrow> (case worker_at s i of W_Run t \<Rightarrow> [t] | _ \<Rightarrow> []))"

definition serial_inv :: "('t \<Rightarrow> 'w \<Rightarrow> 'w) \<Rightarrow> 'w \<Rightarrow> ('t, 'w) pool \<Rightarrow> bool" where
  "serial_inv run w s \<longleftrightarrow>
     completed s @ running s @ task_queue s = enqueued s \<and> shared s = fold run (completed s) w"

definition awake_inv :: "('t, 'w) pool \<Rightarrow> bool" where
  "awake_inv s \<longleftrightarrow>
     (task_queue s \<noteq> [] \<longrightarrow>
       (\<exists>i < THREAD_POOL_SIZE. worker_at s i \<noteq> W_Asleep) \<or> (\<exists>c. client_at s c = C_Notify))"

lemma lock_inv_step:
  assumes "pool_step run s t" and "lock_inv s"
  shows "lock_inv t"
  using assms unfolding pool_step_def
  by (elim disjE pool_arrivalE pool_spuriousE pool_workE;
      auto simp: lock_inv_def split: if_splits)

lemma owner_of_test:
  "lock_inv s \<Longrightarrow> i < THREAD_POOL_SIZE \<Longrightarrow> holds_lock (worker_at s i) \<Longrightarrow> mtx_owner s = Some i"
  by (simp add: lock_inv_def)

lemma running_of_owner:
  "mtx_owner s = Some i \<Longrightarrow> worker_at s i = W_Run t \<Longrightarrow> running s = [t]"
  "mtx_owner s = Some i \<Longrightarrow> worker_at s i = W_Test \<Longrightarrow> running s = []"
  by (simp_all add: running_def)

lemma running_unowned:
  "lock_inv s \<Longrightarrow> i < THREAD_POOL_SIZE \<Longrightarrow> \<not> holds_lock (worker_at s i) \<Longrightarrow> mtx_owner s \<noteq> Some i"
  by (auto simp: lock_inv_def)

lemma serial_inv_work:
  "pool_work run s t \<Longrightarrow> lock_inv s \<Longrightarrow> serial_inv run w s \<Longrightarrow> serial_inv run w t"
proof (induction rule: pool_work.induct)
  case (take_task i s t ts)
  with owner_of_test [of s i] running_of_owner(2) [of s i] show ?case
    by (auto simp: serial_inv_def running_def)
next
  case (finish i s t)
  with owner_of_test [of s i] running_of_owner(1) [of s i] show ?case
    by (auto simp: serial_inv_def running_def)
next
  case (sleep i s)
  with owner_of_test [of s i] running_of_owner(2) [of s i] show ?case
    by (auto simp: serial_inv_def running_def)
next
  case (notify s c i)
  with running_unowned [of s i] show ?case
    by (auto simp: serial_inv_def running_def split: option.splits)
qed (auto simp: serial_inv_def running_def split: option.splits)

lemma serial_inv_arrival: "pool_arrival s t \<Longrightarrow> serial_inv run w s \<Longrightarrow> serial_inv run w t"
  by (induction rule: pool_arrival.induct)
    (auto simp: serial_inv_def running_def split: option.splits)

lemma serial_inv_spurious:
  "pool_spurious s t \<Longrightarrow> lock_inv s \<Longrightarrow> serial_inv run w s \<Longrightarrow> serial_inv run w t"
proof (induction rule: pool_spurious.induct)
  case (spurious i s)
  with running_unowned [of s i] show ?case
    by (auto simp: serial_inv_def running_def split: option.splits)
qed

lemma serial_inv_step:
  "pool_step run s t \<Longrightarrow> lock_inv s \<Longrightarrow> serial_inv run w s \<Longrightarrow> serial_inv run w t"
  by (auto simp: pool_step_def
      intro: serial_inv_arrival serial_inv_spurious serial_inv_work)

lemma awake_inv_work: "pool_work run s t \<Longrightarrow> awake_inv s \<Longrightarrow> awake_inv t"
proof (induction rule: pool_work.induct)
  case (notify_none s c)
  then have "0 < THREAD_POOL_SIZE \<and> worker_at s 0 \<noteq> W_Asleep"
    by (simp add: THREAD_POOL_SIZE_def)
  then show ?case by (auto simp: awake_inv_def)
qed (auto simp: awake_inv_def)

lemma awake_inv_arrival: "pool_arrival s t \<Longrightarrow> awake_inv s \<Longrightarrow> awake_inv t"
proof (induction rule: pool_arrival.induct)
  case (receive s c t)
  then have "\<exists>c'. c' \<noteq> c \<and> client_at s c' = C_Notify" if "\<exists>c'. client_at s c' = C_Notify"
    using that by (metis client_pc.distinct(3))
  with receive show ?case
    by (fastforce simp: awake_inv_def)
qed (auto simp: awake_inv_def)

lemma awake_inv_spurious: "pool_spurious s t \<Longrightarrow> awake_inv s \<Longrightarrow> awake_inv t"
  by (induction rule: pool_spurious.induct) (auto simp: awake_inv_def)

lemma awake_inv_step: "pool_step run s t \<Longrightarrow> awake_inv s \<Longrightarrow> awake_inv t"
  by (auto simp: pool_step_def intro: awake_inv_arrival awake_inv_spurious awake_inv_work)

interpretation pool: invariant_system "\<lambda>s. s = pool_start w" "pool_step run"
  "\<lambda>s. lock_inv s \<and> serial_inv run w s \<and> awake_inv s"
proof
  show "lock_inv s \<and> serial_inv run w s \<and> awake_inv s" if "s = pool_start w" for s
    using that
    by (simp add: pool_start_def lock_inv_def serial_inv_def awake_inv_def running_def)
qed (auto intro: lock_inv_step serial_inv_step awake_inv_step)

lemmas pool_invariants = pool.reachable_inv [folded pool_reachable_def]


section \<open>Progress\<close>

lemma notify_possible:
  assumes "client_at s c = C_Notify"
  shows "\<exists>t. pool_work run s t"
proof (cases "\<exists>i < THREAD_POOL_SIZE. worker_at s i = W_Asleep")
  case True
  then show ?thesis
    using assms by (blast intro: notify)
next
  case False
  then show ?thesis
    using assms by (blast intro: notify_none)
qed

lemma worker_possible:
  assumes "lock_inv s" and "i < THREAD_POOL_SIZE" and "worker_at s i \<noteq> W_Asleep"
    and "task_queue s \<noteq> []"
  shows "\<exists>t. pool_work run s t"
proof -
  have holder: "\<exists>t. pool_work run s t"
    if "j < THREAD_POOL_SIZE" "holds_lock (worker_at s j)" for j
  proof (cases "worker_at s j")
    case W_Test
    obtain x xs where "task_queue s = x # xs"
      using assms(4) by (cases "task_queue s") auto
    with W_Test that show ?thesis
      by (blast intro: take_task)
  next
    case (W_Run x)
    with that show ?thesis
      by (blast intro: finish)
  qed (use that in simp_all)
  show ?thesis
  proof (cases "mtx_owner s")
    case None
    show ?thesis
    proof (cases "holds_lock (worker_at s i)")
      case False
      then have "worker_at s i = W_Lock"
        using assms(3) by (cases "worker_at s i") simp_all
      with None assms(2) show ?thesis
        by (blast intro: acquire)
    qed (use holder assms(2) in blast)
  next
    case (Some j)
    then show ?thesis
      using assms(1) holder by (auto simp: lock_inv_def)
  qed
qed

section \<open>Coming to rest\<close>

text \<open>How many steps the pool still takes by itself: a queued task costs taking and running it and
  going back to sleep, a notification wakes one worker.\<close>

fun worker_weight :: "'t worker_pc \<Rightarrow> nat" where
  "worker_weight W_Asleep = 0"
| "worker_weight W_Test = 1"
| "worker_weight W_Lock = 2"
| "worker_weight (W_Run t) = 3"

definition notifying :: "('t, 'w) pool \<Rightarrow> nat set" where
  "notifying s = {c. client_at s c = C_Notify}"

definition pool_work_left :: "('t, 'w) pool \<Rightarrow> nat" where
  "pool_work_left s =
     (\<Sum>i < THREAD_POOL_SIZE. worker_weight (worker_at s i)) + 3 * length (task_queue s) +
     3 * card (notifying s)"

lemma sum_upd:
  fixes f :: "'a \<Rightarrow> nat"
  assumes "i < (n :: nat)"
  shows "(\<Sum>j < n. f ((g(i := x)) j)) + f (g i) = (\<Sum>j < n. f (g j)) + f x"
proof -
  have "(\<Sum>j \<in> {..<n} - {i}. f ((g(i := x)) j)) = (\<Sum>j \<in> {..<n} - {i}. f (g j))"
    by (rule sum.cong) auto
  then show ?thesis
    using assms sum.remove [of "{..<n}" i "\<lambda>j. f ((g(i := x)) j)"]
      sum.remove [of "{..<n}" i "\<lambda>j. f (g j)"] by simp
qed

lemma notified:
  assumes "client_at s c = C_Notify" and "finite (notifying s)"
  shows "{c'. ((client_at s)(c := C_Recv)) c' = C_Notify} = notifying s - {c}"
    and "Suc (card (notifying s - {c})) = card (notifying s)"
proof -
  have "c \<in> notifying s"
    using assms(1) by (simp add: notifying_def)
  then show "{c'. ((client_at s)(c := C_Recv)) c' = C_Notify} = notifying s - {c}"
    "Suc (card (notifying s - {c})) = card (notifying s)"
    using assms(2) card_Suc_Diff1 [of "notifying s" c] by (auto simp: notifying_def)
qed

lemma pool_work_smaller:
  assumes "pool_work run s t" and "finite (notifying s)"
  shows "pool_work_left t < pool_work_left s"
  using assms
proof (induction rule: pool_work.induct)
  case (notify s c i)
  with sum_upd [of i THREAD_POOL_SIZE worker_weight "worker_at s" W_Lock] notified [of s c]
  show ?case by (simp add: pool_work_left_def notifying_def)
next
  case (notify_none s c)
  with notified [of s c] show ?case
    by (simp add: pool_work_left_def notifying_def)
next
  case (acquire i s)
  with sum_upd [of i THREAD_POOL_SIZE worker_weight "worker_at s" W_Test] show ?case
    by (simp add: pool_work_left_def notifying_def)
next
  case (sleep i s)
  with sum_upd [of i THREAD_POOL_SIZE worker_weight "worker_at s" W_Asleep] show ?case
    by (simp add: pool_work_left_def notifying_def)
next
  case (take_task i s t ts)
  with sum_upd [of i THREAD_POOL_SIZE worker_weight "worker_at s" "W_Run t"] show ?case
    by (simp add: pool_work_left_def notifying_def)
next
  case (finish i s t)
  with sum_upd [of i THREAD_POOL_SIZE worker_weight "worker_at s" W_Lock] show ?case
    by (simp add: pool_work_left_def notifying_def)
qed

text \<open>Only finitely many connections are between \<open>recv\<close> and the notification at a time.\<close>

lemma notifying_step: "pool_step run s t \<Longrightarrow> \<exists>c. notifying t \<subseteq> insert c (notifying s)"
  unfolding pool_step_def
  by (elim disjE pool_arrivalE pool_spuriousE pool_workE) (auto simp: notifying_def split: if_splits)

interpretation announced: invariant_system "\<lambda>s. s = pool_start w" "pool_step run"
  "\<lambda>s. finite (notifying s)"
proof
  show "finite (notifying s)" if "s = pool_start w" for s
    using that by (simp add: pool_start_def notifying_def)
  show "finite (notifying t)" if "pool_step run s t" "finite (notifying s)" for s t
    using notifying_step [OF that(1)] that(2) by (auto intro: finite_subset)
qed

interpretation settling: settling_system "pool_work run" "pool_reachable run w" pool_work_left
proof
  show "pool_reachable run w t" if "pool_work run s t" "pool_reachable run w s" for s t
    using that(2) unfolding pool_reachable_def
    by (rule reach_step) (simp add: pool_step_def that(1))
  show "pool_work_left t < pool_work_left s" if "pool_work run s t" "pool_reachable run w s" for s t
    by (rule pool_work_smaller [OF that(1) announced.reachable_inv [folded pool_reachable_def, OF that(2)]])
qed

lemma pool_work_left_bound: "pool_work_left s \<le> 12 + 3 * length (task_queue s) + 3 * card (notifying s)"
proof -
  have "(\<Sum>i < THREAD_POOL_SIZE. worker_weight (worker_at s i)) \<le> (\<Sum>i < THREAD_POOL_SIZE. 3)"
  proof (rule sum_mono)
    show "worker_weight (worker_at s i) \<le> 3" for i
      by (cases "worker_at s i") simp_all
  qed
  then show ?thesis
    by (simp add: pool_work_left_def THREAD_POOL_SIZE_def)
qed

section \<open>A concrete execution\<close>

text \<open>One task is received, pushed, announced to no sleeping worker and taken by the first worker.\<close>

definition one_queued :: "'t \<Rightarrow> 'w \<Rightarrow> ('t, 'w) pool" where
  "one_queued t w =
     (pool_start w)\<lparr>client_at := (\<lambda>c. C_Recv)(0 := C_Notify), task_queue := [t], enqueued := [t]\<rparr>"

definition one_running :: "'t \<Rightarrow> 'w \<Rightarrow> ('t, 'w) pool" where
  "one_running t w =
     (pool_start w)\<lparr>worker_at := (\<lambda>i. W_Lock)(0 := W_Run t), mtx_owner := Some 0, enqueued := [t]\<rparr>"

lemma pool_reachable_step: "pool_reachable run w s \<Longrightarrow> pool_step run s t \<Longrightarrow> pool_reachable run w t"
  unfolding pool_reachable_def by (rule reach_step)

lemma pool_reachable_work: "pool_reachable run w s \<Longrightarrow> pool_work run s t \<Longrightarrow> pool_reachable run w t"
  by (erule pool_reachable_step) (simp add: pool_step_def)

lemma one_queued_reachable: "pool_reachable run w (one_queued t w)"
proof -
  let ?s0 = "pool_start w :: ('a, 'b) pool"
  let ?s1 = "?s0\<lparr>client_at := (client_at ?s0)(0 := C_Push t)\<rparr>"
  have "pool_reachable run w ?s0"
    unfolding pool_reachable_def by (rule reach_start) (rule refl)
  then have "pool_reachable run w ?s1"
    by (rule pool_reachable_step)
       (unfold pool_step_def, rule disjI1, rule receive, simp add: pool_start_def)
  moreover have "pool_arrival ?s1 (?s1\<lparr>client_at := (client_at ?s1)(0 := C_Notify),
      task_queue := task_queue ?s1 @ [t], enqueued := enqueued ?s1 @ [t]\<rparr>)"
    by (rule push) (simp_all add: pool_start_def)
  ultimately show ?thesis
    using pool_reachable_step [of run w ?s1] by (simp add: pool_step_def one_queued_def pool_start_def)
qed

lemma one_running_reachable: "pool_reachable run w (one_running t w)"
proof -
  let ?s2 = "one_queued t w :: ('a, 'b) pool"
  let ?s3 = "?s2\<lparr>client_at := (client_at ?s2)(0 := C_Recv)\<rparr>"
  let ?s4 = "?s3\<lparr>worker_at := (worker_at ?s3)(0 := W_Test), mtx_owner := Some 0\<rparr>"
  let ?s5 = "?s4\<lparr>worker_at := (worker_at ?s4)(0 := W_Run t), task_queue := []\<rparr>"
  have 1: "pool_work run ?s2 ?s3"
    by (rule notify_none) (simp_all add: one_queued_def pool_start_def)
  have 2: "pool_work run ?s3 ?s4"
    by (rule acquire) (simp_all add: one_queued_def pool_start_def THREAD_POOL_SIZE_def)
  have 3: "pool_work run ?s4 ?s5"
    by (rule take_task) (simp_all add: one_queued_def pool_start_def THREAD_POOL_SIZE_def)
  have "pool_reachable run w ?s5"
    by (intro pool_reachable_work [OF _ 3] pool_reachable_work [OF _ 2] pool_reachable_work [OF _ 1]
        one_queued_reachable)
  moreover have "?s5 = one_running t w"
    by (simp add: one_queued_def one_running_def pool_start_def fun_eq_iff)
  ultimately show ?thesis by simp
qed

definition one_finished :: "('t \<Rightarrow> 'w \<Rightarrow> 'w) \<Rightarrow> 't \<Rightarrow> 'w \<Rightarrow> ('t, 'w) pool" where
  "one_finished run t w = (pool_start (run t w))\<lparr>enqueued := [t], completed := [t]\<rparr>"

lemma one_finished_reachable: "pool_reachable run w (one_finished run t w)"
proof -
  have "pool_work run (one_running t w) ((one_running t w)
      \<lparr>worker_at := (worker_at (one_running t w))(0 := W_Lock), mtx_owner := None,
       shared := run t (shared (one_running t w)),
       completed := completed (one_running t w) @ [t]\<rparr>)"
    by (rule finish) (simp_all add: one_running_def THREAD_POOL_SIZE_def)
  then have "pool_work run (one_running t w) (one_finished run t w)"
    by (simp add: one_running_def one_finished_def pool_start_def fun_upd_idem)
  with one_running_reachable show ?thesis
    by (rule pool_reachable_work)
qed

section \<open>A task that does not return\<close>

text \<open>Steps in which the running task \<open>t\<close> does not return.\<close>

definition held_step :: "('t \<Rightarrow> 'w \<Rightarrow> 'w) \<Rightarrow> nat \<Rightarrow> ('t, 'w) pool \<Rightarrow> ('t, 'w) pool \<Rightarrow> bool" where
  "held_step run i s s' \<longleftrightarrow> pool_step run s s' \<and> worker_at s' i = worker_at s i"

definition held_by :: "nat \<Rightarrow> 't \<Rightarrow> 't list \<Rightarrow> 'w \<Rightarrow> ('t, 'w) pool \<Rightarrow> bool" where
  "held_by i t done_tasks w s \<longleftrightarrow>
     lock_inv s \<and> i < THREAD_POOL_SIZE \<and> worker_at s i = W_Run t \<and>
     completed s = done_tasks \<and> shared s = w"

lemma held_by_step:
  assumes "held_step run i s s'" and "held_by i t ts w s"
  shows "held_by i t ts w s'"
proof -
  have step: "pool_step run s s'" "worker_at s' i = W_Run t" "lock_inv s" "mtx_owner s = Some i"
    using assms owner_of_test [of s i] by (auto simp: held_step_def held_by_def)
  have "completed s' = completed s \<and> shared s' = shared s"
    using step(1) unfolding pool_step_def
  proof (elim disjE)
    assume "pool_work run s s'"
    then show ?thesis
    proof cases
      case (finish j u)
      then have "j = i"
        using step(3,4) owner_of_test [of s j] by simp
      with finish step(2) show ?thesis by simp
    qed auto
  qed (auto elim: pool_arrivalE pool_spuriousE)
  then show ?thesis
    using assms(2) lock_inv_step [OF step(1,3)] step(2) by (simp add: held_by_def)
qed

interpretation held: invariant_system "held_by i t ts w" "held_step run i" "held_by i t ts w"
  by unfold_locales (auto intro: held_by_step)

section \<open>Properties\<close>

text \<open>The pool runs one task at a time: the lock is held while a task runs, so two workers are never
  inside a task together, and what the tasks share is what running the completed ones in sequence
  gives. The four workers add no parallelism.\<close>

lemma tasks_run_one_at_a_time:
  assumes "pool_reachable run w s" and "i < THREAD_POOL_SIZE" and "j < THREAD_POOL_SIZE"
    and "worker_at s i = W_Run t" and "worker_at s j = W_Run u"
  shows "i = j \<and> t = u \<and> mtx_owner s = Some i"
proof -
  have "lock_inv s"
    using pool_invariants [OF assms(1)] by simp
  then show ?thesis
    using owner_of_test [of s i] owner_of_test [of s j] assms(2-5) by simp
qed

text \<open>Tasks are served first in, first out, and none is lost or run twice: the completed tasks, the
  running one and the queued ones are, in this order, the tasks enqueued so far, and the shared state
  is the one a single thread would have reached on the completed tasks.\<close>

lemma pool_serves_in_order:
  assumes "pool_reachable run w s"
  shows "completed s @ running s @ task_queue s = enqueued s \<and> shared s = fold run (completed s) w"
  using pool_invariants [OF assms] by (simp add: serial_inv_def)

text \<open>No wake-up of a worker is lost: whenever a task is queued, the pool can take a step
  of its own (a notification or a step of a worker), without a further client message and without a
  spurious wake-up. A task that runs can return.\<close>

lemma queued_task_not_stuck:
  assumes "pool_reachable run w s" and "task_queue s \<noteq> []"
  shows "\<exists>t. pool_work run s t"
proof -
  have "lock_inv s" "awake_inv s"
    using pool_invariants [OF assms(1)] by simp_all
  with assms(2) show ?thesis
    by (auto simp: awake_inv_def intro: worker_possible notify_possible)
qed

lemma running_task_can_return:
  assumes "pool_reachable run w s" and "running s \<noteq> []"
  shows "\<exists>t. pool_work run s t"
proof -
  have "lock_inv s"
    using pool_invariants [OF assms(1)] by simp
  with assms(2) obtain i t where "i < THREAD_POOL_SIZE" "worker_at s i = W_Run t"
    by (auto simp: running_def lock_inv_def split: option.splits worker_pc.splits)
  then show ?thesis
    by (blast intro: finish)
qed

lemma pool_at_rest:
  assumes "pool_reachable run w s" and "at_rest (pool_work run) s"
  shows "completed s = enqueued s \<and> shared s = fold run (enqueued s) w"
proof -
  have "task_queue s = []" "running s = []"
    using queued_task_not_stuck [OF assms(1)] running_task_can_return [OF assms(1)] assms(2)
    by (auto simp: at_rest_def)
  then show ?thesis
    using pool_invariants [OF assms(1)] by (simp add: serial_inv_def)
qed

lemma pool_works_reachable:
  assumes "(pool_work run)\<^sup>*\<^sup>* s t" and "pool_reachable run w s"
  shows "pool_reachable run w t"
proof -
  have "(pool_step run)\<^sup>*\<^sup>* s t"
    by (rule mono_rtranclp [rule_format, OF _ assms(1)]) (simp add: pool_step_def)
  then show ?thesis
    using assms(2) unfolding pool_reachable_def by (rule_tac reachable_run)
qed

lemma pool_work_enqueued: "(pool_work run)\<^sup>*\<^sup>* s t \<Longrightarrow> enqueued t = enqueued s"
  by (induction rule: rtranclp_induct) (auto elim: pool_workE)

text \<open>The pool serves everything it is given: left to itself, from whatever state it has reached, it
  takes at most twelve steps and three for every queued task and every pending notification, however its
  threads are scheduled, and where no step is left every task enqueued has been completed, with the effect
  of running them in order. No wake-up is lost and none has to be spurious.\<close>

lemma pool_completes_all_tasks:
  assumes "pool_reachable run w s"
  shows "(\<forall>n t. (pool_work run ^^ n) s t \<longrightarrow>
      n \<le> 12 + 3 * length (task_queue s) + 3 * card {c. client_at s c = C_Notify}) \<and>
    (\<exists>t. (pool_work run)\<^sup>*\<^sup>* s t \<and> at_rest (pool_work run) t) \<and>
    (\<forall>t. (pool_work run)\<^sup>*\<^sup>* s t \<longrightarrow> at_rest (pool_work run) t \<longrightarrow>
      completed t = enqueued s \<and> shared t = fold run (enqueued s) w)"
proof (intro conjI allI impI)
  show "n \<le> 12 + 3 * length (task_queue s) + 3 * card {c. client_at s c = C_Notify}"
    if "(pool_work run ^^ n) s t" for n t
    using settling.run_bounded [OF that assms] pool_work_left_bound [of s]
    by (simp add: notifying_def)
  show "\<exists>t. (pool_work run)\<^sup>*\<^sup>* s t \<and> at_rest (pool_work run) t"
    by (rule settling.comes_to_rest [OF assms])
  fix t
  assume run: "(pool_work run)\<^sup>*\<^sup>* s t" "at_rest (pool_work run) t"
  from pool_at_rest [OF pool_works_reachable [OF run(1) assms] run(2)] pool_work_enqueued [OF run(1)] show
    "completed t = enqueued s" "shared t = fold run (enqueued s) w" by simp_all
qed

text \<open>A task that does not return stops the whole server: whatever the clients and the other workers
  do, as long as the worker that runs it stays inside it, no other task is run and the shared state does
  not change.\<close>

lemma running_task_blocks_pool:
  assumes "pool_reachable run w s" and "i < THREAD_POOL_SIZE" and "worker_at s i = W_Run t"
    and "(held_step run i)\<^sup>*\<^sup>* s s'"
  shows "completed s' = completed s \<and> shared s' = shared s \<and> running s' = [t]"
proof -
  have "held_by i t (completed s) (shared s) s"
    using pool_invariants [OF assms(1)] assms(2,3) by (simp add: held_by_def)
  then have "held_by i t (completed s) (shared s) s'"
    by (rule held.run_inv [OF assms(4)])
  then show ?thesis
    using owner_of_test [of s' i] by (auto simp: held_by_def running_def)
qed

end
