(* ===== verification/Connection.thy ===== *)
theory Connection
  imports Malformed_Input Worker_Pool
begin

text \<open>
  A client's connection (\<open>client_handler\<close> of \<^verbatim>\<open>src/client_handler.cpp\<close>): every successful \<open>recv\<close>
  becomes a task of the worker pool, and a task is one run of the parser over the received buffer. The
  exchange of the replies between the two threads of a task is the subject of \<open>Comm_Protocol\<close>; here
  a task is the handler's outcome.
\<close>

section \<open>Receiving\<close>

definition RECV_BUFFER_SIZE :: nat where
  "RECV_BUFFER_SIZE = 4096"

text \<open>
  \<open>std::string(rec_buf, 0, bytesReceived)\<close> first makes a string of the zeroed buffer up to its first
  NUL, and then takes at most \<open>bytesReceived\<close> characters of it. A full buffer without a NUL is read
  behind its end.
\<close>

definition received_string :: "string \<Rightarrow> string result" where
  "received_string bytes =
     (let rec_buf = bytes @ replicate (RECV_BUFFER_SIZE - length bytes) NUL
      in if NUL \<in> set rec_buf
         then Inr (take (length bytes) (takeWhile (\<lambda>c. c \<noteq> NUL) rec_buf))
         else Inl Undefined_Behaviour)"

text \<open>What \<open>recv\<close> can return: -1, 0, or a number of bytes.\<close>

datatype recv_event = Recv_Error | Recv_Closed | Recv_Data string

text \<open>
  \<open>get_recv_str\<close> of \<^verbatim>\<open>src/utils.cpp\<close>, which is not called any more: the same conversion of a buffer
  that is not zeroed, with a length of -1, as an unsigned number, when \<open>recv\<close> fails. \<open>old\<close> is what the
  stack held.
\<close>

definition get_recv_str :: "string \<Rightarrow> recv_event \<Rightarrow> string result" where
  "get_recv_str old e =
     (let (rec_buf, bytesReceived) =
        (case e of
           Recv_Error \<Rightarrow> (old, npos)
         | Recv_Closed \<Rightarrow> (old, 0)
         | Recv_Data bytes \<Rightarrow> (bytes @ drop (length bytes) old, word_of_nat (length bytes)))
      in if NUL \<in> set rec_buf
         then Inr (take (unat bytesReceived) (takeWhile (\<lambda>c. c \<noteq> NUL) rec_buf))
         else Inl Undefined_Behaviour)"

text \<open>The loop, over the results of \<open>recv\<close> so far: the tasks enqueued and how the loop stands.\<close>

fun client_handler :: "int \<Rightarrow> recv_event list \<Rightarrow> (int \<times> string) list \<times> unit result" where
  "client_handler client_fd [] = ([], Inr ())"
| "client_handler client_fd (Recv_Error # es) = ([], Inr ())"
| "client_handler client_fd (Recv_Closed # es) = ([], Inr ())"
| "client_handler client_fd (Recv_Data bytes # es) =
     (case received_string bytes of
        Inl e \<Rightarrow> ([], Inl e)
      | Inr recv_str \<Rightarrow>
          let (tasks, r) = client_handler client_fd es in ((client_fd, recv_str) # tasks, r))"

section \<open>A task\<close>

text \<open>The captured descriptor and buffer; nothing runs after an exception has ended the process.\<close>

definition run_task :: "nat \<Rightarrow> environment \<Rightarrow> int \<times> string \<Rightarrow> outcome \<Rightarrow> outcome" where
  "run_task depth env task o1 = then_do o1 (serve_input depth env (fst task) (snd task))"

section \<open>Facts\<close>

lemma received_string_eq:
  assumes "length bytes \<le> RECV_BUFFER_SIZE"
  shows "received_string bytes =
    (if NUL \<in> set bytes \<or> length bytes < RECV_BUFFER_SIZE
     then Inr (takeWhile (\<lambda>c. c \<noteq> NUL) bytes) else Inl Undefined_Behaviour)"
proof (cases "NUL \<in> set bytes")
  case True
  then show ?thesis
    by (simp add: received_string_def length_takeWhile_le)
next
  case False
  then have all: "takeWhile (\<lambda>c. c \<noteq> NUL) bytes = bytes"
    by (auto simp: takeWhile_eq_all_conv)
  show ?thesis
    using False assms
    by (simp add: received_string_def takeWhile_append takeWhile_replicate all)
qed

text \<open>The older function agrees with the conversion in use on a zeroed buffer, and hands the stack's
  old contents on as received when \<open>recv\<close> fails.\<close>

lemma get_recv_str_zeroed:
  "length bytes \<le> RECV_BUFFER_SIZE \<Longrightarrow>
   get_recv_str (replicate RECV_BUFFER_SIZE NUL) (Recv_Data bytes) = received_string bytes"
  by (simp add: get_recv_str_def received_string_def RECV_BUFFER_SIZE_def Let_def)

lemma get_recv_str_error:
  assumes "length old = RECV_BUFFER_SIZE" and "NUL \<in> set old"
  shows "get_recv_str old Recv_Error = Inr (takeWhile (\<lambda>c. c \<noteq> NUL) old)"
proof -
  have "unat npos = 2 ^ 64 - 1"
    by (simp add: npos_def unsigned_minus_1_eq_mask mask_eq_exp_minus_1)
  then have "length (takeWhile (\<lambda>c. c \<noteq> NUL) old) \<le> unat npos"
    using length_takeWhile_le [of "\<lambda>c. c \<noteq> NUL" old] assms(1)
    by (simp add: RECV_BUFFER_SIZE_def)
  with assms(2) show ?thesis
    by (simp add: get_recv_str_def)
qed

lemma received_string_text:
  "length bytes < RECV_BUFFER_SIZE \<Longrightarrow> NUL \<notin> set bytes \<Longrightarrow> received_string bytes = Inr bytes"
  by (auto simp: received_string_eq takeWhile_eq_all_conv [THEN iffD2])

lemma client_handler_texts:
  "list_all (\<lambda>b. length b < RECV_BUFFER_SIZE \<and> NUL \<notin> set b) buffers \<Longrightarrow>
   client_handler fd (map Recv_Data buffers) = (map (Pair fd) buffers, Inr ())"
  by (induction buffers) (simp_all add: received_string_text)

lemma then_do_return [simp]: "then_do p (Pair (Inr ())) = p"
  by (cases "(p, Pair (Inr ()) :: world \<Rightarrow> outcome)" rule: then_do.cases) auto

lemma then_do_assoc: "then_do (then_do p f) g = then_do p (\<lambda>w. then_do (f w) g)"
  by (cases "(p, f)" rule: then_do.cases) auto

lemma fold_run_task:
  "fold (run_task depth env) (map (Pair fd) buffers) p = then_do p (serve_all depth env fd buffers)"
proof (induction buffers arbitrary: p)
  case Nil
  have "serve_all depth env fd [] = Pair (Inr ())"
    by (intro ext) simp
  then show ?case by simp
next
  case (Cons b bs)
  have "serve_all depth env fd (b # bs) =
      (\<lambda>w. then_do (serve_input depth env fd b w) (serve_all depth env fd bs))"
    by (intro ext) simp
  with Cons show ?case
    by (simp add: run_task_def then_do_assoc)
qed

text \<open>Tasks of any number of clients, in the order they run, are a session of the abstract server.\<close>

lemma run_tasks_session:
  "session_ok (map snd tqs) (store_of (db_handler w)) (clk w) \<Longrightarrow> db_inv (db_handler w) \<Longrightarrow>
   spec_serve_all (map snd tqs) (store_of (db_handler w)) (clk w) = (rs, m, c) \<Longrightarrow>
   \<exists>w'. fold (run_task (Suc d) env) (map (\<lambda>(fd, q). (fd, request_bytes q)) tqs) (Inr (), w) =
       (Inr (), w') \<and> replies w' = replies w @ rs \<and> world_view w' = (m, c)"
proof (induction tqs arbitrary: w rs)
  case Nil
  then show ?case by (simp add: world_view_def)
next
  case (Cons t tqs)
  obtain fd q where t: "t = (fd, q)" by fastforce
  obtain r m1 c1 where 1: "spec_serve q (store_of (db_handler w)) (clk w) = (r, m1, c1)"
    by (rule prod_cases3)
  obtain rs1 m2 c2 where 2: "spec_serve_all (map snd tqs) m1 c1 = (rs1, m2, c2)"
    by (rule prod_cases3)
  from serve_input_request [OF _ Cons.prems(2) 1, of d env fd] Cons.prems(1) t obtain w1 where
    3: "serve_input (Suc d) env fd (request_bytes q) w = (Inr (), w1)"
       "replies w1 = replies w @ [r]" "world_view w1 = (m1, c1)" "db_inv (db_handler w1)"
    by auto
  then have "run_task (Suc d) env (fd, request_bytes q) (Inr (), w) = (Inr (), w1)"
    by (simp add: run_task_def)
  with Cons.IH [of w1 rs1] 2 3 Cons.prems(1,3) 1 t show ?case
    by (auto simp: world_view_def)
qed

section \<open>Properties\<close>

lemma NUL_not_in_header: "NUL \<notin> set k \<Longrightarrow> NUL \<notin> set (set_header k v)"
proof -
  have "NUL \<notin> set (to_string i)" for i
    by (auto simp: to_string_def is_digit_def NUL_def dest: nat_digits_set)
  then show "NUL \<notin> set k \<Longrightarrow> NUL \<notin> set (set_header k v)"
    by (auto simp: set_header_def create_string_reponse_def CRLF_def NUL_def)
qed

text \<open>C27: A store of a value with a NUL byte, sent in one packet, ends the server: the thread of the connection
  drops the rest of the packet at the NUL, so the parser stores and acknowledges what is in front of it
  and then reads behind the end of what is left.\<close>

theorem nul_in_value_ends_server:
  assumes "NUL \<notin> set k" and "NUL \<notin> set v1" and "v = v1 @ NUL # v2"
    and "length (request_bytes (Set k v)) \<le> RECV_BUFFER_SIZE"
  shows "\<exists>input. client_handler fd [Recv_Data (request_bytes (Set k v))] = ([(fd, input)], Inr ()) \<and>
    run_task (Suc d) env (fd, input) (Inr (), w) =
      (Inl Undefined_Behaviour, stored k v1 0 (w\<lparr>is_communicating := True\<rparr>))"
proof -
  have bytes: "request_bytes (Set k v) = (set_header k v @ v1) @ NUL # v2 @ CRLF"
    using assms(3) by (simp flip: set_header_value)
  have "takeWhile (\<lambda>c. c \<noteq> NUL) (request_bytes (Set k v)) = set_header k v @ v1"
    unfolding bytes using NUL_not_in_header [OF assms(1), of v] assms(2)
    by (subst takeWhile_append2) auto
  then have "received_string (request_bytes (Set k v)) = Inr (set_header k v @ v1)"
    using received_string_eq [OF assms(4)] by (simp add: bytes)
  moreover have total: "length (request_bytes (Set k v)) =
      length (set_header k v) + length v1 + length v2 + 3"
    by (simp add: bytes)
  have "length (set_header k v @ v1) < 2 ^ 31" "length v1 \<le> Suc (length v)" "length v < 2 ^ 31 - 2"
    using total assms(4) by (simp_all add: assms(3) RECV_BUFFER_SIZE_def)
  ultimately show ?thesis
    using set_cut_in_value [of v1 v k d env fd w] assms(3) by (simp add: run_task_def)
qed

theorem nul_in_value_ends_server_witness:
  "\<exists>input. client_handler 7 [Recv_Data (request_bytes (Set ''k'' [CHR ''a'', NUL, CHR ''b'']))] =
       ([(7, input)], Inr ()) \<and>
     fst (run_task 1 plain_env (7, input) (Inr (), empty_world)) = Inl Undefined_Behaviour"
proof -
  have "length (request_bytes (Set ''k'' [CHR ''a'', NUL, CHR ''b''])) = 29"
    by code_simp
  then show ?thesis
    using nul_in_value_ends_server [of "''k''" "''a''" "[CHR ''a'', NUL, CHR ''b'']" "''b''" 7 0
        plain_env empty_world]
    by (auto simp: RECV_BUFFER_SIZE_def NUL_def)
qed

text \<open>The case of a single client.\<close>

lemma pool_session_refines_spec:
  assumes "pool_reachable (run_task (Suc d) env) (Inr (), w) s"
    and "completed s = fst (client_handler fd (map (Recv_Data \<circ> request_bytes) qs))"
    and "list_all (\<lambda>b. length b < RECV_BUFFER_SIZE \<and> NUL \<notin> set b) (map request_bytes qs)"
    and "session_ok qs (store_of (db_handler w)) (clk w)" and "db_inv (db_handler w)"
    and "spec_serve_all qs (store_of (db_handler w)) (clk w) = (rs, m, c)"
  shows "\<exists>w'. shared s = (Inr (), w') \<and> replies w' = replies w @ rs \<and> world_view w' = (m, c)"
proof -
  have "completed s = map (Pair fd) (map request_bytes qs)"
    using assms(2) client_handler_texts [OF assms(3), of fd] by (simp add: comp_def)
  moreover have "shared s = fold (run_task (Suc d) env) (completed s) (Inr (), w)"
    using pool_invariants [OF assms(1)] by (simp add: serial_inv_def)
  ultimately have "shared s = serve_all (Suc d) env fd (map request_bytes qs) w"
    by (simp only: fold_run_task then_do.simps)
  with serve_all_session [OF assms(4-6), of d env fd] show ?thesis by simp
qed

text \<open>Tasks in which every client's are its requests, in its order, are an interleaving of the clients'
  sessions.\<close>

lemma tasks_interleave:
  "(\<And>fd. filter (\<lambda>t. fst t = fd) tasks = map (\<lambda>q. (fd, request_bytes q)) (reqs fd)) \<Longrightarrow>
   \<exists>tqs. tasks = map (\<lambda>(fd, q). (fd, request_bytes q)) tqs \<and>
     (\<forall>fd. map snd (filter (\<lambda>t. fst t = fd) tqs) = reqs fd)"
proof (induction tasks arbitrary: reqs)
  case Nil
  then show ?case by simp
next
  case (Cons t tasks)
  obtain fd b where t: "t = (fd, b)" by fastforce
  from Cons.prems [of fd] t obtain q qs where
    q: "reqs fd = q # qs" "b = request_bytes q"
       "filter (\<lambda>t. fst t = fd) tasks = map (\<lambda>q. (fd, request_bytes q)) qs"
    by auto
  have "filter (\<lambda>t. fst t = fd') tasks = map (\<lambda>q. (fd', request_bytes q)) ((reqs(fd := qs)) fd')" for fd'
    using Cons.prems [of fd'] q(3) t by (auto split: if_splits)
  from Cons.IH [OF this] obtain tqs where
    "tasks = map (\<lambda>(fd, q). (fd, request_bytes q)) tqs"
    "\<And>fd'. map snd (filter (\<lambda>t. fst t = fd') tqs) = (reqs(fd := qs)) fd'" by blast
  then show ?case
    using t q by (intro exI [of _ "(fd, q) # tqs"]) auto
qed



end
