(* ===== verification/Comm_Protocol.thy ===== *)
theory Comm_Protocol
  imports Redis_Prelude
begin

text \<open>
  The handshake between the connection's thread (\<open>response_handler\<close> of \<^verbatim>\<open>src/client_handler.cpp\<close>)
  and the parser's thread (\<open>parseRESPCommand\<close>, \<open>enqueueMessage\<close>, \<open>wait_till_reponse_sent\<close> and
  \<open>communication_over\<close> of \<^verbatim>\<open>src/redis_parser.cpp\<close>), at the grain of their shared accesses: every
  test or store of a flag, every wait and every notification is a step of its own. What the parser
  computes is the list \<open>todo\<close> of messages it will enqueue, which the theory \<open>Redis_Parser\<close> gives.
\<close>

section \<open>State\<close>

text \<open>The program counters name the line of the source that is executed next.\<close>

datatype handler_pc =
    H_Top
  | H_Set_Loop
  | H_Notify_Loop
  | H_Lock
  | H_Wait
  | H_Take
  | H_Send string
  | H_Set_Sent
  | H_Notify_Sent
  | H_Check
  | H_Join
  | H_Done

datatype parser_pc =
    P_Start
  | P_Enter_Loop_Wait
  | P_Loop_Wait
  | P_Next
  | P_Test_Sent
  | P_Enter_Sent_Wait
  | P_Sent_Wait
  | P_Reset
  | P_Over
  | P_Done

record comm =
  h_pc :: handler_pc
  p_pc :: parser_pc
  handler_in_loop :: bool
  response_sent :: bool
  communicating :: bool
  buf_locked :: bool
  todo :: "string list"
  response_buf :: "string list"
  sent :: "string list"

definition comm_start :: "string list \<Rightarrow> comm" where
  "comm_start messages =
     \<lparr>h_pc = H_Top, p_pc = P_Start, handler_in_loop = False, response_sent = False,
      communicating = True, buf_locked = False, todo = messages, response_buf = [], sent = []\<rparr>"

section \<open>The connection's thread\<close>

text \<open>
  \<open>lock\<close> is held from the end of \<open>wait_for\<close> to the end of the loop body. The wait ends when it is
  notified, after five milliseconds or spuriously: it can end at any time. A notification wakes the
  parser only when it already sleeps.
\<close>

fun handler_step :: "comm \<Rightarrow> comm option" where
  "handler_step s =
     (case h_pc s of
        H_Top \<Rightarrow> Some (s\<lparr>h_pc := if handler_in_loop s then H_Lock else H_Set_Loop\<rparr>)
      | H_Set_Loop \<Rightarrow> Some (s\<lparr>h_pc := H_Notify_Loop, handler_in_loop := True\<rparr>)
      | H_Notify_Loop \<Rightarrow>
          Some (s\<lparr>h_pc := H_Lock, p_pc := if p_pc s = P_Loop_Wait then P_Next else p_pc s\<rparr>)
      | H_Lock \<Rightarrow> Some (s\<lparr>h_pc := H_Wait\<rparr>)
      | H_Wait \<Rightarrow> Some (s\<lparr>h_pc := H_Take, buf_locked := True\<rparr>)
      | H_Take \<Rightarrow>
          (case response_buf s of
             [] \<Rightarrow> Some (s\<lparr>h_pc := H_Check\<rparr>)
           | m # ms \<Rightarrow>
               Some (s\<lparr>h_pc := if m = [] then H_Check else H_Send m, response_buf := ms\<rparr>))
      | H_Send m \<Rightarrow> Some (s\<lparr>h_pc := H_Set_Sent, sent := sent s @ [m]\<rparr>)
      | H_Set_Sent \<Rightarrow> Some (s\<lparr>h_pc := H_Notify_Sent, response_sent := True\<rparr>)
      | H_Notify_Sent \<Rightarrow>
          Some (s\<lparr>h_pc := H_Check, p_pc := if p_pc s = P_Sent_Wait then P_Reset else p_pc s\<rparr>)
      | H_Check \<Rightarrow>
          Some (s\<lparr>h_pc := if communicating s then H_Top else H_Join, buf_locked := False\<rparr>)
      | H_Join \<Rightarrow> if p_pc s = P_Done then Some (s\<lparr>h_pc := H_Done\<rparr>) else None
      | H_Done \<Rightarrow> None)"

section \<open>The parser's thread\<close>

text \<open>
  Neither wait has a predicate, and the flag it depends on is tested before the wait is entered,
  without a lock the other thread takes.
\<close>

fun parser_step :: "comm \<Rightarrow> comm option" where
  "parser_step s =
     (case p_pc s of
        P_Start \<Rightarrow> Some (s\<lparr>p_pc := if handler_in_loop s then P_Next else P_Enter_Loop_Wait\<rparr>)
      | P_Enter_Loop_Wait \<Rightarrow> Some (s\<lparr>p_pc := P_Loop_Wait\<rparr>)
      | P_Loop_Wait \<Rightarrow> None
      | P_Next \<Rightarrow>
          (case todo s of
             [] \<Rightarrow> Some (s\<lparr>p_pc := P_Over\<rparr>)
           | m # ms \<Rightarrow>
               if buf_locked s then None
               else Some (s\<lparr>p_pc := P_Test_Sent, response_buf := response_buf s @ [m], todo := ms\<rparr>))
      | P_Test_Sent \<Rightarrow> Some (s\<lparr>p_pc := if response_sent s then P_Next else P_Enter_Sent_Wait\<rparr>)
      | P_Enter_Sent_Wait \<Rightarrow> Some (s\<lparr>p_pc := P_Sent_Wait\<rparr>)
      | P_Sent_Wait \<Rightarrow> None
      | P_Reset \<Rightarrow> Some (s\<lparr>p_pc := P_Next, response_sent := False\<rparr>)
      | P_Over \<Rightarrow> Some (s\<lparr>p_pc := P_Done, communicating := False\<rparr>)
      | P_Done \<Rightarrow> None)"

declare handler_step.simps [simp del] parser_step.simps [simp del]

section \<open>Interleavings\<close>

text \<open>Either thread moves. Spurious wake-ups of the parser's two waits are the subject of the theory
  \<open>Spurious_Wakeups\<close>; sending is one step here and a loop in \<open>Send_Loop\<close>.\<close>

definition comm_step :: "comm \<Rightarrow> comm \<Rightarrow> bool" where
  "comm_step s t \<longleftrightarrow> handler_step s = Some t \<or> parser_step s = Some t"

definition comm_reachable :: "string list \<Rightarrow> comm \<Rightarrow> bool" where
  "comm_reachable messages s \<longleftrightarrow> reachable (\<lambda>s. s = comm_start messages) comm_step s"

datatype thread = Handler | Parser

fun run_schedule :: "thread list \<Rightarrow> comm \<Rightarrow> comm option" where
  "run_schedule [] s = Some s"
| "run_schedule (t # ts) s =
     (case (case t of Handler \<Rightarrow> handler_step s | Parser \<Rightarrow> parser_step s) of
        None \<Rightarrow> None
      | Some s' \<Rightarrow> run_schedule ts s')"

lemma run_schedule_steps: "run_schedule ts s = Some s' \<Longrightarrow> comm_step\<^sup>*\<^sup>* s s'"
proof (induction ts arbitrary: s)
  case (Cons t ts)
  then obtain u where "comm_step s u" "run_schedule ts u = Some s'"
    by (auto simp: comm_step_def split: option.splits thread.splits)
  with Cons.IH show ?case
    by (meson converse_rtranclp_into_rtranclp)
qed simp

lemma reachable_schedule:
  "run_schedule ts (comm_start messages) = Some s \<Longrightarrow> comm_reachable messages s"
  unfolding comm_reachable_def
  by (rule reachable_run [OF reach_start run_schedule_steps]) simp_all

lemmas comm_steps = comm_step_def handler_step.simps parser_step.simps

section \<open>Conservation of messages\<close>

definition in_hand :: "comm \<Rightarrow> string list" where
  "in_hand s = (case h_pc s of H_Send m \<Rightarrow> [m] | _ \<Rightarrow> [])"

definition conserves :: "string list \<Rightarrow> comm \<Rightarrow> bool" where
  "conserves messages s \<longleftrightarrow> sent s @ in_hand s @ response_buf s @ todo s = messages"

lemma conserves_handler:
  "handler_step s = Some t \<Longrightarrow> conserves messages s \<Longrightarrow> [] \<notin> set messages \<Longrightarrow> conserves messages t"
  by (cases "h_pc s")
    (auto simp: handler_step.simps conserves_def in_hand_def split: list.splits if_splits)

lemma conserves_parser:
  "parser_step s = Some t \<Longrightarrow> conserves messages s \<Longrightarrow> conserves messages t"
  by (cases "p_pc s")
    (auto simp: parser_step.simps conserves_def in_hand_def split: list.splits if_splits)

lemma conserves_step:
  "comm_step s t \<Longrightarrow> conserves messages s \<Longrightarrow> [] \<notin> set messages \<Longrightarrow> conserves messages t"
  by (auto simp: comm_step_def intro: conserves_handler conserves_parser)

lemma conserves_start: "conserves messages (comm_start messages)"
  by (simp add: comm_start_def conserves_def in_hand_def)

interpretation order: invariant_system "\<lambda>s. s = comm_start messages" comm_step
  "\<lambda>s. [] \<notin> set messages \<longrightarrow> conserves messages s"
  by unfold_locales (auto intro: conserves_start conserves_step)

section \<open>At most two messages\<close>

text \<open>
  Every command but a pipeline of stores enqueues at most two messages. The invariant: the parser is
  past the wait for the first message only when it has been sent, so the buffer never holds more
  than one message, and the connection's thread, which takes one message per round and lets none in
  until it has looked whether the communication is over, leaves none behind.
\<close>

definition before_loop :: "parser_pc \<Rightarrow> bool" where
  "before_loop p \<longleftrightarrow> p = P_Start \<or> p = P_Enter_Loop_Wait \<or> p = P_Loop_Wait"

fun handler_knows :: "handler_pc \<Rightarrow> bool \<Rightarrow> string list \<Rightarrow> bool \<Rightarrow> bool" where
  "handler_knows H_Take locked buf going \<longleftrightarrow> locked"
| "handler_knows (H_Send m) locked buf going \<longleftrightarrow> locked \<and> buf = []"
| "handler_knows H_Set_Sent locked buf going \<longleftrightarrow> locked \<and> buf = []"
| "handler_knows H_Notify_Sent locked buf going \<longleftrightarrow> locked \<and> buf = []"
| "handler_knows H_Check locked buf going \<longleftrightarrow> locked \<and> buf = []"
| "handler_knows H_Join locked buf going \<longleftrightarrow> \<not> going \<and> buf = []"
| "handler_knows H_Done locked buf going \<longleftrightarrow> \<not> going \<and> buf = []"
| "handler_knows h locked buf going \<longleftrightarrow> True"

definition two_inv :: "string list \<Rightarrow> comm \<Rightarrow> bool" where
  "two_inv messages s \<longleftrightarrow>
     (before_loop (p_pc s) \<longrightarrow> todo s = messages) \<and>
     (response_sent s \<or> h_pc s = H_Set_Sent \<or> h_pc s = H_Notify_Sent \<longrightarrow> sent s \<noteq> []) \<and>
     (p_pc s = P_Reset \<or> p_pc s = P_Next \<and> todo s \<noteq> messages \<longrightarrow> sent s \<noteq> []) \<and>
     (p_pc s = P_Over \<or> p_pc s = P_Done \<longrightarrow> todo s = []) \<and>
     (communicating s \<longleftrightarrow> p_pc s \<noteq> P_Done) \<and>
     length (response_buf s) \<le> 1 \<and>
     handler_knows (h_pc s) (buf_locked s) (response_buf s) (communicating s)"

lemma two_inv_handler:
  "handler_step s = Some t \<Longrightarrow> two_inv messages s \<Longrightarrow> two_inv messages t"
  by (cases "h_pc s"; cases "response_buf s";
      clarsimp simp: handler_step.simps two_inv_def before_loop_def split: if_splits)

lemma conserves_pushable:
  "conserves messages s \<Longrightarrow> length messages \<le> 2 \<Longrightarrow> todo s = m # ms \<Longrightarrow>
   todo s = messages \<or> sent s \<noteq> [] \<Longrightarrow> response_buf s = []"
  by (cases "sent s"; cases "response_buf s") (auto simp: conserves_def)

lemma handler_knows_push:
  "handler_knows h False buf True \<Longrightarrow> handler_knows h False buf' True"
  by (cases h) simp_all

lemma handler_knows_over: "handler_knows h locked buf going \<Longrightarrow> handler_knows h locked buf False"
  by (cases h) simp_all

lemma two_inv_parser:
  assumes "parser_step s = Some t" and "two_inv messages s" and "conserves messages s"
    and "length messages \<le> 2"
  shows "two_inv messages t"
proof -
  have "p_pc s = P_Next \<and> todo s \<noteq> [] \<longrightarrow> response_buf s = []"
    using assms(2) conserves_pushable [OF assms(3,4)]
    by (cases "todo s") (auto simp: two_inv_def)
  with assms(1,2) show ?thesis
    by (cases "p_pc s"; cases "todo s";
        clarsimp simp: parser_step.simps two_inv_def before_loop_def handler_knows_over
          split: if_splits elim!: handler_knows_push)
qed

lemma two_inv_start: "two_inv messages (comm_start messages)"
  by (simp add: two_inv_def comm_start_def before_loop_def)

definition short_session :: "string list \<Rightarrow> bool" where
  "short_session messages \<longleftrightarrow> [] \<notin> set messages \<and> length messages \<le> 2"

interpretation two: invariant_system "\<lambda>s. s = comm_start messages" comm_step
  "\<lambda>s. short_session messages \<longrightarrow> conserves messages s \<and> two_inv messages s"
  by unfold_locales
    (auto simp: short_session_def comm_step_def intro: two_inv_start conserves_start
      two_inv_handler two_inv_parser conserves_handler conserves_parser)

lemma two_delivered:
  assumes "comm_reachable messages s" and "[] \<notin> set messages" and "length messages \<le> 2"
    and "h_pc s = H_Join \<or> h_pc s = H_Done"
  shows "sent s = messages \<and> p_pc s = P_Done"
proof -
  have "conserves messages s \<and> two_inv messages s"
    using two.reachable_inv [OF assms(1) [unfolded comm_reachable_def]] assms(2,3)
    by (simp add: short_session_def)
  with assms(4) show ?thesis
    by (elim disjE; clarsimp simp: conserves_def two_inv_def in_hand_def)
qed

section \<open>A parser that is never woken\<close>

text \<open>
  The parser sleeps, and the connection's thread is in the part of its loop that neither sends nor
  notifies: no step of either thread leaves this set of states.
\<close>

definition stuck :: "parser_pc \<Rightarrow> string list \<Rightarrow> comm \<Rightarrow> bool" where
  "stuck p messages s \<longleftrightarrow>
     (p = P_Loop_Wait \<or> p = P_Sent_Wait) \<and> p_pc s = p \<and> sent s = messages \<and>
     response_buf s = [] \<and> handler_in_loop s \<and> communicating s \<and>
     (h_pc s = H_Top \<or> h_pc s = H_Lock \<or> h_pc s = H_Wait \<or> h_pc s = H_Take \<or> h_pc s = H_Check)"

interpretation stuck: invariant_system "stuck p messages" comm_step "stuck p messages"
  by unfold_locales (auto simp: comm_steps stuck_def)

lemma stuck_forever:
  assumes "stuck p messages s" and "comm_step\<^sup>*\<^sup>* s t"
  shows "p_pc t = p \<and> sent t = messages \<and> h_pc t \<noteq> H_Done"
proof -
  have "stuck p messages t"
    by (rule stuck.run_inv [OF assms(2,1)])
  then show ?thesis
    unfolding stuck_def by (elim conjE disjE) simp_all
qed

text \<open>A wake-up lost in front of the first message and one lost behind it.\<close>

lemma stuck_before_reply: "\<exists>s. comm_step\<^sup>*\<^sup>* (comm_start messages) s \<and> stuck P_Loop_Wait [] s"
proof -
  let ?ts = "[Parser, Handler, Handler, Handler, Parser]"
  have "\<exists>s. run_schedule ?ts (comm_start messages) = Some s \<and> stuck P_Loop_Wait [] s"
    by (simp add: comm_start_def handler_step.simps parser_step.simps stuck_def)
  then show ?thesis
    using run_schedule_steps by blast
qed

lemma stuck_behind_reply:
  assumes "m \<noteq> []"
  shows "\<exists>s. comm_step\<^sup>*\<^sup>* (comm_start (m # ms)) s \<and> stuck P_Sent_Wait [m] s"
proof -
  let ?ts = "[Handler, Handler, Handler, Parser, Parser, Parser, Handler, Handler, Handler,
    Handler, Handler, Handler, Parser]"
  have "\<exists>s. run_schedule ?ts (comm_start (m # ms)) = Some s \<and> stuck P_Sent_Wait [m] s"
    using assms by (simp add: comm_start_def handler_step.simps parser_step.simps stuck_def)
  then show ?thesis
    using run_schedule_steps by blast
qed

section \<open>A scheduler that lets the exchange finish\<close>

lemma run_schedule_append:
  "run_schedule ts s = Some u \<Longrightarrow> run_schedule (ts @ us) s = run_schedule us u"
  by (induction ts arbitrary: s) (auto split: option.splits)

text \<open>One round: the parser enqueues a message and sleeps, the other thread sends it and wakes it.\<close>

definition first_steps :: "thread list" where
  "first_steps = [Handler, Handler, Handler, Handler, Parser]"

definition one_round :: "thread list" where
  "one_round = [Parser, Parser, Parser, Handler, Handler, Handler, Handler, Handler, Parser,
     Handler, Handler, Handler]"

definition waiting_state :: "string list \<Rightarrow> string list \<Rightarrow> comm" where
  "waiting_state done_messages messages =
     (comm_start messages)\<lparr>h_pc := H_Wait, p_pc := P_Next, handler_in_loop := True,
        sent := done_messages\<rparr>"

lemma first_steps_wait:
  "run_schedule first_steps (comm_start messages) = Some (waiting_state [] messages)"
  by (simp add: first_steps_def waiting_state_def comm_start_def handler_step.simps
      parser_step.simps)

lemma one_round_sends:
  "m \<noteq> [] \<Longrightarrow>
   run_schedule one_round (waiting_state ms (m # todos)) = Some (waiting_state (ms @ [m]) todos)"
  by (simp add: one_round_def waiting_state_def comm_start_def handler_step.simps
      parser_step.simps)

lemma all_rounds_send:
  "[] \<notin> set todos \<Longrightarrow>
   \<exists>ts. run_schedule ts (waiting_state ms todos) = Some (waiting_state (ms @ todos) [])"
proof (induction todos arbitrary: ms)
  case Nil
  have "run_schedule [] (waiting_state ms []) = Some (waiting_state (ms @ []) [])" by simp
  then show ?case by blast
next
  case (Cons m todos)
  with Cons.IH [of "ms @ [m]"] obtain ts where
    "run_schedule ts (waiting_state (ms @ [m]) todos) = Some (waiting_state (ms @ m # todos) [])"
    by auto
  with Cons.prems run_schedule_append [OF one_round_sends [of m ms todos], of ts] show ?case
    by auto
qed

lemma can_finish:
  assumes "[] \<notin> set messages"
  shows "\<exists>s. comm_reachable messages s \<and> h_pc s = H_Done \<and> p_pc s = P_Done \<and> sent s = messages"
proof -
  let ?finish = "[Parser, Parser, Handler, Handler, Handler, Handler]"
  obtain ts where 1: "run_schedule ts (waiting_state [] messages) = Some (waiting_state messages [])"
    using all_rounds_send [OF assms, of "[]"] by auto
  have "\<exists>s. run_schedule ?finish (waiting_state messages []) = Some s \<and> h_pc s = H_Done \<and>
      p_pc s = P_Done \<and> sent s = messages"
    by (simp add: waiting_state_def comm_start_def handler_step.simps parser_step.simps)
  then have "\<exists>s. run_schedule (first_steps @ ts @ ?finish) (comm_start messages) = Some s \<and>
      h_pc s = H_Done \<and> p_pc s = P_Done \<and> sent s = messages"
    by (simp only: run_schedule_append [OF first_steps_wait] run_schedule_append [OF 1])
  then show ?thesis
    using reachable_schedule by blast
qed

section \<open>Three messages\<close>

text \<open>Three replies can be lost: there is an interleaving in which the connection's thread ends with
  only the first two of three replies sent, because the stale \<open>response_sent\<close> lets the parser finish
  before the third is taken from the buffer.\<close>

lemma third_reply_can_be_lost:
  assumes "m1 \<noteq> []" and "m2 \<noteq> []"
  shows "\<exists>s. comm_reachable [m1, m2, m3] s \<and> h_pc s = H_Done \<and> sent s = [m1, m2]"
proof -
  let ?ts = "[Handler, Handler, Handler, Parser, Parser, Handler, Handler, Handler, Handler, Handler,
    Handler, Handler, Handler, Handler, Parser, Parser, Parser, Parser, Parser, Parser, Parser,
    Handler, Handler, Handler, Handler, Handler, Handler, Handler]"
  have "\<exists>s. run_schedule ?ts (comm_start [m1, m2, m3]) = Some s \<and> h_pc s = H_Done \<and>
      sent s = [m1, m2]"
    using assms by (simp add: comm_start_def handler_step.simps parser_step.simps)
  then show ?thesis
    using reachable_schedule by blast
qed

section \<open>Properties\<close>

text \<open>No reply is duplicated, reordered or invented: in every interleaving of the two threads, what
  has been sent, what the connection's thread has taken, what is in the buffer and what the parser
  still has to enqueue are, in this order, the replies of the command.\<close>

lemma replies_conserved_in_order:
  assumes "comm_reachable messages s" and "[] \<notin> set messages"
  shows "sent s @ in_hand s @ response_buf s @ todo s = messages"
  using order.reachable_inv [OF assms(1) [unfolded comm_reachable_def]] assms(2)
  by (simp add: conserves_def)

text \<open>The wake-up of the parser can be lost, both before it has done anything and after its reply
  has been sent: from these reachable states on the parser sleeps for ever, nothing more is sent
  and the connection's thread never leaves its loop.\<close>

lemma lost_wakeup_hangs:
  assumes "m \<noteq> []"
  shows "(\<exists>s. comm_reachable (m # ms) s \<and> (\<forall>t. comm_step\<^sup>*\<^sup>* s t \<longrightarrow>
        p_pc t = P_Loop_Wait \<and> sent t = [] \<and> h_pc t \<noteq> H_Done)) \<and>
    (\<exists>s. comm_reachable (m # ms) s \<and> (\<forall>t. comm_step\<^sup>*\<^sup>* s t \<longrightarrow>
        p_pc t = P_Sent_Wait \<and> sent t = [m] \<and> h_pc t \<noteq> H_Done))"
proof -
  obtain s where 1: "comm_step\<^sup>*\<^sup>* (comm_start (m # ms)) s" "stuck P_Loop_Wait [] s"
    using stuck_before_reply by blast
  obtain u where 2: "comm_step\<^sup>*\<^sup>* (comm_start (m # ms)) u" "stuck P_Sent_Wait [m] u"
    using stuck_behind_reply [OF assms] by blast
  from 1(1) 2(1) have "comm_reachable (m # ms) s" "comm_reachable (m # ms) u"
    unfolding comm_reachable_def by (auto intro: reachable_run reach_start)
  with 1(2) 2(2) show ?thesis
    using stuck_forever by blast
qed

end
