(* ===== verification/Command_Specs.thy ===== *)
theory Command_Specs
  imports Server_Spec
begin

text \<open>
  What the remaining commands of \<^verbatim>\<open>src/redis_parser.cpp\<close> answer to a well-formed request: \<open>KEYS\<close>
  with and without a star, \<open>CONFIG GET\<close>, \<open>INFO\<close>, and a command the server does not know.
\<close>

section \<open>A request on the wire\<close>

lemma serve_command:
  assumes "length (command_bytes (command # args)) < 2 ^ 31"
  shows "\<exists>p. serve_input (Suc d) env fd (command_bytes (command # args)) w =
      dispatch (parseRESPCommand d env fd (command_bytes (command # args))) env fd
        (command_bytes (command # args)) (to_upper command) (int (Suc (length args))) p
        (w\<lparr>is_communicating := True\<rparr>) \<and>
    cursor (command_bytes (command # args)) p (concat (map create_string_reponse args))"
  using parse_command [of "command_bytes (command # args)" 0 command args "[]" d env fd
      "w\<lparr>is_communicating := True\<rparr>"] assms
  by (simp add: serve_input_def)

lemma more_command_names [simp]:
  "to_upper ''CONFIG'' = ''CONFIG''" "to_upper ''INFO'' = ''INFO''"
  "to_upper ''replication'' = ''REPLICATION''"
  by code_simp+

section \<open>Patterns of KEYS\<close>

lemma keys_pattern_star:
  assumes "length p < 2 ^ 31"
  shows "keys_pattern (p @ ''*'') = Inr (''('' @ p @ '')(.*)'')"
proof -
  have "char_at (p @ ''*'') (word_of_int (int (length (p @ ''*'')) - 1)) = Inr (CHR ''*'')"
    using assms by (simp add: char_at_def)
  then show ?thesis
    by (simp add: keys_pattern_def)
qed

lemma keys_pattern_plain:
  assumes "p \<noteq> []" and "list_all plain p" and "length p < 2 ^ 31"
  shows "keys_pattern p = Inr p"
proof -
  obtain q c where p: "p = q @ [c]"
    using assms(1) by (cases p rule: rev_cases) auto
  have "char_at p (word_of_int (int (length p) - 1)) = Inr c"
    using assms(3) by (simp add: p char_at_def)
  moreover have "c \<noteq> CHR ''*''"
    using assms(2) by (auto simp: p plain_def quantifier_def)
  ultimately show ?thesis
    by (simp add: keys_pattern_def)
qed

lemma regex_compile_plain:
  assumes "list_all plain p"
  shows "regex_compile p = Inr (fold Seq (rev (map Chr p)) Eps)"
  using compile_plain [OF assms, of "[]" "[]" "[]" "[]"]
  by (simp add: regex_compile_def close_frame_def seq_of_def)

lemma regex_compile_prefix:
  assumes "list_all plain p"
  shows "regex_compile (''('' @ p @ '')(.*)'') =
    Inr (Seq (fold Seq (rev (map Chr p)) Eps) (Seq (Seq (Star AnyChar) Eps) Eps))"
proof -
  show ?thesis
    using compile_plain [OF assms, of "'')(.*)''" "[]" "[]" "[([], [])]"]
    by (simp add: regex_compile_def close_frame_def seq_of_def quantifier_def quantify_def
        drop_lazy_def)
qed

lemma matches_prefix:
  "rx_match (Seq (fold Seq (rev (map Chr p)) Eps) (Seq (Seq (Star AnyChar) Eps) Eps)) s \<longleftrightarrow>
     prefix p s \<and> list_all (\<lambda>c. \<not> line_end c) (drop (length p) s)"
proof -
  have "matches (Seq (fold Seq (rev (map Chr p)) Eps) (Seq (Seq (Star AnyChar) Eps) Eps)) s \<longleftrightarrow>
      (\<exists>t. s = p @ t \<and> list_all (\<lambda>c. \<not> line_end c) t)"
    by (auto simp: matches_seq matches_literal matches_dots)
  then show ?thesis
    by (auto simp: rx_match_iff prefix_def)
qed

lemma matches_plain: "rx_match (fold Seq (rev (map Chr p)) Eps) s \<longleftrightarrow> s = p"
  by (auto simp: rx_match_iff matches_literal)

lemma group_option_Cons:
  "group_option (c # cs) \<longleftrightarrow> (c = CHR ''('' \<and> (\<exists>ds. cs = CHR ''?'' # ds)) \<or> group_option cs"
  by (cases cs) auto

lemma group_option_plain_prefix:
  "list_all plain cs \<Longrightarrow> group_option (cs @ ds) = group_option ds"
  by (induction cs) (auto simp: group_option_Cons plain_def)

lemma prefix_in_fragment:
  assumes "list_all plain p"
  shows "in_fragment (''('' @ p @ '')(.*)'')"
proof -
  have "\<not> list_ex outside_char p"
    using assms plain_not_special(2) by (auto simp: list_all_iff list_ex_iff)
  moreover have "\<not> (\<exists>ds. p @ '')(.*)'' = CHR ''?'' # ds)"
    using assms by (cases p) (auto simp: plain_def quantifier_def)
  ultimately show ?thesis
    using group_option_plain_prefix [OF assms, of "'')(.*)''"]
    by (simp add: in_fragment_def outside_char_def NUL_def group_option_Cons)
qed

lemma serve_keys:
  assumes "length (command_bytes [''KEYS'', pattern]) < 2 ^ 31"
    and "and_then (keys_pattern pattern) (regex_matcher (std_regex env)) = Inr regex_match"
  shows "serve_input (Suc d) env fd (command_bytes [''KEYS'', pattern]) w =
    (Inr (), w\<lparr>replies := replies w @ [create_array_reponse
       (filter regex_match (map fst (iteration env (database (db_handler w)))))],
     is_communicating := False\<rparr>)"
proof -
  let ?input = "command_bytes [''KEYS'', pattern]"
  from serve_command [OF assms(1), of d env fd w] obtain p where
    p: "serve_input (Suc d) env fd ?input w =
          parseKEYSCommand env ?input p (w\<lparr>is_communicating := True\<rparr>)"
       "cursor ?input p (create_string_reponse pattern)"
    by (auto simp: dispatch_def)
  from bulk1_cursor [OF p(2)] obtain q where "parseBulkString ?input p = Inr (pattern, q)"
    by blast
  then show ?thesis
    using assms(2) p(1)
    by (simp add: parseKEYSCommand_def Let_def reply_and_finish_def enqueueMessage_def
        communication_over_def)
qed

section \<open>Properties\<close>

text \<open>C31: \<open>KEYS\<close> with a prefix of ordinary characters and a star answers with exactly the keys that start
  with the prefix, in the iteration order of the store, except that a key with a line end behind the
  prefix is left out; nothing else changes.\<close>

theorem keys_prefix_pattern:
  assumes "list_all plain p" and "length (command_bytes [''KEYS'', p @ ''*'']) < 2 ^ 31"
  shows "serve_input (Suc d) env fd (command_bytes [''KEYS'', p @ ''*'']) w =
    (Inr (), w\<lparr>replies := replies w @ [create_array_reponse (filter
       (\<lambda>k. prefix p k \<and> list_all (\<lambda>c. \<not> line_end c) (drop (length p) k))
       (map fst (iteration env (database (db_handler w)))))],
     is_communicating := False\<rparr>)"
proof (rule serve_keys [OF assms(2)])
  have "length p < 2 ^ 31"
    using assms(2) by (simp add: command_bytes_def create_array_reponse_eq
        length_create_string_reponse)
  then show "and_then (keys_pattern (p @ ''*'')) (regex_matcher (std_regex env)) =
      Inr (\<lambda>k. prefix p k \<and> list_all (\<lambda>c. \<not> line_end c) (drop (length p) k))"
    using prefix_in_fragment [OF assms(1)] regex_compile_prefix [OF assms(1)]
    by (simp add: keys_pattern_star regex_matcher_def matches_prefix [abs_def] fun_eq_iff
        del: append.simps)
qed

text \<open>A world that holds the given pairs, without expiry.\<close>

definition holding :: "(string \<times> string) list \<Rightarrow> world" where
  "holding kvs = empty_world\<lparr>db_handler := store_pairs kvs empty_db\<rparr>"

theorem keys_prefix_pattern_witness:
  "replies (snd (serve_input 1 plain_env 7 (command_bytes [''KEYS'', ''ab*''])
     (holding [(''abc'', ''1''), (''b'', ''2''), (''ab'', ''3'')]))) =
   [create_array_reponse [''abc'', ''ab'']]"
proof -
  have "length (command_bytes [''KEYS'', ''ab'' @ ''*'']) = 23"
    by code_simp
  moreover have "list_all plain ''ab''"
    by code_simp
  moreover have "\<not> line_end (CHR ''c'')"
    by (simp add: line_end_def)
  ultimately show ?thesis
    using keys_prefix_pattern [of "''ab''" 0 plain_env 7
        "holding [(''abc'', ''1''), (''b'', ''2''), (''ab'', ''3'')]"]
    by (simp add: holding_def empty_world_def plain_env_def empty_db_def new_DatabaseHandler_def
        db_set_def)
qed

text \<open>\<open>KEYS\<close> with ordinary characters only answers with the key itself when it is stored and with the
  empty array otherwise.\<close>

lemma keys_literal_pattern:
  assumes "p \<noteq> []" and "list_all plain p" and "length (command_bytes [''KEYS'', p]) < 2 ^ 31"
  shows "serve_input (Suc d) env fd (command_bytes [''KEYS'', p]) w =
    (Inr (), w\<lparr>replies := replies w @ [create_array_reponse
       (filter (\<lambda>k. k = p) (map fst (iteration env (database (db_handler w)))))],
     is_communicating := False\<rparr>)"
proof (rule serve_keys [OF assms(3)])
  have "length p < 2 ^ 31"
    using assms(3) by (simp add: command_bytes_def create_array_reponse_eq
        length_create_string_reponse)
  then show "and_then (keys_pattern p) (regex_matcher (std_regex env)) = Inr (\<lambda>k. k = p)"
    using plain_in_fragment [OF assms(2)] regex_compile_plain [OF assms(2)]
      keys_pattern_plain [OF assms(1,2)]
    by (simp add: regex_matcher_def matches_plain fun_eq_iff)
qed

text \<open>The commands whose first two arguments decide.\<close>

definition config_reply :: "string \<Rightarrow> config \<Rightarrow> string" where
  "config_reply name c =
     (if name = ''dir'' then create_array_reponse [name, cfg_dir c]
      else if name = ''dbfile'' then create_array_reponse [name, cfg_dbfilename c]
      else NULL_RESPONSE)"

text \<open>\<open>CONFIG GET\<close> reports the directory under \<open>dir\<close> and the file name under \<open>dbfile\<close> (not under the
  option's own name \<open>dbfilename\<close>), and the null reply for every other name; nothing else changes.\<close>

lemma config_get_reports_settings:
  assumes "length (command_bytes [''CONFIG'', ''GET'', name]) < 2 ^ 31"
  shows "serve_input (Suc d) env fd (command_bytes [''CONFIG'', ''GET'', name]) w =
    (Inr (), w\<lparr>replies := replies w @ [config_reply name (cfg w)], is_communicating := False\<rparr>)"
proof -
  let ?input = "command_bytes [''CONFIG'', ''GET'', name]"
  from serve_command [OF assms, of d env fd w] obtain p where
    p: "serve_input (Suc d) env fd ?input w =
          parseCONFIGGETCommand ?input p (w\<lparr>is_communicating := True\<rparr>)"
       "cursor ?input p (create_string_reponse ''GET'' @ create_string_reponse name)"
    by (auto simp: dispatch_def)
  from parseBulkString_cursor [OF p(2)] obtain q where
    1: "parseBulkString ?input p = Inr (''GET'', q)" "cursor ?input q (create_string_reponse name)"
    by blast
  from bulk1_cursor [OF 1(2)] obtain q' where "parseBulkString ?input q = Inr (name, q')"
    by blast
  then show ?thesis
    using p(1) 1(1)
    by (simp add: parseCONFIGGETCommand_def config_reply_def reply_and_finish_def
        enqueueMessage_def communication_over_def)
qed

text \<open>A command the server does not know is answered with the null reply, whatever its arguments, and
  changes nothing.\<close>

lemma unknown_command_gets_null:
  assumes "length (command_bytes (command # args)) < 2 ^ 31"
    and "to_upper command \<notin> set [''ECHO'', ''PING'', ''SET'', ''GET'', ''CONFIG'', ''KEYS'',
      ''INFO'', ''REPLCONF'', ''PSYNC'']"
  shows "serve_input (Suc d) env fd (command_bytes (command # args)) w =
    (Inr (), w\<lparr>replies := replies w @ [NULL_RESPONSE], is_communicating := False\<rparr>)"
  using serve_command [OF assms(1), of d env fd w] assms(2)
  by (auto simp: dispatch_def reply_and_finish_def enqueueMessage_def communication_over_def)

end
