(* ===== verification/Resp_Roundtrip.thy ===== *)
theory Resp_Roundtrip
  imports Resp_Utils
begin

text \<open>
  The wire format of \<^verbatim>\<open>src/utils.cpp\<close> as a contract between its two halves: what the encoders
  write, \<open>parseBulkString\<close> reads back, and how far the reader is from rejecting what they do not write.
\<close>

section \<open>Positions\<close>

lemma cursor_pos:
  assumes "cursor (pre @ rest) pos rest"
  shows "pos = word_of_nat (length pre)"
proof -
  have "unat pos = length pre"
    using cursor_length [OF assms] by simp
  moreover have "length pre < 2 ^ 64"
    using cursor_small [OF assms] cursor_length [OF assms] by simp
  ultimately show ?thesis
    by (simp add: word_unat_eq_iff)
qed

lemma int_ok_length: "length xs < 2 ^ 31 \<Longrightarrow> int_ok (int (length xs))"
  by (simp add: int_ok_def)

section \<open>Out of range\<close>

lemma stoi_digits:
  assumes "\<not> int_ok i"
  shows "stoi (to_string i) = Inl Out_Of_Range"
  using assms by (cases "i < 0") (simp_all add: stoi_def to_string_def)

section \<open>An unfinished length\<close>

text \<open>Without a line end the search gives \<open>npos\<close>, and \<open>npos + 2\<close> is 1.\<close>

lemma find_from_no_CR: "CHR 0x0D \<notin> set cs \<Longrightarrow> find_from CRLF cs i = None"
  by (induction cs arbitrary: i) (auto simp: CRLF_def)

lemma str_find_no_CR:
  "cursor input pos rest \<Longrightarrow> CHR 0x0D \<notin> set rest \<Longrightarrow> str_find input CRLF pos = npos"
  by (auto simp: str_find_def cursor_def find_from_no_CR)

lemma substr_to_end:
  assumes "cursor input pos rest"
  shows "substr input pos (npos - pos) = Inr rest"
proof -
  have "unat (npos - pos) = 2 ^ 64 - 1 - unat pos"
    by (simp add: npos_def unat_sub unsigned_minus_1_eq_mask mask_eq_exp_minus_1)
  then show ?thesis
    using assms cursor_length [OF assms] by (auto simp: substr_def cursor_def)
qed

section \<open>Properties\<close>

text \<open>C30: A bulk string survives the wire: wherever it stands in a buffer, and whatever bytes it holds,
  line ends included, the reader returns the encoded string and the position right behind it.\<close>

theorem bulk_string_roundtrip:
  assumes "length (pre @ create_string_reponse s @ rest) < 2 ^ 31"
  shows "parseBulkString (pre @ create_string_reponse s @ rest) (word_of_nat (length pre)) =
    Inr (s, word_of_nat (length (pre @ create_string_reponse s)))"
proof -
  have "cursor (pre @ create_string_reponse s @ rest) (word_of_nat (length pre))
      (create_string_reponse s @ rest)"
    using assms by (rule cursor_of_nat)
  from parseBulkString_cursor [OF this] obtain p where
    "parseBulkString (pre @ create_string_reponse s @ rest) (word_of_nat (length pre)) = Inr (s, p)"
    "cursor ((pre @ create_string_reponse s) @ rest) p rest" by auto
  then show ?thesis
    using cursor_pos by blast
qed

theorem bulk_string_roundtrip_witness:
  "parseBulkString (''ab'' @ create_string_reponse (CRLF @ ''$'') @ ''c'') 2 = Inr (CRLF @ ''$'', 11)"
proof -
  have "length (''ab'' @ create_string_reponse (CRLF @ ''$'') @ ''c'') = 12"
    "length (''ab'' @ create_string_reponse (CRLF @ ''$'')) = 11"
    by code_simp+
  then show ?thesis
    using bulk_string_roundtrip [of "''ab''" "CRLF @ ''$''" "''c''"] by simp
qed

text \<open>An array reply survives the wire: its header gives the number of elements, and reading that
  many bulk strings behind it gives the elements in order and ends at the end of the reply.\<close>

lemma array_roundtrip:
  assumes "length (create_array_reponse ss) < 2 ^ 31"
  shows "\<exists>p q. read_array_header (create_array_reponse ss) 1 = Inr (int (length ss), p) \<and>
    parse_bulks (length ss) (create_array_reponse ss) p = Inr (ss, q) \<and>
    unat q = length (create_array_reponse ss)"
proof -
  let ?input = "create_array_reponse ss"
  have "length ss \<le> length (concat (map create_string_reponse ss))"
    by (induction ss) (simp_all add: length_create_string_reponse)
  then have n: "int_ok (int (length ss))"
    using assms by (simp add: create_array_reponse_eq int_ok_def)
  have "cursor ?input 0 (CHR ''*'' # to_string (int (length ss)) @ CRLF @
      concat (map create_string_reponse ss) @ [])"
    using assms by (simp add: create_array_reponse_eq)
  from read_array_header_cursor [OF cursor_Cons [OF this] n] obtain p where
    p: "read_array_header ?input 1 = Inr (int (length ss), p)"
       "cursor ?input p (concat (map create_string_reponse ss) @ [])" by auto
  from parse_bulks_cursor [OF p(2)] obtain q where
    "parse_bulks (length ss) ?input p = Inr (ss, q)" "cursor ?input q []" by blast
  with p(1) cursor_length [of ?input q "[]"] show ?thesis by auto
qed

text \<open>Printing a number and reading it back gives the number exactly when it fits an \<open>int\<close>;
  otherwise the reader throws \<open>out_of_range\<close>. So no length or count is silently changed.\<close>

lemma stoi_of_to_string:
  "stoi (to_string i) = (if int_ok i then Inr i else Inl Out_Of_Range)"
  by (simp add: stoi_digits)

text \<open>A bulk string whose length is not followed by a line end is not rejected: the position wraps
  around to 1 and the string is cut out of the beginning of the buffer, so an \<open>ECHO\<close> or a \<open>SET\<close> cut
  inside a length answers with, or stores, bytes of its own header.\<close>

lemma unterminated_length_rereads_buffer:
  assumes "cursor input pos (CHR ''$'' # digits)" and "CHR 0x0D \<notin> set digits"
    and "stoi digits = Inr (int n)" and "int_ok (int n + 2)"
  shows "parseBulkString input pos = Inr (take n (drop 1 input), word_of_nat (n + 3))"
proof -
  have c: "cursor input (pos + 1) digits"
    using assms(1) by (rule cursor_Cons)
  have "substr input 1 (word_of_nat n) = Inr (take n (drop 1 input))"
    using assms(4) cursor_length [OF assms(1)] by (simp add: substr_def int_ok_def)
  moreover have "int_add (int n) 2 = Inr (int n + 2)"
    using assms(4) by simp
  moreover have "(1 :: size_t) + word_of_int (int n + 2) = word_of_nat (n + 3)"
    by simp
  ultimately show ?thesis
    using assms(1,3) str_find_no_CR [OF c assms(2)] substr_to_end [OF c]
    by (simp add: parseBulkString_def Let_def npos_def)
qed

end
