(* ===== verification/NonBlocking_Queue.thy ===== *)
theory NonBlocking_Queue
  imports Redis_Prelude
begin

text \<open>
  The lock-free queue of \<^verbatim>\<open>include/redis/non_blocking_queue.hpp\<close> as one thread runs it: a linked
  list of nodes behind a dummy, in a heap in which \<open>delete\<close> removes the node, so that touching it
  again is undefined. \<open>compare_exchange_weak\<close> may fail although the value is the expected one; the
  outcomes of the attempts are an argument. The contract is the locale \<open>fifo_queue\<close>, which the
  \<open>std::queue\<close> of the worker pool and of the parser provides as well.
\<close>

section \<open>The contract of a queue\<close>

datatype 'a queue_op = Enqueue 'a | Dequeue

locale fifo_queue =
  fixes enq :: "'a \<Rightarrow> 'q \<Rightarrow> 'q result"
    and deq :: "'q \<Rightarrow> ('a option \<times> 'q) result"
    and represents :: "'q \<Rightarrow> 'a list \<Rightarrow> bool"
  assumes enq_ok: "represents q xs \<Longrightarrow> \<exists>q'. enq v q = Inr q' \<and> represents q' (xs @ [v])"
    and deq_empty: "represents q [] \<Longrightarrow> deq q = Inr (None, q)"
    and deq_ok: "represents q (x # xs) \<Longrightarrow> \<exists>q'. deq q = Inr (Some x, q') \<and> represents q' xs"

text \<open>A run of operations, with what the dequeues returned.\<close>

fun run_ops :: "('a \<Rightarrow> 'q \<Rightarrow> 'q result) \<Rightarrow> ('q \<Rightarrow> ('a option \<times> 'q) result) \<Rightarrow>
    'a queue_op list \<Rightarrow> 'q \<Rightarrow> ('a option list \<times> 'q) result" where
  "run_ops enq deq [] q = Inr ([], q)"
| "run_ops enq deq (Enqueue v # ops) q = and_then (enq v q) (run_ops enq deq ops)"
| "run_ops enq deq (Dequeue # ops) q =
     and_then (deq q) (\<lambda>(r, q). and_then (run_ops enq deq ops q) (\<lambda>(rs, q). Inr (r # rs, q)))"

text \<open>The same run on a list.\<close>

fun list_ops :: "'a queue_op list \<Rightarrow> 'a list \<Rightarrow> 'a option list \<times> 'a list" where
  "list_ops [] xs = ([], xs)"
| "list_ops (Enqueue v # ops) xs = list_ops ops (xs @ [v])"
| "list_ops (Dequeue # ops) xs =
     (case xs of
        [] \<Rightarrow> (let (rs, ys) = list_ops ops [] in (None # rs, ys))
      | x # xs' \<Rightarrow> (let (rs, ys) = list_ops ops xs' in (Some x # rs, ys)))"

context fifo_queue
begin

lemma run_refines_list:
  "represents q xs \<Longrightarrow> list_ops ops xs = (rs, ys) \<Longrightarrow>
   \<exists>q'. run_ops enq deq ops q = Inr (rs, q') \<and> represents q' ys"
proof (induction ops arbitrary: q xs rs)
  case Nil
  then show ?case by simp
next
  case (Cons opn ops)
  show ?case
  proof (cases opn)
    case (Enqueue v)
    with enq_ok [OF Cons.prems(1), of v] Cons.IH Cons.prems(2) show ?thesis
      by fastforce
  next
    case Dequeue
    show ?thesis
    proof (cases xs)
      case Nil
      with Cons.prems Dequeue obtain rs' where rs: "list_ops ops [] = (rs', ys)" "rs = None # rs'"
        by (auto split: prod.splits)
      with Cons.IH [of q "[]"] Cons.prems(1) Nil obtain q' where
        "run_ops enq deq ops q = Inr (rs', q')" "represents q' ys" by blast
      with deq_empty Cons.prems(1) Nil rs Dequeue show ?thesis by auto
    next
      case (Cons x xs')
      with Cons.prems Dequeue obtain rs' where rs: "list_ops ops xs' = (rs', ys)" "rs = Some x # rs'"
        by (auto split: prod.splits)
      from deq_ok Cons.prems(1) Cons obtain q1 where
        q1: "deq q = Inr (Some x, q1)" "represents q1 xs'" by blast
      with Cons.IH rs obtain q' where
        "run_ops enq deq ops q1 = Inr (rs', q')" "represents q' ys" by blast
      with q1 rs Dequeue show ?thesis by auto
    qed
  qed
qed

end

text \<open>\<open>std::queue\<close>: \<open>push\<close>, and \<open>front\<close> with \<open>pop\<close> behind a test for emptiness.\<close>

fun list_push :: "'a \<Rightarrow> 'a list \<Rightarrow> 'a list result" where
  "list_push v xs = Inr (xs @ [v])"

fun list_pop :: "'a list \<Rightarrow> ('a option \<times> 'a list) result" where
  "list_pop [] = Inr (None, [])"
| "list_pop (x # xs) = Inr (Some x, xs)"

interpretation std_queue: fifo_queue list_push list_pop "(=)"
  by unfold_locales auto

section \<open>Nodes and the heap\<close>

record 'a node =
  node_data :: 'a
  node_next :: "nat option"

text \<open>\<open>next_addr\<close> is the address of the next allocation; addresses are not used again.\<close>

record 'a nbq =
  heap :: "nat \<Rightarrow> 'a node option"
  next_addr :: nat
  head :: nat
  tail :: nat

definition deref :: "'a nbq \<Rightarrow> nat \<Rightarrow> 'a node result" where
  "deref q a = (case heap q a of None \<Rightarrow> Inl Undefined_Behaviour | Some n \<Rightarrow> Inr n)"

definition new_NonBlockingQueue :: "'a \<Rightarrow> 'a nbq" where
  "new_NonBlockingQueue dummy =
     \<lparr>heap = [0 \<mapsto> \<lparr>node_data = dummy, node_next = None\<rparr>], next_addr = 1, head = 0, tail = 0\<rparr>"

definition nbq_empty :: "'a nbq \<Rightarrow> bool" where
  "nbq_empty q \<longleftrightarrow> head q = tail q"

section \<open>Operations\<close>

text \<open>The outcome of a weak compare-and-exchange on the expected value: whether it fails spuriously.
  Once the list is used up they succeed.\<close>

fun spurious_failure :: "bool list \<Rightarrow> bool \<times> bool list" where
  "spurious_failure [] = (False, [])"
| "spurious_failure (b # bs) = (b, bs)"

text \<open>
  The loop of \<open>enqueue\<close>: the tail the new node was linked behind, or \<open>None\<close> when the fuel is used up.
\<close>

fun link_loop :: "nat \<Rightarrow> bool list \<Rightarrow> nat \<Rightarrow> 'a nbq \<Rightarrow> ((bool list \<times> nat \<times> 'a nbq) option) result" where
  "link_loop 0 outcomes newNode q = Inr None"
| "link_loop (Suc fuel) outcomes newNode q =
     and_then (deref q (tail q)) (\<lambda>n.
       let currentTail = tail q; (fails, outcomes) = spurious_failure outcomes
       in case node_next n of
            None \<Rightarrow>
              if fails then link_loop fuel outcomes newNode q
              else Inr (Some (outcomes, currentTail,
                q\<lparr>heap := (heap q)(currentTail \<mapsto> n\<lparr>node_next := Some newNode\<rparr>)\<rparr>))
          | Some nxt \<Rightarrow>
              if fails then link_loop fuel outcomes newNode q
              else link_loop fuel outcomes newNode (q\<lparr>tail := nxt\<rparr>))"

definition enqueue :: "nat \<Rightarrow> bool list \<Rightarrow> 'a \<Rightarrow> 'a nbq \<Rightarrow> ('a nbq option) result" where
  "enqueue fuel outcomes v q =
     (let newNode = next_addr q;
          q = q\<lparr>heap := (heap q)(newNode \<mapsto> \<lparr>node_data = v, node_next = None\<rparr>),
                next_addr := Suc newNode\<rparr>
      in and_then (link_loop fuel outcomes newNode q) (\<lambda>r. Inr (case r of
           None \<Rightarrow> None
         | Some (outcomes, currentTail, q) \<Rightarrow>
             Some (if fst (spurious_failure outcomes) \<or> tail q \<noteq> currentTail then q
                   else q\<lparr>tail := newNode\<rparr>))))"

text \<open>With one thread the exchange of \<open>head\<close> is only repeated, so its spurious failures have no effect.\<close>

definition dequeue :: "'a nbq \<Rightarrow> ('a option \<times> 'a nbq) result" where
  "dequeue q =
     and_then (deref q (head q)) (\<lambda>n.
       case node_next n of
         None \<Rightarrow> Inr (None, q)
       | Some nxt \<Rightarrow>
           and_then (deref q nxt) (\<lambda>m.
             Inr (Some (node_data m), q\<lparr>heap := (heap q)(head q := None), head := nxt\<rparr>)))"

text \<open>The loop of the destructor, from the value of \<open>head\<close>, which it lets become null.\<close>

fun destroy_loop :: "nat \<Rightarrow> nat option \<Rightarrow> 'a nbq \<Rightarrow> ('a nbq option) result" where
  "destroy_loop fuel None q = Inr (Some q)"
| "destroy_loop 0 (Some a) q = Inr None"
| "destroy_loop (Suc fuel) (Some a) q =
     and_then (deref q a) (\<lambda>n.
       destroy_loop fuel (node_next n) (q\<lparr>heap := (heap q)(a := None)\<rparr>))"

definition destroy :: "nat \<Rightarrow> 'a nbq \<Rightarrow> ('a nbq option) result" where
  "destroy fuel q = destroy_loop fuel (Some (head q)) q"

section \<open>The chain of nodes\<close>

text \<open>\<open>chain h a as\<close>: from the node \<open>a\<close> the links lead through the addresses \<open>as\<close> and end.\<close>

fun chain :: "(nat \<Rightarrow> 'a node option) \<Rightarrow> nat \<Rightarrow> (nat \<times> 'a) list \<Rightarrow> bool" where
  "chain h a [] \<longleftrightarrow> (\<exists>n. h a = Some n \<and> node_next n = None)"
| "chain h a ((b, v) # as) \<longleftrightarrow>
     (\<exists>n m. h a = Some n \<and> node_next n = Some b \<and> h b = Some m \<and> node_data m = v) \<and> chain h b as"

definition queue_of :: "'a nbq \<Rightarrow> 'a list \<Rightarrow> bool" where
  "queue_of q xs \<longleftrightarrow>
     (\<exists>as. chain (heap q) (head q) as \<and> map snd as = xs \<and>
        distinct (head q # map fst as) \<and> tail q = last (head q # map fst as) \<and>
        (\<forall>a \<in> set (head q # map fst as). a < next_addr q))"

lemma chain_cong: "chain h a as \<Longrightarrow> \<forall>b \<in> set (a # map fst as). h' b = h b \<Longrightarrow> chain h' a as"
  by (induction h a as rule: chain.induct) auto

lemma chain_last: "chain h a as \<Longrightarrow> \<exists>n. h (last (a # map fst as)) = Some n \<and> node_next n = None"
  by (induction h a as rule: chain.induct) auto

text \<open>Linking a new node behind the last one.\<close>

lemma chain_snoc:
  assumes "chain h a as" and "distinct (a # map fst as)" and "new \<notin> set (a # map fst as)"
    and "h (last (a # map fst as)) = Some n"
  shows "chain (h(new \<mapsto> \<lparr>node_data = v, node_next = None\<rparr>,
      last (a # map fst as) \<mapsto> n\<lparr>node_next := Some new\<rparr>)) a (as @ [(new, v)])"
  using assms
proof (induction h a as rule: chain.induct)
  case (1 h a)
  then show ?case by auto
next
  case (2 h a b u as)
  then show ?case
    using last_in_set [of "map fst as"] by (auto split: if_splits)
qed

text \<open>The destructor deletes every node of the queue, once each, and touches no other.\<close>

lemma destroy_loop_chain:
  "chain (heap q) a as \<Longrightarrow> distinct (a # map fst as) \<Longrightarrow> length as < fuel \<Longrightarrow>
   destroy_loop fuel (Some a) q =
     Inr (Some (q\<lparr>heap := (heap q) |` (- set (a # map fst as))\<rparr>))"
proof (induction as arbitrary: a q fuel)
  case Nil
  then obtain n k where "heap q a = Some n" "node_next n = None" "fuel = Suc k"
    by (cases fuel) auto
  then show ?case
    by (simp add: deref_def restrict_map_def fun_upd_def) (metis (no_types))
next
  case (Cons b as)
  obtain c v where b: "b = (c, v)" by fastforce
  from Cons.prems b obtain n k where n: "heap q a = Some n" "node_next n = Some c" "fuel = Suc k"
    by (cases fuel) auto
  let ?q = "q\<lparr>heap := (heap q)(a := None)\<rparr>"
  have chain: "chain (heap ?q) c as"
    using Cons.prems(1,2) b by (auto intro: chain_cong)
  have "destroy_loop k (Some c) ?q = Inr (Some (?q\<lparr>heap := (heap ?q) |` (- set (c # map fst as))\<rparr>))"
    using Cons.prems(2,3) n(3) b by (intro Cons.IH [OF chain]) auto
  moreover have "(heap ?q) |` (- set (c # map fst as)) = (heap q) |` (- set (a # map fst (b # as)))"
    using b by (auto simp: restrict_map_def fun_eq_iff)
  ultimately show ?case
    using n b by (simp add: deref_def)
qed

lemma destroy_frees_all:
  assumes "queue_of q xs" and "length xs < fuel"
  shows "\<exists>q' nodes. destroy fuel q = Inr (Some q') \<and> length nodes = Suc (length xs) \<and>
    heap q' = (heap q) |` (- set nodes)"
proof -
  from assms(1) obtain as where as: "chain (heap q) (head q) as" "map snd as = xs"
    "distinct (head q # map fst as)"
    unfolding queue_of_def by blast
  then have "length as < fuel" using assms(2) by auto
  from destroy_loop_chain [OF as(1,3) this] as(2) show ?thesis
    by (intro exI [of _ "q\<lparr>heap := (heap q) |` (- set (head q # map fst as))\<rparr>"]
        exI [of _ "head q # map fst as"]) (auto simp: destroy_def)
qed

text \<open>Without spurious failures one attempt links the node and one moves the tail.\<close>

definition enqueue_once :: "'a \<Rightarrow> 'a nbq \<Rightarrow> 'a nbq result" where
  "enqueue_once v q = and_then (enqueue 1 [] v q) (\<lambda>r. Inr (the r))"

lemma enqueue_strong:
  assumes "queue_of q xs"
  shows "\<exists>q'. enqueue 1 [] v q = Inr (Some q') \<and> queue_of q' (xs @ [v])"
proof -
  from assms obtain as where as: "chain (heap q) (head q) as" "map snd as = xs"
    "distinct (head q # map fst as)" "tail q = last (head q # map fst as)"
    "\<forall>a \<in> set (head q # map fst as). a < next_addr q"
    unfolding queue_of_def by blast
  from chain_last [OF as(1)] obtain n where
    n: "heap q (tail q) = Some n" "node_next n = None"
    using as(4) by auto
  let ?new = "next_addr q"
  let ?h = "(heap q)(?new \<mapsto> \<lparr>node_data = v, node_next = None\<rparr>,
    tail q \<mapsto> n\<lparr>node_next := Some ?new\<rparr>)"
  let ?q = "q\<lparr>heap := ?h, next_addr := Suc ?new, tail := ?new\<rparr>"
  have fresh: "?new \<notin> set (head q # map fst as)" "tail q \<in> set (head q # map fst as)"
    using as(4,5) last_in_set [of "head q # map fst as"] by auto
  then have "tail q \<noteq> ?new" by metis
  then have "enqueue 1 [] v q = Inr (Some ?q)"
    using n by (simp add: enqueue_def deref_def Let_def)
  moreover have "chain ?h (head q) (as @ [(?new, v)])"
    using chain_snoc [OF as(1,3) fresh(1), of n v] n(1) as(4) by simp
  then have "queue_of ?q (xs @ [v])"
    unfolding queue_of_def
    using as(2,3,5) fresh(1) by (intro exI [of _ "as @ [(?new, v)]"]) (auto simp: less_Suc_eq)
  ultimately show ?thesis by blast
qed

lemma dequeue_strong:
  "queue_of q [] \<Longrightarrow> dequeue q = Inr (None, q)"
  "queue_of q (x # xs) \<Longrightarrow> \<exists>q'. dequeue q = Inr (Some x, q') \<and> queue_of q' xs"
proof -
  show "queue_of q [] \<Longrightarrow> dequeue q = Inr (None, q)"
    by (auto simp: queue_of_def dequeue_def deref_def)
next
  assume "queue_of q (x # xs)"
  then obtain b as where as: "chain (heap q) (head q) ((b, x) # as)" "map snd as = xs"
    "distinct (head q # b # map fst as)" "tail q = last (b # map fst as)"
    "\<forall>a \<in> set (b # map fst as). a < next_addr q"
    unfolding queue_of_def by auto
  let ?q = "q\<lparr>heap := (heap q)(head q := None), head := b\<rparr>"
  from as(1) have "dequeue q = Inr (Some x, ?q)"
    by (auto simp: dequeue_def deref_def)
  moreover have "chain (heap ?q) b as"
    using as(1,3) by (auto intro: chain_cong)
  then have "queue_of ?q xs"
    unfolding queue_of_def using as(2-5) by (intro exI [of _ as]) auto
  ultimately show "\<exists>q'. dequeue q = Inr (Some x, q') \<and> queue_of q' xs" by blast
qed

interpretation nbq: fifo_queue enqueue_once dequeue queue_of
proof
  show "\<exists>q'. enqueue_once v q = Inr q' \<and> queue_of q' (xs @ [v])" if "queue_of q xs" for q xs v
    using enqueue_strong [OF that, of v] by (auto simp: enqueue_once_def)
qed (auto intro: dequeue_strong)

lemma queue_of_new: "queue_of (new_NonBlockingQueue d) []"
  by (auto simp: queue_of_def new_NonBlockingQueue_def intro!: exI [of _ "[]"])

section \<open>Properties\<close>

text \<open>Without spurious failures the queue is a first-in-first-out queue: any sequence of operations on
  a new queue returns what it returns on a list, touches no freed node, and leaves the list's elements
  in the queue.\<close>

lemma nonblocking_queue_is_fifo:
  "\<exists>q. run_ops enqueue_once dequeue ops (new_NonBlockingQueue d) = Inr (fst (list_ops ops []), q) \<and>
     queue_of q (snd (list_ops ops []))"
  by (rule nbq.run_refines_list [OF queue_of_new]) simp

text \<open>One spurious failure of the last exchange of \<open>enqueue\<close>, which the language allows, is enough to
  corrupt the queue: the tail stays behind, \<open>empty\<close> calls the queue empty although a dequeue finds the
  element, that dequeue frees the node the tail points to, and the next \<open>enqueue\<close> reads freed memory.\<close>

lemma nonblocking_queue_use_after_free:
  "\<exists>q q'. enqueue 1 [False, True] v (new_NonBlockingQueue d) = Inr (Some q) \<and> nbq_empty q \<and>
     dequeue q = Inr (Some v, q') \<and> (\<forall>u outcomes fuel.
       enqueue (Suc fuel) outcomes u q' = Inl Undefined_Behaviour)"
  by (simp add: enqueue_def dequeue_def deref_def new_NonBlockingQueue_def nbq_empty_def Let_def)

end
