(* ===== verification/Rdb_Script.thy ===== *)
theory Rdb_Script
  imports Rdb_Parser Cpp_Std
begin

text \<open>
  The stand-alone dump reader of \<^verbatim>\<open>scripts/rdb_parser.cpp\<close> (class \<open>RedisRDBParserTest\<close> and its
  \<open>main\<close>), an earlier version of the loader that prints what it reads. The model keeps the output as
  a list of what the output statements show, each with the exact text it writes; definitions are
  named after the methods with the prefix \<open>test_\<close>. Two methods with a result type can end without a
  \<open>return\<close>, which the language leaves undefined. The last part compares the script with the loader of
  \<^verbatim>\<open>src/read_file.cpp\<close>.
\<close>

section \<open>What is printed\<close>

datatype shown =
    Version string
  | Metadata_Heading
  | Attribute string string
  | Table_Heading
  | Entries_Heading
  | Number string u64
  | String_Entry string string
  | Unknown_Encoding u8
  | Integer_Error
  | Skipped string
  | Open_Error
  | Header_Error
  | Parsed
  | Not_Parsed

definition dashes :: string where
  "dashes = replicate 20 (CHR ''-'')"

text \<open>The text on \<open>std::cout\<close>; an encoding byte is an \<open>unsigned char\<close> and is printed as a character.\<close>

fun cout_text :: "shown \<Rightarrow> string" where
  "cout_text (Version v) = dashes @ ''RDB version: '' @ v @ dashes @ LF"
| "cout_text Metadata_Heading = LF @ ''Printing MetaDta Information'' @ LF"
| "cout_text (Attribute a v) = ''Attribute: '' @ a @ '', Value: '' @ v @ LF"
| "cout_text Table_Heading = LF @ dashes @ ''Hash Table Information'' @ dashes @ LF"
| "cout_text Entries_Heading = LF @ dashes @ ''Key and Value pairs follow'' @ dashes @ LF @ LF"
| "cout_text (Number message v) = message @ hex_digits (unat v) @ LF"
| "cout_text (String_Entry k v) = ''String Entry - Key: '' @ k @ '', Value: '' @ v @ LF"
| "cout_text (Unknown_Encoding b) = char_of_byte b # LF"
| "cout_text Parsed = ''RDB file parsed successfully.'' @ LF"
| "cout_text _ = []"

text \<open>The text on \<open>std::cerr\<close>.\<close>

fun cerr_text :: "shown \<Rightarrow> string" where
  "cerr_text (Unknown_Encoding b) = ''Error: Unknown encoding type: ''"
| "cerr_text Integer_Error = ''Error: Unknown integer encoding.'' @ LF"
| "cerr_text (Skipped k) = ''Skipped unknown entry - Key: '' @ k @ LF"
| "cerr_text Open_Error = ''Error: Unable to open file.'' @ LF"
| "cerr_text Header_Error = ''Error: Invalid RDB header.'' @ LF"
| "cerr_text Not_Parsed = ''Failed to parse RDB file.'' @ LF"
| "cerr_text _ = []"

section \<open>The state of a run\<close>

record script =
  sc_file :: istream
  sc_out :: "shown list"

definition say :: "shown \<Rightarrow> script \<Rightarrow> script" where
  "say x s = s\<lparr>sc_out := sc_out s @ [x]\<rparr>"

definition pull :: "(istream \<Rightarrow> 'a \<times> istream) \<Rightarrow> script \<Rightarrow> 'a \<times> script" where
  "pull rd s = (let (x, file) = rd (sc_file s) in (x, s\<lparr>sc_file := file\<rparr>))"

text \<open>A call that can fail, and the code behind it.\<close>

fun and_go_on :: "'a result \<times> script \<Rightarrow> ('a \<Rightarrow> script \<Rightarrow> 'b result \<times> script) \<Rightarrow> 'b result \<times> script" where
  "and_go_on (Inl e, s) f = (Inl e, s)"
| "and_go_on (Inr x, s) f = f x s"

section \<open>Strings and sizes\<close>

definition test_readIntegerEncodedString :: "u8 \<Rightarrow> script \<Rightarrow> string \<times> script" where
  "test_readIntegerEncodedString encodingType s =
     (if encodingType AND 0xFF = 0xC0 then
        let (v :: u8, s) = pull (read_uint 1) s in (to_string (int (unat v)), s)
      else if encodingType AND 0xFF = 0xC1 then
        let (v :: u16, s) = pull (read_uint 2) s in (to_string (int (unat v)), s)
      else if encodingType AND 0xFF = 0xC2 then
        let (v :: u32, s) = pull (read_uint 4) s in (to_string (int (unat v)), s)
      else ([], say Integer_Error s))"

text \<open>The decompression is a placeholder in the code: a string of NULs of the announced length.\<close>

definition lzfDecompress :: "u8 list \<Rightarrow> u32 \<Rightarrow> string" where
  "lzfDecompress compressedData originalLen = replicate (unat originalLen) NUL"

definition test_readLZFCompressedString :: "script \<Rightarrow> string \<times> script" where
  "test_readLZFCompressedString s =
     (let (compressedLen :: u32, s) = pull (read_uint 4) s;
          (originalLen :: u32, s) = pull (read_uint 4) s;
          (compressedData, s) = pull (sread (replicate (unat compressedLen) 0)) s
      in (lzfDecompress compressedData originalLen, s))"

definition test_readEncodedString :: "u8 \<Rightarrow> script \<Rightarrow> string \<times> script" where
  "test_readEncodedString encodingType s =
     (let t = encodingType XOR 0xC0
      in if t = 0 \<or> t = 1 \<or> t = 2 then test_readIntegerEncodedString encodingType s
         else if t = 3 then test_readLZFCompressedString s
         else ([], say (Unknown_Encoding encodingType) s))"

definition test_readLengthPrefixedString :: "script \<Rightarrow> string \<times> script" where
  "test_readLengthPrefixedString s =
     (let (lengthByte :: u8, s) = pull (read_uint 1) s
      in if lengthByte AND 0xC0 = 0xC0 then test_readEncodedString lengthByte s
         else let (bytes, s) = pull (sread (replicate (unat lengthByte) 0)) s
              in (map char_of_byte bytes, s))"

text \<open>The two high bits \<open>11\<close> reach the end of the method without a \<open>return\<close>.\<close>

definition test_readSizeEncoded :: "u8 \<Rightarrow> script \<Rightarrow> u64 result \<times> script" where
  "test_readSizeEncoded sizeEncoding s =
     (if sizeEncoding AND 0xC0 = 0 then (Inr (ucast sizeEncoding), s)
      else if sizeEncoding AND 0xC0 = 0x40 then
        let (nextByte :: u8, s) = pull (read_uint 1) s
        in (Inr (push_bit 8 (ucast sizeEncoding) OR ucast nextByte), s)
      else if sizeEncoding AND 0xC0 = 0x80 then
        let (next4Bytes :: u64, s) = pull (read_uint 8) s in (Inr next4Bytes, s)
      else (Inl Undefined_Behaviour, s))"

definition test_readStringKeyValue :: "script \<Rightarrow> script" where
  "test_readStringKeyValue s =
     (let (key, s) = test_readLengthPrefixedString s;
          (v, s) = test_readLengthPrefixedString s
      in say (String_Entry key v) s)"

text \<open>\<open>parseStringEntry\<close> and \<open>skipUnknownEntry\<close> are not called.\<close>

definition test_parseStringEntry :: "script \<Rightarrow> script" where
  "test_parseStringEntry s =
     (let (key, s) = test_readLengthPrefixedString s;
          (v, s) = test_readLengthPrefixedString s
      in say (String_Entry key v) s)"

definition test_skipUnknownEntry :: "script \<Rightarrow> script" where
  "test_skipUnknownEntry s =
     (let (key, s) = test_readLengthPrefixedString s;
          (v, s) = test_readLengthPrefixedString s
      in say (Skipped key) s)"

section \<open>Sections of the file\<close>

definition test_readHeader :: "script \<Rightarrow> bool \<times> script" where
  "test_readHeader s =
     (let (header, s) = pull (read_fresh 9) s
      in if map char_of_byte (take 5 header) \<noteq> ''REDIS'' then (False, s)
         else (True, say (Version (map char_of_byte (drop 5 header))) s))"

text \<open>\<open>readMetaData\<close> is declared \<open>bool\<close> and has no \<open>return\<close> at all.\<close>

definition test_readMetaData :: "script \<Rightarrow> bool result \<times> script" where
  "test_readMetaData s =
     (let s = say Metadata_Heading s;
          (attribute, s) = test_readLengthPrefixedString s;
          (v, s) = test_readLengthPrefixedString s;
          s = say (Attribute attribute v) s
      in (Inl Undefined_Behaviour, s))"

definition test_print :: "string \<Rightarrow> u64 \<Rightarrow> script \<Rightarrow> script" where
  "test_print message v s = say (Number message v) s"

text \<open>What follows a value type: the pair, or a message.\<close>

definition test_value :: "u8 \<Rightarrow> script \<Rightarrow> script" where
  "test_value value_type s =
     (if value_type = 0 then test_readStringKeyValue s
      else test_print ''Value Type not handled yet: '' (ucast value_type) s)"

text \<open>One iteration of the entry loop behind its marker byte; the result is \<open>value_type\<close> after it. The
  expiry is printed behind the pair, in both cases as milliseconds.\<close>

definition test_entry :: "u8 \<Rightarrow> u8 \<Rightarrow> script \<Rightarrow> u8 \<times> script" where
  "test_entry nextByte value_type s =
     (if nextByte = 0xFC then
        let (time_millisec :: u64, s) = pull (read_uint 8) s;
            (value_type, s) = pull (reread value_type) s;
            s = test_value value_type s
        in (value_type, test_print ''Expiry value in milliseconds: '' time_millisec s)
      else if nextByte = 0xFD then
        let (time_sec :: u32, s) = pull (read_uint 4) s;
            (value_type, s) = pull (reread value_type) s;
            s = test_value value_type s
        in (value_type, test_print ''Expiry value in milliseconds: '' (ucast time_sec) s)
      else (nextByte, test_value nextByte s))"

fun test_entries :: "nat \<Rightarrow> u8 \<Rightarrow> u8 \<Rightarrow> script \<Rightarrow> script" where
  "test_entries 0 nextByte value_type s = s"
| "test_entries (Suc n) nextByte value_type s =
     (let (nextByte, s) = pull (reread nextByte) s;
          (value_type, s) = test_entry nextByte value_type s
      in test_entries n nextByte value_type s)"

definition test_readDatabase :: "script \<Rightarrow> unit result \<times> script" where
  "test_readDatabase s =
     (let s = say Table_Heading s;
          (nextByte :: u8, s) = pull (read_uint 1) s
      in and_go_on (test_readSizeEncoded nextByte s) (\<lambda>database_index s.
      let s = test_print ''Database Index: '' database_index s;
          (nextByte, s) = pull (reread nextByte) s;
          s = test_print ''Hash Table Indicator: '' (ucast nextByte) s
      in if nextByte = 0xFB then
           let (nextByte, s) = pull (reread nextByte) s
           in and_go_on (test_readSizeEncoded nextByte s) (\<lambda>size s.
           let hash_table_size = (ucast size :: u8);
               s = test_print ''Hash Table size: '' (ucast hash_table_size) s;
               (nextByte, s) = pull (reread nextByte) s
           in and_go_on (test_readSizeEncoded nextByte s) (\<lambda>size s.
           let expiry_hash_table_size = (ucast size :: u8);
               s = test_print ''Expiry hash table size: '' (ucast expiry_hash_table_size) s;
               s = say Entries_Heading s;
               (value_type_bytes, s) = pull (uninit 1) s
           in (Inr (), test_entries (unat hash_table_size) nextByte (le_word value_type_bytes) s)))
         else (Inr (), s)))"

section \<open>Every step advances\<close>

text \<open>From a run's start \<open>s0\<close> on the file only moves forward.\<close>

definition moved :: "istream \<Rightarrow> script \<Rightarrow> bool" where
  "moved file s \<longleftrightarrow> advances file (sc_file s)"

lemma moved_refl [simp]: "moved (sc_file s) s"
  by (simp add: moved_def)

lemma moved_say [simp]: "moved file (say x s) \<longleftrightarrow> moved file s"
  by (simp add: moved_def say_def)

lemma moved_print [simp]: "moved file (test_print m v s) \<longleftrightarrow> moved file s"
  by (simp add: test_print_def)

context stream_reader
begin

lemma moved_pull [simp]: "moved file s \<Longrightarrow> moved file (snd (pull rd s))"
  by (auto simp: moved_def pull_def case_prod_beta intro: advances_trans)

end

interpretation uninit_reader: stream_reader "uninit n"
  by unfold_locales (rule advances_uninit)

lemmas moved_pulls [simp] = uint_reader.moved_pull sread_reader.moved_pull byte_reader.moved_pull
  fresh_reader.moved_pull uninit_reader.moved_pull

lemma moved_encoded [simp]: "moved file s \<Longrightarrow> moved file (snd (test_readEncodedString e s))"
  by (simp add: test_readEncodedString_def test_readIntegerEncodedString_def
      test_readLZFCompressedString_def Let_def case_prod_beta)

lemma moved_string [simp]: "moved file s \<Longrightarrow> moved file (snd (test_readLengthPrefixedString s))"
  by (simp add: test_readLengthPrefixedString_def case_prod_beta)

lemma moved_value [simp]: "moved file s \<Longrightarrow> moved file (test_value vt s)"
  by (simp add: test_value_def test_readStringKeyValue_def case_prod_beta)

lemma moved_entry [simp]: "moved file s \<Longrightarrow> moved file (snd (test_entry b vt s))"
  by (simp add: test_entry_def Let_def case_prod_beta)

lemma moved_entries [simp]: "moved file s \<Longrightarrow> moved file (test_entries n b vt s)"
  by (induction n arbitrary: b vt s) (simp_all add: case_prod_beta)

lemma moved_size [simp]: "moved file s \<Longrightarrow> moved file (snd (test_readSizeEncoded e s))"
  by (simp add: test_readSizeEncoded_def case_prod_beta)

lemma moved_go_on:
  "moved file (snd p) \<Longrightarrow> (\<And>x s. moved file s \<Longrightarrow> moved file (snd (f x s))) \<Longrightarrow>
   moved file (snd (and_go_on p f))"
  by (cases "(p, f)" rule: and_go_on.cases) auto

lemma moved_database [simp]: "moved file s \<Longrightarrow> moved file (snd (test_readDatabase s))"
  unfolding test_readDatabase_def Let_def case_prod_beta
  by (simp, intro moved_go_on; simp; intro impI moved_go_on; simp; intro moved_go_on; simp)

section \<open>The section loop and main\<close>

lemma and_go_on_cong [fundef_cong]:
  "p = p' \<Longrightarrow> (\<And>x s. p' = (Inr x, s) \<Longrightarrow> f x s = f' x s) \<Longrightarrow> and_go_on p f = and_go_on p' f'"
  by (cases "(p', f)" rule: and_go_on.cases) auto

lemma marker_fuel_left:
  assumes "(i :: u8, s1) = pull (read_uint 1) s" and "\<not> st_fail (sc_file s)"
    and "moved (sc_file s1) t"
  shows "fuel_left (sc_file t) < fuel_left (sc_file s)"
proof -
  from assms(1) have "read_uint 1 (sc_file s) = (i, sc_file s1)"
    by (auto simp: pull_def split: prod.splits)
  from section_fuel_left [OF this assms(2)] assms(3) show ?thesis
    by (simp add: moved_def)
qed

lemma moved_database_eq: "test_readDatabase s = (r, t) \<Longrightarrow> moved (sc_file s) t"
  using moved_database [of "sc_file s" s] by simp

text \<open>Whether the loop ended normally; the undefined end of \<open>readMetaData\<close> ends it as well.\<close>

function test_loop :: "script \<Rightarrow> unit result \<times> script" where
  "test_loop s =
     (if st_fail (sc_file s) then (Inr (), s)
      else let (indicator :: u8, s1) = pull (read_uint 1) s
           in if indicator = 0xFA then and_go_on (test_readMetaData s1) (\<lambda>_ s2. test_loop s2)
              else if indicator = 0xFE then and_go_on (test_readDatabase s1) (\<lambda>_ s2. test_loop s2)
              else test_loop s1)"
  by pat_completeness auto
termination
  by (relation "measure (\<lambda>s. fuel_left (sc_file s))")
    (auto simp: test_readMetaData_def Let_def case_prod_beta simp del: One_nat_def
      intro: marker_fuel_left moved_database_eq)

declare test_loop.simps [simp del]

text \<open>\<open>parse()\<close>, for the contents of the file, and \<open>main\<close>, which returns 0 either way.\<close>

definition test_parse :: "u8 list option \<Rightarrow> (nat \<Rightarrow> u8) \<Rightarrow> bool result \<times> shown list" where
  "test_parse contents stale =
     (case contents of
        None \<Rightarrow> (Inr False, [Open_Error])
      | Some bytes \<Rightarrow>
          (let (ok, s) = test_readHeader \<lparr>sc_file = open_stream bytes stale, sc_out = []\<rparr>
           in if \<not> ok then (Inr False, sc_out (say Header_Error s))
              else let (r, s) = test_loop s in (and_then r (\<lambda>_. Inr True), sc_out s)))"

definition test_main :: "(string \<Rightarrow> u8 list option) \<Rightarrow> (nat \<Rightarrow> u8) \<Rightarrow> int result \<times> shown list" where
  "test_main fs stale =
     (let (r, out) = test_parse (fs ''dump.rdb'') stale
      in case r of
           Inl e \<Rightarrow> (Inl e, out)
         | Inr ok \<Rightarrow> (Inr 0, out @ [if ok then Parsed else Not_Parsed]))"

end
