(* ===== verification/Script_Equivalence.thy ===== *)
theory Script_Equivalence
  imports Rdb_Script Rdb_Roundtrip
begin

text \<open>
  The dump script against the server's loader. The two programs read the same format with copies of
  the same code that have grown apart: on files both accept, and in which no length byte asks for LZF
  compression, the pairs the script prints are the pairs the loader stores. On a dump without
  metadata the output is given in full; with metadata the script is undefined.
\<close>

section \<open>What the output lists\<close>

fun listed :: "shown list \<Rightarrow> (string \<times> string) list" where
  "listed [] = []"
| "listed (String_Entry k v # out) = (k, v) # listed out"
| "listed (_ # out) = listed out"

lemma listed_append [simp]: "listed (out @ out') = listed out @ listed out'"
  by (induction out rule: listed.induct) auto

lemma sc_file_say [simp]: "sc_file (say x s) = sc_file s"
  by (simp add: say_def)

lemma sc_out_say [simp]: "sc_out (say x s) = sc_out s @ [x]"
  by (simp add: say_def)

lemma sc_print [simp]:
  "sc_file (test_print m v s) = sc_file s" "sc_out (test_print m v s) = sc_out s @ [Number m v]"
  by (simp_all add: test_print_def)

lemma sc_pull [simp]:
  "fst (pull rd s) = fst (rd (sc_file s))" "sc_file (snd (pull rd s)) = snd (rd (sc_file s))"
  "sc_out (snd (pull rd s)) = sc_out s"
  by (simp_all add: pull_def case_prod_beta)

section \<open>Files without compressed strings\<close>

text \<open>No byte the readers can see is the length byte of an LZF string.\<close>

definition no_lzf :: "istream \<Rightarrow> bool" where
  "no_lzf file \<longleftrightarrow> 0xC3 \<notin> set (st_bytes file) \<and> (\<forall>i. st_stale file i \<noteq> 0xC3)"

lemma no_lzf_advances: "advances file t \<Longrightarrow> no_lzf file \<Longrightarrow> no_lzf t"
  by (auto simp: no_lzf_def advances_def dest: set_mono_suffix)

context stream_reader
begin

lemma no_lzf_rd [simp]: "no_lzf file \<Longrightarrow> no_lzf (snd (rd file))"
  by (rule no_lzf_advances [OF rd_snd_advances])

end

lemmas no_lzf_reads [simp] = uint_reader.no_lzf_rd sread_reader.no_lzf_rd byte_reader.no_lzf_rd
  fresh_reader.no_lzf_rd uninit_reader.no_lzf_rd string_reader.no_lzf_rd
  key_value_reader.no_lzf_rd size_reader.no_lzf_rd header_reader.no_lzf_rd

lemma no_lzf_byte: "no_lzf file \<Longrightarrow> fst (read_uint 1 file) \<noteq> (0xC3 :: u8)"
  by (cases "st_bytes file")
    (auto simp: read_uint_def read_fresh_def uninit_def sread_def no_lzf_def le_word_def
      case_prod_beta Let_def)

lemma lzf_byte: "b XOR 0xC0 = 3 \<longleftrightarrow> b = (0xC3 :: u8)"
proof
  assume "b XOR 0xC0 = 3"
  then have "(b XOR 0xC0) XOR 0xC0 = 3 XOR 0xC0" by simp
  then show "b = 0xC3" by (simp add: xor.assoc)
qed simp

section \<open>The shared readers\<close>

lemma integer_string_agrees [simp]:
  "fst (test_readIntegerEncodedString e s) = fst (readIntegerEncodedString e (sc_file s))"
  "sc_file (snd (test_readIntegerEncodedString e s)) =
     snd (readIntegerEncodedString e (sc_file s))"
  "listed (sc_out (snd (test_readIntegerEncodedString e s))) = listed (sc_out s)"
  by (simp_all add: test_readIntegerEncodedString_def readIntegerEncodedString_def case_prod_beta)

lemma string_agrees_unless_lzf:
  assumes "fst (read_uint 1 (sc_file s)) \<noteq> (0xC3 :: u8)"
  shows "fst (test_readLengthPrefixedString s) = fst (readLengthPrefixedString (sc_file s))"
    "sc_file (snd (test_readLengthPrefixedString s)) = snd (readLengthPrefixedString (sc_file s))"
  using assms
  by (simp_all add: test_readLengthPrefixedString_def readLengthPrefixedString_def
      test_readEncodedString_def readEncodedString_def lzf_byte case_prod_beta Let_def
      del: One_nat_def)

lemmas string_agrees = string_agrees_unless_lzf [OF no_lzf_byte]

lemma string_lists_nothing [simp]:
  "listed (sc_out (snd (test_readLengthPrefixedString s))) = listed (sc_out s)"
  by (simp add: test_readLengthPrefixedString_def test_readEncodedString_def
      test_readLZFCompressedString_def case_prod_beta Let_def)

lemma key_value_agrees:
  assumes "no_lzf (sc_file s)"
  shows "sc_file (test_readStringKeyValue s) = snd (readStringKeyValue (sc_file s))"
    "listed (sc_out (test_readStringKeyValue s)) =
       listed (sc_out s) @ [fst (readStringKeyValue (sc_file s))]"
  using assms
  by (simp_all add: test_readStringKeyValue_def readStringKeyValue_def string_agrees case_prod_beta)

lemma size_agrees:
  assumes "test_readSizeEncoded e s = (Inr n, t)"
  shows "readSizeEncoded e (sc_file s) = (n, sc_file t)" "sc_out t = sc_out s"
  using assms
  by (auto simp: test_readSizeEncoded_def readSizeEncoded_def case_prod_beta split: if_splits)

lemma entry_agrees:
  assumes "no_lzf (sc_file s)" and "read_entry b vt (sc_file s) = (Some (kv, e), vt', file)"
  shows "fst (test_entry b vt s) = vt'" "sc_file (snd (test_entry b vt s)) = file"
    "listed (sc_out (snd (test_entry b vt s))) = listed (sc_out s) @ [kv]"
    "no_lzf file"
  using assms
  by (auto simp: read_entry_def test_entry_def test_value_def key_value_agrees case_prod_beta Let_def
      split: if_splits)

section \<open>Sections\<close>

text \<open>The pairs of a list of entries, and the store the loader makes of them.\<close>

definition pairs :: "(string \<times> DBValue) list \<Rightarrow> (string \<times> string) list" where
  "pairs es = map (\<lambda>(k, v). (k, db_value v)) es"

definition put_all :: "(string \<times> DBValue) list \<Rightarrow> DatabaseHandler \<Rightarrow> DatabaseHandler" where
  "put_all es db = fold (\<lambda>(k, v). db_put k v) es db"

lemma put_all_append: "put_all (es @ es') db = put_all es' (put_all es db)"
  by (simp add: put_all_def)

lemma pairs_append [simp]: "pairs (es @ es') = pairs es @ pairs es'"
  by (simp add: pairs_def)

text \<open>What the two programs have done between two positions: the same pairs, in the same order.\<close>

definition agrees :: "script \<Rightarrow> script \<Rightarrow> DatabaseHandler \<Rightarrow> DatabaseHandler \<Rightarrow> bool" where
  "agrees s t db db' \<longleftrightarrow>
     (\<exists>es. listed (sc_out t) = listed (sc_out s) @ pairs es \<and> db' = put_all es db)"

lemma agrees_nothing:
  "listed (sc_out t) = listed (sc_out s) \<Longrightarrow> agrees s t db db"
  unfolding agrees_def by (intro exI [of _ "[]"]) (simp add: pairs_def put_all_def)

lemma agrees_one:
  "listed (sc_out t) = listed (sc_out s) @ [(k, v)] \<Longrightarrow> agrees s t db (db_set k v e db)"
  unfolding agrees_def
  by (intro exI [of _ "[(k, \<lparr>db_value = v, expiry_time = e\<rparr>)]"])
    (simp add: pairs_def put_all_def db_put_def)

lemma agrees_trans: "agrees s t db db' \<Longrightarrow> agrees t u db' db'' \<Longrightarrow> agrees s u db db''"
  unfolding agrees_def by (metis append_assoc pairs_append put_all_append)

lemma agrees_from: "listed (sc_out s) = listed (sc_out s') \<Longrightarrow> agrees s t db db' = agrees s' t db db'"
  by (simp add: agrees_def)

lemma entries_agree:
  "read_entries n b vt (sc_file s) db = (True, file, db') \<Longrightarrow> no_lzf (sc_file s) \<Longrightarrow>
   sc_file (test_entries n b vt s) = file \<and> agrees s (test_entries n b vt s) db db'"
proof (induction n arbitrary: b vt s db)
  case 0
  then show ?case by (auto intro: agrees_nothing)
next
  case (Suc n)
  obtain b1 s1 where s1: "pull (reread b) s = (b1, s1)" by fastforce
  then have r: "reread b (sc_file s) = (b1, sc_file s1)" and out: "sc_out s1 = sc_out s"
    using sc_pull [of "reread b" s] by (auto intro: prod_eqI)
  obtain k v e vt1 f2 where
    e: "read_entry b1 vt (sc_file s1) = (Some ((k, v), e), vt1, f2)"
       "read_entries n b1 vt1 f2 (db_set k v e db) = (True, file, db')"
    using Suc.prems(1) r by (auto split: prod.splits option.splits)
  have "no_lzf (sc_file s1)"
    using byte_reader.no_lzf_rd [OF Suc.prems(2), of b] r by simp
  note e' = entry_agrees [OF this e(1)]
  obtain s2 where s2: "test_entry b1 vt s1 = (vt1, s2)"
    using e'(1) by (cases "test_entry b1 vt s1") auto
  with e' have f2: "sc_file s2 = f2" "listed (sc_out s2) = listed (sc_out s1) @ [(k, v)]" "no_lzf f2"
    by simp_all
  from Suc.IH [of b1 vt1 s2 "db_set k v e db"] e(2) f2
  have "sc_file (test_entries n b1 vt1 s2) = file"
    "agrees s2 (test_entries n b1 vt1 s2) (db_set k v e db) db'" by simp_all
  moreover have "agrees s s2 db (db_set k v e db)"
    using f2(2) out by (intro agrees_one) simp
  ultimately show ?case
    using s1 s2 agrees_trans by auto
qed

lemma go_on_Inr_iff:
  "and_go_on p f = (Inr y, t) \<longleftrightarrow> (\<exists>x s. p = (Inr x, s) \<and> f x s = (Inr y, t))"
  by (cases "(p, f)" rule: and_go_on.cases) auto

lemma pull_eq: "pull rd s = (x, t) \<Longrightarrow> rd (sc_file s) = (x, sc_file t) \<and> sc_out t = sc_out s"
  using sc_pull [of rd s] by (auto intro: prod_eqI)

text \<open>The loader reads a database section the script reads to its end.\<close>

lemma database_agrees:
  assumes "test_readDatabase s = (Inr (), t)" and "readDatabase (sc_file s) db = (True, file, db')"
    and "no_lzf (sc_file s)"
  shows "sc_file t = file \<and> agrees s t db db'"
proof -
  obtain b1 s1 where 1: "pull (read_uint 1) (say Table_Heading s) = (b1 :: u8, s1)" by fastforce
  obtain i s2 where 2: "test_readSizeEncoded b1 s1 = (Inr i, s2)"
    using assms(1) 1 by (auto simp: test_readDatabase_def go_on_Inr_iff)
  obtain b3 s3 where 3: "pull (reread b1) (test_print ''Database Index: '' i s2) = (b3, s3)" by fastforce
  note 12 = pull_eq [OF 1] size_agrees [OF 2] pull_eq [OF 3]
  have lzf: "no_lzf (sc_file s3)"
    using assms(3) 12 by (metis sc_file_say sc_print(1) no_lzf_reads(1,3,8) snd_conv)
  show ?thesis
  proof (cases "b3 = 0xFB")
    case False
    then have "t = test_print ''Hash Table Indicator: '' (ucast b3) s3" "file = sc_file s3" "db' = db"
      using assms(1,2) 1 2 3 12 by (auto simp: test_readDatabase_def readDatabase_def Let_def)
    then show ?thesis
      using 12 by (auto intro!: agrees_nothing)
  next
    case True
    let ?s3 = "test_print ''Hash Table Indicator: '' (ucast b3) s3"
    obtain b4 s4 where 4: "pull (reread b3) ?s3 = (b4, s4)" by fastforce
    obtain n5 s5 where 5: "test_readSizeEncoded b4 s4 = (Inr n5, s5)"
      using assms(1) 1 2 3 4 True by (auto simp: test_readDatabase_def go_on_Inr_iff Let_def)
    let ?s5 = "test_print ''Hash Table size: '' (ucast (ucast n5 :: u8)) s5"
    obtain b6 s6 where 6: "pull (reread b4) ?s5 = (b6, s6)" by fastforce
    obtain n7 s7 where 7: "test_readSizeEncoded b6 s6 = (Inr n7, s7)"
      using assms(1) 1 2 3 4 5 6 True by (auto simp: test_readDatabase_def go_on_Inr_iff Let_def)
    let ?s7 = "say Entries_Heading (test_print ''Expiry hash table size: '' (ucast (ucast n7 :: u8)) s7)"
    obtain v s8 where 8: "pull (uninit 1) ?s7 = (v, s8)" by fastforce
    note 48 = pull_eq [OF 4] size_agrees [OF 5] pull_eq [OF 6] size_agrees [OF 7] pull_eq [OF 8]
    have t: "t = test_entries (unat (ucast n5 :: u8)) b6 (le_word v) s8"
      using assms(1) 1 2 3 4 5 6 7 8 True by (simp add: test_readDatabase_def)
    have "read_entries (unat (ucast n5 :: u8)) b6 (le_word v) (sc_file s8) db = (True, file, db')"
      using assms(2) 12 48 True by (simp add: readDatabase_def)
    moreover have "no_lzf (sc_file s8)"
      using lzf 48 by (metis sc_file_say sc_print(1) no_lzf_reads(3,5,8) snd_conv)
    moreover have "listed (sc_out s8) = listed (sc_out s)"
      using 12 48 by simp
    ultimately show ?thesis
      using entries_agree agrees_from t by blast
  qed
qed

lemma metadata_undefined: "fst (test_readMetaData s) = Inl Undefined_Behaviour"
  by (simp add: test_readMetaData_def Let_def case_prod_beta)

lemma go_on_error: "fst p = Inl e \<Longrightarrow> and_go_on p f = (Inl e, snd p)"
  by (cases "(p, f)" rule: and_go_on.cases) auto

lemma loop_agrees:
  "test_loop s = (Inr (), t) \<Longrightarrow> parse_loop (sc_file s) db = (True, file, db') \<Longrightarrow>
   no_lzf (sc_file s) \<Longrightarrow> agrees s t db db'"
proof (induction s arbitrary: db rule: test_loop.induct)
  case (1 s)
  show ?case
  proof (cases "st_fail (sc_file s)")
    case True
    with "1.prems" show ?thesis
      by (auto simp: test_loop.simps [of s] intro: agrees_nothing)
  next
    case False
    obtain i s1 where i: "pull (read_uint 1) s = (i :: u8, s1)" by fastforce
    note r = pull_eq [OF i]
    have lzf: "no_lzf (sc_file s1)"
      using uint_reader.no_lzf_rd [OF "1.prems"(3), of 1] r by (metis snd_conv)
    have not_meta: "i \<noteq> 0xFA"
      using "1.prems"(1) False i by (auto simp: test_loop.simps [of s] go_on_error metadata_undefined)
    show ?thesis
    proof (cases "i = 0xFE")
      case True
      obtain s2 where s2: "test_readDatabase s1 = (Inr (), s2)" "test_loop s2 = (Inr (), t)"
        using "1.prems"(1) False i True by (auto simp: test_loop.simps [of s] go_on_Inr_iff)
      obtain f2 db2 where f2: "readDatabase (sc_file s1) db = (True, f2, db2)"
        "parse_loop f2 db2 = (True, file, db')"
        using "1.prems"(2) False r True
        by (auto simp: parse_loop.simps [of "sc_file s"] split: prod.splits if_splits)
      from database_agrees [OF s2(1) f2(1) lzf] have a: "sc_file s2 = f2" "agrees s1 s2 db db2"
        by simp_all
      have "no_lzf (sc_file s2)"
        using no_lzf_advances [OF advances_readDatabase [OF f2(1)] lzf] a(1) by simp
      from "1.IH"(2) [OF False i [symmetric] refl not_meta True s2(1) _ _ this, of db2] s2(2) f2(2) a(1)
      have "agrees s2 t db2 db'" by simp
      with a(2) have "agrees s1 t db db'" by (rule agrees_trans)
      with r show ?thesis using agrees_from by metis
    next
      case no_table: False
      have "test_loop s1 = (Inr (), t)" "parse_loop (sc_file s1) db = (True, file, db')"
        using "1.prems"(1,2) False i r not_meta no_table
        by (simp_all add: test_loop.simps [of s] parse_loop.simps [of "sc_file s"])
      from "1.IH"(3) [OF False i [symmetric] refl not_meta no_table this lzf] r show ?thesis
        using agrees_from by metis
    qed
  qed
qed

section \<open>The output on an encoded dump\<close>

lemma script_eqI: "sc_file s = fl \<Longrightarrow> sc_out s = out \<Longrightarrow> s = \<lparr>sc_file = fl, sc_out = out\<rparr>"
  by (cases s) simp

lemma test_string_at:
  assumes "stream_at fl (enc_string str @ bs)" and "short str"
  shows "\<exists>t. test_readLengthPrefixedString \<lparr>sc_file = fl, sc_out = out\<rparr> =
    (str, \<lparr>sc_file = t, sc_out = out\<rparr>) \<and> stream_at t bs \<and> st_stale t = st_stale fl"
proof -
  let ?s = "\<lparr>sc_file = fl, sc_out = out\<rparr>"
  obtain t where t: "readLengthPrefixedString fl = (str, t)" "stream_at t bs"
    using readLengthPrefixedString_at [OF assms] by blast
  have n: "length str < 64" using assms(2) by (simp add: short_def)
  have byte: "fst (read_uint 1 fl) = (word_of_nat (length str) :: u8)"
    using read_byte_at [of fl] assms(1) by (fastforce simp: enc_string_def)
  moreover have "(0xC3 :: u8) AND 0xC0 \<noteq> 0" by simp
  then have "(word_of_nat (length str) :: u8) \<noteq> 0xC3"
    using small_size_byte [OF n] by metis
  ultimately have "fst (test_readLengthPrefixedString ?s) = str"
    "sc_file (snd (test_readLengthPrefixedString ?s)) = t"
    using string_agrees_unless_lzf [of ?s] t(1) by simp_all
  moreover have "sc_out (snd (test_readLengthPrefixedString ?s)) = out"
    using n byte by (simp add: test_readLengthPrefixedString_def case_prod_beta del: One_nat_def)
  ultimately show ?thesis
    using t advances_stale [OF advances_readLengthPrefixedString [OF t(1)]]
    by (intro exI [of _ t]) (simp add: prod_eq_iff)
qed

lemma test_key_value_at:
  assumes "stream_at fl (enc_string k @ enc_string v @ bs)" and "short k" and "short v"
  shows "\<exists>t. test_readStringKeyValue \<lparr>sc_file = fl, sc_out = out\<rparr> =
    \<lparr>sc_file = t, sc_out = out @ [String_Entry k v]\<rparr> \<and> stream_at t bs \<and> st_stale t = st_stale fl"
proof -
  from test_string_at [OF assms(1,2), of out] obtain t1 where
    "test_readLengthPrefixedString \<lparr>sc_file = fl, sc_out = out\<rparr> =
       (k, \<lparr>sc_file = t1, sc_out = out\<rparr>)" "stream_at t1 (enc_string v @ bs)"
    "st_stale t1 = st_stale fl" by blast
  moreover from test_string_at [OF this(2) assms(3), of out] obtain t where
    "test_readLengthPrefixedString \<lparr>sc_file = t1, sc_out = out\<rparr> =
       (v, \<lparr>sc_file = t, sc_out = out\<rparr>)" "stream_at t bs" "st_stale t = st_stale t1" by blast
  ultimately show ?thesis
    by (simp add: test_readStringKeyValue_def say_def)
qed

text \<open>The lines for one entry.\<close>

definition entry_lines :: "string \<times> DBValue \<Rightarrow> shown list" where
  "entry_lines kv = String_Entry (fst kv) (db_value (snd kv)) #
     (if expiry_time (snd kv) = 0 then []
      else [Number ''Expiry value in milliseconds: '' (word_of_int (expiry_time (snd kv)))])"

lemma pull_pair: "pull rd \<lparr>sc_file = fl, sc_out = out\<rparr> =
    (fst (rd fl), \<lparr>sc_file = snd (rd fl), sc_out = out\<rparr>)"
  by (simp add: pull_def case_prod_beta)

lemma reads_stale:
  "read_uint n fl = (w, t) \<Longrightarrow> st_stale t = st_stale fl"
  "reread old fl = (b, t) \<Longrightarrow> st_stale t = st_stale fl"
  "uninit n fl = (bs, t) \<Longrightarrow> st_stale t = st_stale fl"
  by (auto dest!: advances_read_uint byte_reader.rd_advances advances_uninit advances_stale)

lemma le_word_of_int:
  assumes "0 \<le> e" and "e < 2 ^ 63"
  shows "(le_word (le_bytes 8 (nat e)) :: u64) = word_of_int e"
proof -
  have "word_of_int (sint (le_word (le_bytes 8 (nat e)) :: u64)) = (word_of_int e :: u64)"
    by (simp only: sint_le_word_le_bytes [OF assms])
  then show ?thesis by (simp only: of_int_sint scast_id)
qed

lemma test_entry_at:
  assumes "stream_at fl (enc_entry kv @ bs)" and "entry_ok kv"
  shows "\<exists>b vt f1 t. pull (reread old) \<lparr>sc_file = fl, sc_out = out\<rparr> =
      (b, \<lparr>sc_file = f1, sc_out = out\<rparr>) \<and>
    test_entry b vt0 \<lparr>sc_file = f1, sc_out = out\<rparr> =
      (vt, \<lparr>sc_file = t, sc_out = out @ entry_lines kv\<rparr>) \<and>
    stream_at t bs \<and> st_stale t = st_stale fl"
proof -
  let ?e = "expiry_time (snd kv)"
  let ?body = "enc_string (fst kv) @ enc_string (db_value (snd kv)) @ bs"
  have ok: "short (fst kv)" "short (db_value (snd kv))" "0 \<le> ?e" "?e < 2 ^ 63"
    using assms(2) by (simp_all add: entry_ok_def)
  show ?thesis
  proof (cases "?e = 0")
    case True
    from reread_at [of fl 0 ?body old] assms(1) True obtain f1 where
      1: "reread old fl = (0, f1)" "stream_at f1 ?body"
      by (auto simp: enc_entry_def enc_expiry_def)
    from test_key_value_at [OF 1(2) ok(1,2), of out] obtain t where
      "test_readStringKeyValue \<lparr>sc_file = f1, sc_out = out\<rparr> =
         \<lparr>sc_file = t, sc_out = out @ entry_lines kv\<rparr>" "stream_at t bs" "st_stale t = st_stale f1"
      using True by (auto simp: entry_lines_def)
    with 1 reads_stale(2) [OF 1(1)] show ?thesis
      by (simp add: pull_pair test_entry_def test_value_def)
  next
    case False
    from reread_at [of fl "0xFC" "le_bytes 8 (nat ?e) @ 0 # ?body" old] assms(1) False obtain f1 where
      1: "reread old fl = (0xFC, f1)" "stream_at f1 (le_bytes 8 (nat ?e) @ 0 # ?body)"
      by (auto simp: enc_entry_def enc_expiry_def)
    from read_uint_at [OF 1(2), where ?'a = 64] obtain f2 where
      2: "read_uint 8 f1 = (word_of_int ?e :: u64, f2)" "stream_at f2 (0 # ?body)"
      by (auto simp: le_word_of_int [OF ok(3,4)])
    from reread_at [OF 2(2), of vt0] obtain f3 where
      3: "reread vt0 f2 = (0, f3)" "stream_at f3 ?body" by auto
    from test_key_value_at [OF 3(2) ok(1,2), of out] obtain t where
      "test_readStringKeyValue \<lparr>sc_file = f3, sc_out = out\<rparr> =
         \<lparr>sc_file = t, sc_out = out @ [String_Entry (fst kv) (db_value (snd kv))]\<rparr>"
      "stream_at t bs" "st_stale t = st_stale f3" by blast
    with 1 2 3 reads_stale(2) [OF 1(1)] reads_stale(1) [OF 2(1)] reads_stale(2) [OF 3(1)] False
    show ?thesis
      by (simp add: pull_pair test_entry_def test_value_def test_print_def say_def entry_lines_def)
  qed
qed

lemma test_entries_at:
  "stream_at fl (concat (map enc_entry entries) @ bs) \<Longrightarrow> list_all entry_ok entries \<Longrightarrow>
   \<exists>t. test_entries (length entries) b vt \<lparr>sc_file = fl, sc_out = out\<rparr> =
     \<lparr>sc_file = t, sc_out = out @ concat (map entry_lines entries)\<rparr> \<and> stream_at t bs \<and>
     st_stale t = st_stale fl"
proof (induction entries arbitrary: fl b vt out)
  case (Cons kv entries)
  then have "stream_at fl (enc_entry kv @ concat (map enc_entry entries) @ bs)" "entry_ok kv"
    by simp_all
  from test_entry_at [OF this, of b out vt] obtain b1 vt1 f1 f2 where
    1: "pull (reread b) \<lparr>sc_file = fl, sc_out = out\<rparr> = (b1, \<lparr>sc_file = f1, sc_out = out\<rparr>)"
       "test_entry b1 vt \<lparr>sc_file = f1, sc_out = out\<rparr> =
          (vt1, \<lparr>sc_file = f2, sc_out = out @ entry_lines kv\<rparr>)"
       "stream_at f2 (concat (map enc_entry entries) @ bs)" "st_stale f2 = st_stale fl"
    by blast
  from Cons.IH [OF 1(3), of b1 vt1 "out @ entry_lines kv"] Cons.prems(2) 1 show ?case by auto
qed simp

lemma test_size_small:
  "n < 64 \<Longrightarrow> test_readSizeEncoded (word_of_nat n) s = (Inr (word_of_nat n), s)"
  by (simp add: test_readSizeEncoded_def unsigned_of_nat take_bit_nat_eq_self)

lemma small_size_cast: "n < 64 \<Longrightarrow> unat (ucast (word_of_nat n :: u64) :: u8) = n"
  by (simp add: unsigned_ucast_eq unat_of_nat take_bit_nat_eq_self)

lemma small_size_ucast: "n < 64 \<Longrightarrow> ucast (ucast (word_of_nat n :: u64) :: u8) = (word_of_nat n :: u64)"
  by (metis of_nat_unat small_size_cast)

text \<open>The lines for a database section with its entries.\<close>

definition table_lines :: "nat \<Rightarrow> nat \<Rightarrow> shown list" where
  "table_lines n m =
     [Table_Heading, Number ''Database Index: '' 0, Number ''Hash Table Indicator: '' 0xFB,
      Number ''Hash Table size: '' (word_of_nat n),
      Number ''Expiry hash table size: '' (word_of_nat m), Entries_Heading]"

lemma test_database_at:
  assumes "stream_at fl ([0, 0xFB, word_of_nat (length entries), word_of_nat m] @
      concat (map enc_entry entries) @ bs)"
    and "list_all entry_ok entries" and "length entries < 64" and "m < 64"
  shows "\<exists>t. test_readDatabase \<lparr>sc_file = fl, sc_out = out\<rparr> = (Inr (), \<lparr>sc_file = t,
      sc_out = out @ table_lines (length entries) m @ concat (map entry_lines entries)\<rparr>) \<and>
    stream_at t bs \<and> st_stale t = st_stale fl"
proof -
  let ?n = "word_of_nat (length entries) :: u8" and ?m = "word_of_nat m :: u8"
  let ?es = "concat (map enc_entry entries) @ bs"
  from read_byte_at [of fl 0 "0xFB # ?n # ?m # ?es"] assms(1) obtain f1 where
    1: "read_uint 1 fl = (0 :: u8, f1)" "stream_at f1 (0xFB # ?n # ?m # ?es)" by auto
  from reread_at [OF 1(2), of 0] obtain f2 where
    2: "reread 0 f1 = (0xFB, f2)" "stream_at f2 (?n # ?m # ?es)" by auto
  from reread_at [OF 2(2), of "0xFB"] obtain f3 where
    3: "reread 0xFB f2 = (?n, f3)" "stream_at f3 (?m # ?es)" by auto
  from reread_at [OF 3(2), of ?n] obtain f4 where
    4: "reread ?n f3 = (?m, f4)" "stream_at f4 ?es" by auto
  obtain v f5 where 5: "uninit 1 f4 = (v, f5)" by fastforce
  with 4(2) have "stream_at f5 ?es"
    by (auto simp: uninit_def stream_at_def)
  from test_entries_at [OF this assms(2), of ?m "le_word v" "out @ table_lines (length entries) m"]
  obtain t where t: "test_entries (length entries) ?m (le_word v)
      \<lparr>sc_file = f5, sc_out = out @ table_lines (length entries) m\<rparr> =
    \<lparr>sc_file = t, sc_out = out @ table_lines (length entries) m @ concat (map entry_lines entries)\<rparr>"
    "stream_at t bs" "st_stale t = st_stale f5" by auto
  note stale = reads_stale(1) [OF 1(1)] reads_stale(2) [OF 2(1)] reads_stale(2) [OF 3(1)]
    reads_stale(2) [OF 4(1)] reads_stale(3) [OF 5]
  note sizes = test_size_small [of 0] test_size_small [OF assms(3)] test_size_small [OF assms(4)]
    small_size_cast [OF assms(3)] small_size_ucast [OF assms(3)] small_size_ucast [OF assms(4)]
  note reads = 1(1) [unfolded One_nat_def] 2(1) 3(1) 4(1) 5 [unfolded One_nat_def]
  from t stale sizes show ?thesis
    by (simp add: test_readDatabase_def pull_pair reads say_def test_print_def table_lines_def)
qed

lemma test_loop_end:
  "stream_at fl [] \<Longrightarrow> \<not> marker (st_stale fl (st_drawn fl)) \<Longrightarrow>
   \<exists>t. test_loop \<lparr>sc_file = fl, sc_out = out\<rparr> = (Inr (), \<lparr>sc_file = t, sc_out = out\<rparr>)"
  by (auto simp: test_loop.simps [of "\<lparr>sc_file = fl, sc_out = out\<rparr>"] test_loop.simps stream_at_def
      pull_def read_uint_def read_fresh_def uninit_def sread_def le_word_def marker_def)

lemma test_loop_tail:
  "stream_at fl bs \<Longrightarrow> list_all (\<lambda>b. \<not> marker b) bs \<Longrightarrow> (\<And>i. \<not> marker (st_stale fl i)) \<Longrightarrow>
   \<exists>t. test_loop \<lparr>sc_file = fl, sc_out = out\<rparr> = (Inr (), \<lparr>sc_file = t, sc_out = out\<rparr>)"
proof (induction bs arbitrary: fl)
  case Nil
  then show ?case by (intro test_loop_end) auto
next
  case (Cons b bs)
  from read_byte_at [OF Cons.prems(1)] obtain t where
    t: "read_uint 1 fl = (b, t)" "stream_at t bs" by blast
  have "test_loop \<lparr>sc_file = fl, sc_out = out\<rparr> = test_loop \<lparr>sc_file = t, sc_out = out\<rparr>"
    using Cons.prems(1,2) t(1)
    by (simp add: test_loop.simps [of "\<lparr>sc_file = fl, sc_out = out\<rparr>"] stream_at_def pull_pair marker_def)
  with Cons.IH [OF t(2)] Cons.prems reads_stale(1) [OF t(1)] show ?case by simp
qed

lemma test_header_at:
  assumes "stream_at fl (map byte_of_char (''REDIS'' @ version) @ bs)" and "length version = 4"
  shows "\<exists>t. test_readHeader \<lparr>sc_file = fl, sc_out = out\<rparr> =
    (True, \<lparr>sc_file = t, sc_out = out @ [Version version]\<rparr>) \<and> stream_at t bs \<and>
    st_stale t = st_stale fl"
proof -
  from read_fresh_at [OF assms(1), of 9] assms(2) obtain t where
    t: "read_fresh 9 fl = (map byte_of_char (''REDIS'' @ version), t)" "stream_at t bs" by auto
  moreover have "st_stale t = st_stale fl"
    using t(1) by (auto dest: advances_stale [OF fresh_reader.rd_advances])
  ultimately show ?thesis
    by (simp add: test_readHeader_def pull_pair say_def)
qed

text \<open>Behind the header of a dump.\<close>

lemma test_parse_header:
  assumes "length version = 4" and "bytes = map byte_of_char (''REDIS'' @ version) @ bs"
  shows "\<exists>t. test_parse (Some bytes) stale =
      (let (r, s) = test_loop \<lparr>sc_file = t, sc_out = [Version version]\<rparr>
       in (and_then r (\<lambda>_. Inr True), sc_out s)) \<and>
    stream_at t bs \<and> st_stale t = stale"
proof -
  have "stream_at (open_stream bytes stale) (map byte_of_char (''REDIS'' @ version) @ bs)"
    using assms(2) by simp
  from test_header_at [OF this assms(1), of "[]"] obtain t where
    "test_readHeader \<lparr>sc_file = open_stream bytes stale, sc_out = []\<rparr> =
       (True, \<lparr>sc_file = t, sc_out = [Version version]\<rparr>)"
    "stream_at t bs" "st_stale t = stale"
    by (auto simp: open_stream_def)
  then show ?thesis
    by (intro exI [of _ t]) (simp add: test_parse_def)
qed

lemma test_parse_dump:
  assumes "length version = 4" and "list_all entry_ok entries" and "length entries < 64"
    and "list_all (\<lambda>b. \<not> marker b) crc" and "\<And>i. \<not> marker (stale i)"
  defines "m \<equiv> length (filter (\<lambda>kv. expiry_time (snd kv) \<noteq> 0) entries)"
  shows "test_parse (Some (rdb_dump version [] entries crc)) stale =
    (Inr True, Version version # table_lines (length entries) m @ concat (map entry_lines entries))"
proof -
  let ?bs = "concat (map enc_entry entries) @ 0xFF # crc"
  let ?section = "[0, 0xFB, word_of_nat (length entries), word_of_nat m] @ ?bs"
  have m: "m < 64"
    unfolding m_def using assms(3) length_filter_le [of _ entries] by (rule le_less_trans [rotated])
  have "rdb_dump version [] entries crc = map byte_of_char (''REDIS'' @ version) @ 0xFE # ?section"
    by (simp add: rdb_dump_def m_def)
  from test_parse_header [OF assms(1) this, of stale] obtain f1 where
    1: "test_parse (Some (rdb_dump version [] entries crc)) stale =
          (let (r, s) = test_loop \<lparr>sc_file = f1, sc_out = [Version version]\<rparr>
           in (and_then r (\<lambda>_. Inr True), sc_out s))"
       "stream_at f1 (0xFE # ?section)" "st_stale f1 = stale" by blast
  from read_byte_at [OF 1(2)] obtain f2 where
    2: "read_uint 1 f1 = (0xFE :: u8, f2)" "stream_at f2 ?section" by blast
  let ?out = "Version version # table_lines (length entries) m @ concat (map entry_lines entries)"
  from test_database_at [OF 2(2) assms(2,3) m, of "[Version version]"] obtain f3 where
    3: "test_readDatabase \<lparr>sc_file = f2, sc_out = [Version version]\<rparr> =
          (Inr (), \<lparr>sc_file = f3, sc_out = ?out\<rparr>)"
       "stream_at f3 (0xFF # crc)" "st_stale f3 = st_stale f2" by auto
  have "test_loop \<lparr>sc_file = f1, sc_out = [Version version]\<rparr> =
      test_loop \<lparr>sc_file = f3, sc_out = ?out\<rparr>"
    using 1(2) 2(1) 3(1)
    by (simp add: test_loop.simps [of "\<lparr>sc_file = f1, sc_out = [Version version]\<rparr>"] stream_at_def
        pull_pair)
  moreover have "list_all (\<lambda>b. \<not> marker b) (0xFF # crc)"
    using assms(4) by (simp add: marker_def)
  from test_loop_tail [OF 3(2) this, of ?out] assms(5) obtain t where
    "test_loop \<lparr>sc_file = f3, sc_out = ?out\<rparr> = (Inr (), \<lparr>sc_file = t, sc_out = ?out\<rparr>)"
    using 1(3) 3(3) reads_stale(1) [OF 2(1)] by auto
  ultimately show ?thesis
    by (simp add: 1(1))
qed

text \<open>A compressed string comes back as NULs: the decompression is missing.\<close>

lemma lzf_string_is_lost:
  assumes "stream_at fl (0xC3 # le_bytes 4 (length ds) @ le_bytes 4 n @ ds @ bs)"
    and "length ds < 2 ^ 32" and "n < 2 ^ 32"
  shows "\<exists>t. test_readLengthPrefixedString \<lparr>sc_file = fl, sc_out = out\<rparr> =
    (replicate n NUL, \<lparr>sc_file = t, sc_out = out\<rparr>) \<and> stream_at t bs"
proof -
  from read_byte_at [OF assms(1)] obtain f1 where
    1: "read_uint 1 fl = (0xC3 :: u8, f1)"
       "stream_at f1 (le_bytes 4 (length ds) @ le_bytes 4 n @ ds @ bs)" by blast
  from read_uint_at [OF 1(2), of 4, where ?'a = 32] obtain f2 where
    2: "read_uint 4 f1 = (le_word (le_bytes 4 (length ds)) :: u32, f2)"
       "stream_at f2 (le_bytes 4 n @ ds @ bs)" by auto
  from read_uint_at [OF 2(2), of 4, where ?'a = 32] obtain f3 where
    3: "read_uint 4 f2 = (le_word (le_bytes 4 n) :: u32, f3)" "stream_at f3 (ds @ bs)" by auto
  have len: "unat (le_word (le_bytes 4 (length ds)) :: u32) = length ds"
    "unat (le_word (le_bytes 4 n) :: u32) = n"
    using assms(2,3) by (simp_all add: unat_le_word_le_bytes)
  from sread_at [OF 3(2), of "replicate (length ds) 0"] obtain t where
    "sread (replicate (length ds) 0) f3 = (ds, t)" "stream_at t bs" by auto
  with 1(1) [unfolded One_nat_def] 2(1) 3(1) len show ?thesis
    by (simp add: test_readLengthPrefixedString_def test_readEncodedString_def pull_pair
        test_readLZFCompressedString_def lzfDecompress_def)
qed

section \<open>Properties\<close>

text \<open>C21: On every file that both programs read to the end and that holds no byte 0xC3 (as a length byte it
  asks for LZF compression, which the two read differently), with no such byte on the stack either, the dump
  script lists exactly the pairs the server's loader stores, in the same order.\<close>

theorem script_lists_what_loader_stores:
  assumes "test_parse (Some bytes) stale = (Inr True, out)"
    and "rdb_parse (Some bytes) stale db = (True, db')"
    and "0xC3 \<notin> set bytes" and "\<And>i. stale i \<noteq> 0xC3"
  shows "\<exists>es. listed out = pairs es \<and> db' = put_all es db"
proof -
  let ?s = "\<lparr>sc_file = open_stream bytes stale, sc_out = []\<rparr>"
  obtain h where h: "test_readHeader ?s = (True, h)"
    using assms(1) by (auto simp: test_parse_def split: prod.splits if_splits)
  then have r: "readHeader (open_stream bytes stale) = (True, sc_file h)" "listed (sc_out h) = []"
    by (auto simp: test_readHeader_def readHeader_def case_prod_beta split: if_splits)
  obtain t where t: "test_loop h = (Inr (), t)" "out = sc_out t"
    using assms(1) h by (auto simp: test_parse_def and_then_Inr_iff split: prod.splits)
  obtain fl where "parse_loop (sc_file h) db = (True, fl, db')"
    using assms(2) r(1) by (auto simp: rdb_parse_def split: prod.splits)
  moreover have "no_lzf (open_stream bytes stale)"
    using assms(3,4) by (simp add: no_lzf_def open_stream_def)
  then have "no_lzf (sc_file h)"
    using header_reader.no_lzf_rd r(1) by (metis snd_conv)
  ultimately show ?thesis
    using loop_agrees [OF t(1)] r(2) t(2) by (fastforce simp: agrees_def)
qed

theorem script_lists_what_loader_stores_witness:
  "\<exists>es. listed (snd (test_parse (Some (rdb_dump ''0011'' []
       [(''k'', \<lparr>db_value = ''v'', expiry_time = 0\<rparr>)] [])) (\<lambda>i. 0))) = pairs es \<and>
     db_set ''k'' ''v'' 0 empty_db = put_all es empty_db"
proof -
  let ?es = "[(''k'', \<lparr>db_value = ''v'', expiry_time = 0\<rparr>)]"
  have "test_parse (Some (rdb_dump ''0011'' [] ?es [])) (\<lambda>i. 0) =
      (Inr True, snd (test_parse (Some (rdb_dump ''0011'' [] ?es [])) (\<lambda>i. 0)))"
    using test_parse_dump [of "''0011''" ?es "[]" "\<lambda>i. 0"]
    by (simp add: entry_ok_def short_def marker_def)
  moreover have "rdb_parse (Some (rdb_dump ''0011'' [] ?es [])) (\<lambda>i. 0) empty_db =
      (True, db_set ''k'' ''v'' 0 empty_db)"
    using rdb_parse_dump [of "''0011''" "[]" ?es "[]" "\<lambda>i. 0" empty_db]
    by (simp add: entry_ok_def short_def marker_def db_put_def)
  moreover have "0xC3 \<notin> set (rdb_dump ''0011'' [] ?es [])"
    by code_simp
  ultimately show ?thesis
    by (rule script_lists_what_loader_stores) simp
qed

text \<open>On a dump with metadata, which every dump of Redis has, the script's behaviour is undefined
  as soon as it has printed the first attribute: \<open>readMetaData\<close> promises a result and returns none.\<close>

lemma script_undefined_on_metadata:
  assumes "length version = 4" and "short (fst av)" and "short (snd av)"
  shows "test_parse (Some (rdb_dump version (av # metas) entries crc)) stale =
    (Inl Undefined_Behaviour, [Version version, Metadata_Heading, Attribute (fst av) (snd av)])"
proof -
  let ?bs = "concat (map enc_meta metas) @ [0xFE, 0, 0xFB, word_of_nat (length entries),
      word_of_nat (length (filter (\<lambda>kv. expiry_time (snd kv) \<noteq> 0) entries))] @
    concat (map enc_entry entries) @ 0xFF # crc"
  have "rdb_dump version (av # metas) entries crc =
      map byte_of_char (''REDIS'' @ version) @ 0xFA # enc_string (fst av) @ enc_string (snd av) @ ?bs"
    by (simp add: rdb_dump_def enc_meta_def)
  from test_parse_header [OF assms(1) this, of stale] obtain f1 where
    1: "test_parse (Some (rdb_dump version (av # metas) entries crc)) stale =
          (let (r, s) = test_loop \<lparr>sc_file = f1, sc_out = [Version version]\<rparr>
           in (and_then r (\<lambda>_. Inr True), sc_out s))"
       "stream_at f1 (0xFA # enc_string (fst av) @ enc_string (snd av) @ ?bs)" by blast
  from read_byte_at [OF 1(2)] obtain f2 where
    2: "read_uint 1 f1 = (0xFA :: u8, f2)" "stream_at f2 (enc_string (fst av) @ enc_string (snd av) @ ?bs)"
    by blast
  from test_string_at [OF 2(2) assms(2), of "[Version version, Metadata_Heading]"] obtain f3 where
    3: "test_readLengthPrefixedString \<lparr>sc_file = f2, sc_out = [Version version, Metadata_Heading]\<rparr> =
          (fst av, \<lparr>sc_file = f3, sc_out = [Version version, Metadata_Heading]\<rparr>)"
       "stream_at f3 (enc_string (snd av) @ ?bs)" by blast
  from test_string_at [OF 3(2) assms(3), of "[Version version, Metadata_Heading]"] obtain f4 where
    4: "test_readLengthPrefixedString \<lparr>sc_file = f3, sc_out = [Version version, Metadata_Heading]\<rparr> =
          (snd av, \<lparr>sc_file = f4, sc_out = [Version version, Metadata_Heading]\<rparr>)" by blast
  have "test_loop \<lparr>sc_file = f1, sc_out = [Version version]\<rparr> = (Inl Undefined_Behaviour,
      \<lparr>sc_file = f4, sc_out = [Version version, Metadata_Heading, Attribute (fst av) (snd av)]\<rparr>)"
    using 1(2) 2(1)
    by (simp add: test_loop.simps [of "\<lparr>sc_file = f1, sc_out = [Version version]\<rparr>"] stream_at_def
        pull_pair test_readMetaData_def say_def 3(1) 4)
  then show ?thesis
    by (simp add: 1(1))
qed

text \<open>On a dump without metadata the script prints the version, the sizes of the table and one line
  per entry with its expiry, and ends with status 0.\<close>

lemma script_prints_dump:
  assumes "fs ''dump.rdb'' = Some (rdb_dump version [] entries crc)"
    and "length version = 4" and "list_all entry_ok entries" and "length entries < 64"
    and "list_all (\<lambda>b. \<not> marker b) crc" and "\<And>i. \<not> marker (stale i)"
  shows "test_main fs stale =
    (Inr 0, Version version #
       table_lines (length entries) (length (filter (\<lambda>kv. expiry_time (snd kv) \<noteq> 0) entries)) @
       concat (map entry_lines entries) @ [Parsed])"
  using test_parse_dump [OF assms(2-6)] by (simp add: test_main_def assms(1))

text \<open>The text on \<open>std::cout\<close> for a dump with one entry.\<close>

lemma script_output_of_one_entry:
  "concat (map cout_text (snd (test_main
     [''dump.rdb'' \<mapsto> rdb_dump ''0011'' [] [(''k'', \<lparr>db_value = ''v'', expiry_time = 255\<rparr>)] []]
     (\<lambda>i. 0)))) =
   dashes @ ''RDB version: 0011'' @ dashes @ LF @
   LF @ dashes @ ''Hash Table Information'' @ dashes @ LF @
   ''Database Index: 0'' @ LF @ ''Hash Table Indicator: fb'' @ LF @ ''Hash Table size: 1'' @ LF @
   ''Expiry hash table size: 1'' @ LF @
   LF @ dashes @ ''Key and Value pairs follow'' @ dashes @ LF @ LF @
   ''String Entry - Key: k, Value: v'' @ LF @ ''Expiry value in milliseconds: ff'' @ LF @
   ''RDB file parsed successfully.'' @ LF"
  using script_prints_dump [of
      "[''dump.rdb'' \<mapsto> rdb_dump ''0011'' [] [(''k'', \<lparr>db_value = ''v'', expiry_time = 255\<rparr>)] []]"
      "''0011''" "[(''k'', \<lparr>db_value = ''v'', expiry_time = 255\<rparr>)]" "[]" "\<lambda>i. 0"]
  by (simp add: entry_ok_def short_def marker_def table_lines_def entry_lines_def print_hex)

end
