(* ===== verification/Hex_Dump.thy ===== *)
theory Hex_Dump
  imports Byte_Utils Cpp_Std "HOL-Library.While_Combinator"
begin

text \<open>
  \<open>print_file_hex\<close> of \<^verbatim>\<open>src/utils.cpp\<close>: the contents of a file as hexadecimal numbers of eight
  bytes, most significant byte first. The loop ends only when a read fails, so the model is the
  general \<open>while\<close> of the library, and that it ends is a theorem.
\<close>

section \<open>Definitions\<close>

text \<open>One iteration: the number read into an uninitialised local, reversed and printed.\<close>

definition hex_round :: "string \<times> istream \<Rightarrow> string \<times> istream" where
  "hex_round state =
     (let (cout, file) = state;
          (bytes, file) = read_fresh 8 file;
          reverseByte = reverseEndianness (le_word bytes)
      in (cout @ hex_digits (unat reverseByte) @ LF, file))"

definition print_file_hex :: "istream \<Rightarrow> (string \<times> istream) option" where
  "print_file_hex file = while_option (\<lambda>(cout, file). \<not> st_fail file) hex_round ([], file)"

section \<open>What is printed\<close>

text \<open>Eight bytes as a number, in the order of the file.\<close>

definition hex_line :: "u8 list \<Rightarrow> string" where
  "hex_line bytes = hex_digits (le_val (rev bytes)) @ LF"

function groups :: "'a list \<Rightarrow> 'a list list" where
  "groups xs = (if length xs < 8 then [] else take 8 xs # groups (drop 8 xs))"
  by pat_completeness auto
termination
  by (relation "measure length") auto

declare groups.simps [simp del]

lemma length_groups: "length (groups xs) = length xs div 8"
  by (induction xs rule: groups.induct) (subst groups.simps, simp add: le_div_geq)

lemma hex_round_line:
  assumes "read_fresh 8 file = (bytes, t)"
  shows "hex_round (cout, file) = (cout @ hex_line bytes, t)"
proof -
  have "length bytes = 8"
    using assms by (auto simp: read_fresh_def uninit_def dest: length_sread)
  then have "unat (reverseEndianness (le_word bytes)) = le_val (rev bytes)"
    by (simp only: reverseEndianness_value le_bytes_word)
  with assms show ?thesis
    by (simp add: hex_round_def hex_line_def)
qed

text \<open>The bytes the loop sees: those of the file, and stale ones up to the next multiple of eight.\<close>

definition padded :: "istream \<Rightarrow> u8 list" where
  "padded s = (let n = length (st_bytes s)
     in st_bytes s @ map (st_stale s) [st_drawn s + n ..< st_drawn s + 8 * (n div 8 + 1)])"

lemma length_padded: "8 \<le> length (padded s)"
proof -
  have "length (st_bytes s) < 8 * (length (st_bytes s) div 8 + 1)"
    by presburger
  then show ?thesis by (simp add: padded_def Let_def)
qed

lemma read_group:
  assumes "\<not> st_fail s"
  shows "\<exists>t. read_fresh 8 s = (take 8 (padded s), t) \<and>
    (if 8 \<le> length (st_bytes s) then \<not> st_fail t \<and> padded t = drop 8 (padded s)
     else st_fail t \<and> length (padded s) = 8)"
proof (cases "8 \<le> length (st_bytes s)")
  case True
  then have "read_fresh 8 s =
      (take 8 (padded s), s\<lparr>st_drawn := st_drawn s + 8, st_bytes := drop 8 (st_bytes s)\<rparr>)"
    using assms by (simp add: read_fresh_def uninit_def sread_def padded_def Let_def)
  with True assms show ?thesis
    by (simp add: padded_def le_div_geq Let_def add.left_commute)
next
  case False
  then show ?thesis
    using assms
    by (simp add: read_fresh_def uninit_def sread_def padded_def Let_def drop_map drop_upt)
qed

lemma print_loop:
  "\<not> st_fail s \<Longrightarrow> \<exists>t. while_option (\<lambda>(cout, file). \<not> st_fail file) hex_round (cout, s) =
     Some (cout @ concat (map hex_line (groups (padded s))), t) \<and> st_fail t"
proof (induction "length (st_bytes s)" arbitrary: s cout rule: less_induct)
  case less
  let ?while = "while_option (\<lambda>(cout, file). \<not> st_fail file) hex_round"
  from read_group [OF less.prems] obtain t where
    t: "read_fresh 8 s = (take 8 (padded s), t)"
       "if 8 \<le> length (st_bytes s) then \<not> st_fail t \<and> padded t = drop 8 (padded s)
        else st_fail t \<and> length (padded s) = 8" by blast
  have round: "?while (cout, s) = ?while (cout @ hex_line (take 8 (padded s)), t)"
    using less.prems hex_round_line [OF t(1), of cout] by (subst while_option_unfold) simp
  show ?case
  proof (cases "8 \<le> length (st_bytes s)")
    case True
    then have "length (st_bytes t) < length (st_bytes s)"
      using t(1) less.prems by (auto simp: read_fresh_def uninit_def sread_def Let_def)
    from less.hyps [OF this, of "cout @ hex_line (take 8 (padded s))"] True t(2) round show ?thesis
      using length_padded [of s] by (subst groups.simps) auto
  next
    case False
    with t(2) have "?while (cout @ hex_line (take 8 (padded s)), t) =
        Some (cout @ hex_line (take 8 (padded s)), t)" "length (padded s) = 8" "st_fail t"
      by (simp_all add: while_option_unfold [of _ _ "(_, t)"])
    moreover from this(2) have "groups (padded s) = [take 8 (padded s)]"
      by (simp add: groups.simps)
    ultimately show ?thesis
      using round by simp
  qed
qed

section \<open>Properties\<close>

text \<open>\<open>print_file_hex\<close> ends on every file: it prints one line for every eight bytes, in the order of
  the file, and then one more line in which the bytes left over are followed by uninitialised ones.\<close>

lemma print_file_hex_terminates:
  "\<exists>pad t. pad = map stale [length bytes ..< 8 * (length bytes div 8 + 1)] \<and>
     print_file_hex (open_stream bytes stale) = Some (concat (map hex_line (groups (bytes @ pad))), t) \<and>
     st_fail t \<and> length (groups (bytes @ pad)) = length bytes div 8 + 1"
  using print_loop [of "open_stream bytes stale" "[]"]
  by (simp add: print_file_hex_def padded_def open_stream_def length_groups Let_def)

end
