(* ===== verification/Send_Loop.thy ===== *)
theory Send_Loop
  imports Redis_Prelude "HOL-Library.While_Combinator" "HOL-Library.Sublist"
begin

text \<open>
  Sending one reply: the inner loop of \<open>response_handler\<close> in \<^verbatim>\<open>src/client_handler.cpp\<close>, which the
  theory \<open>Comm_Protocol\<close> takes as one step. \<open>send\<close> is the system's; what it returns is an argument,
  by the number of the call and the number of bytes it is asked to send.
\<close>

section \<open>Definitions\<close>

type_synonym send_results = "nat \<Rightarrow> nat \<Rightarrow> int"

text \<open>\<open>totalSent\<close>, the calls so far, the bytes the kernel has taken, and whether the loop was left by
  its \<open>break\<close>.\<close>

record sending =
  total_sent :: size_t
  send_calls :: nat
  wire :: string
  send_failed :: bool

definition send_start :: sending where
  "send_start = \<lparr>total_sent = 0, send_calls = 0, wire = [], send_failed = False\<rparr>"

definition send_more :: "string \<Rightarrow> sending \<Rightarrow> bool" where
  "send_more response st \<longleftrightarrow>
     \<not> send_failed st \<and> total_sent st < word_of_nat (length response)"

definition send_round :: "send_results \<Rightarrow> string \<Rightarrow> sending \<Rightarrow> sending" where
  "send_round results response st =
     (let remaining = word_of_nat (length response) - total_sent st;
          sent = results (send_calls st) (unat remaining);
          st = st\<lparr>send_calls := Suc (send_calls st)\<rparr>
      in if sent = -1 then st\<lparr>send_failed := True\<rparr>
         else st\<lparr>total_sent := total_sent st + word_of_int sent,
                 wire := wire st @ take (nat sent) (drop (unat (total_sent st)) response)\<rparr>)"

definition send_all :: "send_results \<Rightarrow> string \<Rightarrow> sending option" where
  "send_all results response =
     while_option (send_more response) (send_round results response) send_start"

text \<open>What POSIX promises of \<open>send\<close> on a blocking stream socket.\<close>

definition posix_send :: "send_results \<Rightarrow> bool" where
  "posix_send results \<longleftrightarrow>
     (\<forall>i n. 0 < n \<longrightarrow> results i n = -1 \<or> 1 \<le> results i n \<and> results i n \<le> int n)"

section \<open>The invariant of the loop\<close>

definition send_inv :: "string \<Rightarrow> sending \<Rightarrow> bool" where
  "send_inv response st \<longleftrightarrow>
     unat (total_sent st) \<le> length response \<and>
     (send_failed st \<longrightarrow> unat (total_sent st) < length response) \<and>
     wire st = take (unat (total_sent st)) response"

lemma send_inv_start: "send_inv response send_start"
  by (simp add: send_inv_def send_start_def)

lemma unat_remaining:
  assumes "unat t \<le> n" and "n < 2 ^ 64"
  shows "unat (word_of_nat n - t :: size_t) = n - unat t"
proof -
  have "unat (word_of_nat n :: size_t) = n"
    using assms(2) by simp
  moreover from this assms(1) have "t \<le> word_of_nat n"
    by (simp add: word_le_nat_alt)
  ultimately show ?thesis
    by (simp add: unat_sub)
qed

text \<open>One round: either it ends the loop, or it sends at least one byte and no more than there are.\<close>

lemma send_round_step:
  assumes "posix_send results" and "length response < 2 ^ 63"
    and "send_inv response st" and "send_more response st"
  shows "send_inv response (send_round results response st)"
    "send_failed (send_round results response st) \<or>
     unat (total_sent st) < unat (total_sent (send_round results response st))"
proof -
  let ?t = "unat (total_sent st)"
  have t: "?t < length response"
    using assms(2,4) by (simp add: send_more_def word_less_nat_alt)
  then have rem: "unat (word_of_nat (length response) - total_sent st) = length response - ?t"
    using assms(2) by (intro unat_remaining) simp_all
  define sent where "sent = results (send_calls st) (length response - ?t)"
  have posix: "sent = -1 \<or> 1 \<le> sent \<and> sent \<le> int (length response - ?t)"
    using assms(1) t unfolding posix_send_def sent_def by (metis zero_less_diff)
  have step: "send_round results response st =
      (if sent = -1 then st\<lparr>send_calls := Suc (send_calls st), send_failed := True\<rparr>
       else st\<lparr>send_calls := Suc (send_calls st), total_sent := total_sent st + word_of_int sent,
         wire := wire st @ take (nat sent) (drop ?t response)\<rparr>)"
    by (simp add: send_round_def rem sent_def Let_def)
  have "send_inv response (send_round results response st) \<and>
    (send_failed (send_round results response st) \<or>
     ?t < unat (total_sent (send_round results response st)))"
  proof (cases "sent = -1")
    case True
    with assms(3) t show ?thesis
      by (simp add: step send_inv_def)
  next
    case False
    with posix obtain k where k: "sent = int k" "1 \<le> k" "k \<le> length response - ?t"
      by (metis int_ops(2) nat_le_iff nonneg_int_cases of_nat_le_iff order_trans zero_le_one)
    have "unat (total_sent st + word_of_nat k) = ?t + k"
      using k(3) t assms(2) by (simp add: unat_word_ariths)
    moreover have "?t + k \<le> length response" "\<not> send_failed st"
      using k(3) t assms(4) by (simp_all add: send_more_def)
    ultimately show ?thesis
      using False k t assms(3) by (simp add: step send_inv_def take_add)
  qed
  then show "send_inv response (send_round results response st)"
    "send_failed (send_round results response st) \<or>
     ?t < unat (total_sent (send_round results response st))" by simp_all
qed

text \<open>The bytes still to send, and nothing once the loop was left.\<close>

definition to_send :: "string \<Rightarrow> sending \<Rightarrow> nat" where
  "to_send response st =
     (if send_failed st then 0 else Suc (length response - unat (total_sent st)))"

lemma send_all_ends:
  assumes "posix_send results" and "length response < 2 ^ 63"
  shows "\<exists>st. send_all results response = Some st \<and> send_inv response st \<and> \<not> send_more response st"
proof -
  have dec: "send_inv response (send_round results response st) \<and>
      to_send response (send_round results response st) < to_send response st"
    if "send_inv response st" "send_more response st" for st
    using send_round_step [OF assms that] that
    by (auto simp: to_send_def send_more_def send_inv_def)
  then obtain st where st: "send_all results response = Some st"
    unfolding send_all_def
    using measure_while_option_Some [of "send_inv response" "send_more response"
        "send_round results response" "to_send response" send_start] send_inv_start by blast
  moreover have "send_inv response st"
    using while_option_rule [of "send_inv response", OF _ st [unfolded send_all_def] send_inv_start] dec
    by blast
  ultimately show ?thesis
    using while_option_stop [OF st [unfolded send_all_def]] by blast
qed

lemma send_zero_never_ends:
  assumes "response \<noteq> []" and "length response < 2 ^ 63"
  shows "send_all (\<lambda>i n. 0) response = None"
proof -
  have "(send_round (\<lambda>i n. 0) response ^^ k) send_start = send_start\<lparr>send_calls := k\<rparr>" for k
    by (induction k) (simp_all add: send_round_def send_start_def)
  moreover have "send_more response (send_start\<lparr>send_calls := k\<rparr>)" for k
    using assms by (simp add: send_more_def send_start_def word_less_nat_alt)
  ultimately show ?thesis
    by (simp add: send_all_def while_option_def)
qed

section \<open>Properties\<close>

text \<open>C29: The loop that sends a reply ends, whatever part of it each call of \<open>send\<close> accepts: the whole
  reply has been sent, or a call has failed and the client has a proper prefix of the reply, which the
  code treats as sent. It rests on POSIX's promise that \<open>send\<close> accepts at least one byte: with a
  \<open>send\<close> that returns 0 the loop never ends.\<close>

theorem send_loop_terminates:
  assumes "posix_send results" and "length response < 2 ^ 63"
  shows "(\<exists>st. send_all results response = Some st \<and>
      (if send_failed st then strict_prefix (wire st) response else wire st = response)) \<and>
    (response \<noteq> [] \<longrightarrow> send_all (\<lambda>i n. 0) response = None)"
proof
  obtain st where st: "send_all results response = Some st" "send_inv response st"
    "\<not> send_more response st"
    using send_all_ends [OF assms] by blast
  have "if send_failed st then strict_prefix (wire st) response else wire st = response"
    using st(2,3) assms(2)
    by (auto simp: send_inv_def send_more_def word_less_nat_alt strict_prefix_def take_is_prefix
        dest: arg_cong [of _ _ length])
  with st(1) show "\<exists>st. send_all results response = Some st \<and>
      (if send_failed st then strict_prefix (wire st) response else wire st = response)" by blast
qed (use assms(2) send_zero_never_ends in blast)

text \<open>The first call accepts two bytes and the second fails.\<close>

theorem send_loop_terminates_witness:
  "\<exists>st. send_all (\<lambda>i n. if i = 0 then min 2 (int n) else -1) ''+OK'' = Some st \<and>
     (if send_failed st then strict_prefix (wire st) ''+OK'' else wire st = ''+OK'')"
proof (rule conjunct1 [OF send_loop_terminates])
  show "posix_send (\<lambda>i n. if i = 0 then min 2 (int n) else -1)"
    by (auto simp: posix_send_def)
qed simp

end
