(* ===== verification/Spurious_Wakeups.thy ===== *)
theory Spurious_Wakeups
  imports Comm_Protocol
begin

text \<open>
  The exchange of \<open>Comm_Protocol\<close> with the wake-ups the C++ standard allows at any time: both waits of
  the parser's thread (\<open>parseRESPCommand\<close> and \<open>wait_till_reponse_sent\<close> of \<^verbatim>\<open>src/redis_parser.cpp\<close>) are
  \<open>wait(lock)\<close> without a predicate, so a spurious wake-up goes on as a notification would. The successors
  of a state are a list, so that schedules and dead ends can be computed.
\<close>

section \<open>Steps and successors\<close>

fun spurious_step :: "comm \<Rightarrow> comm option" where
  "spurious_step s =
     (case p_pc s of
        P_Loop_Wait \<Rightarrow> Some (s\<lparr>p_pc := P_Next\<rparr>)
      | P_Sent_Wait \<Rightarrow> Some (s\<lparr>p_pc := P_Reset\<rparr>)
      | _ \<Rightarrow> None)"

declare spurious_step.simps [simp del]

definition wake_step :: "comm \<Rightarrow> comm \<Rightarrow> bool" where
  "wake_step s t \<longleftrightarrow> comm_step s t \<or> spurious_step s = Some t"

definition wake_reachable :: "string list \<Rightarrow> comm \<Rightarrow> bool" where
  "wake_reachable messages s \<longleftrightarrow> reachable (\<lambda>s. s = comm_start messages) wake_step s"

text \<open>The two threads as a finite type, and every step either can take.\<close>

instantiation thread :: enum
begin

definition enum_thread :: "thread list" where
  "enum_thread = [Handler, Parser]"

definition enum_all_thread :: "(thread \<Rightarrow> bool) \<Rightarrow> bool" where
  "enum_all_thread P \<longleftrightarrow> P Handler \<and> P Parser"

definition enum_ex_thread :: "(thread \<Rightarrow> bool) \<Rightarrow> bool" where
  "enum_ex_thread P \<longleftrightarrow> P Handler \<or> P Parser"

instance
proof
  have all: "(\<forall>t. P t) \<longleftrightarrow> P Handler \<and> P Parser" for P :: "thread \<Rightarrow> bool"
    by (metis thread.exhaust)
  show "(UNIV :: thread set) = set enum_class.enum"
    by (auto simp: enum_thread_def intro: thread.exhaust)
  show "distinct (enum_class.enum :: thread list)"
    by (simp add: enum_thread_def)
  show "enum_class.enum_all P \<longleftrightarrow> Ball UNIV P" for P :: "thread \<Rightarrow> bool"
    by (simp add: enum_all_thread_def all)
  show "enum_class.enum_ex P \<longleftrightarrow> Bex UNIV P" for P :: "thread \<Rightarrow> bool"
    using all [of "\<lambda>t. \<not> P t"] by (auto simp: enum_ex_thread_def)
qed

end

definition thread_step :: "thread \<Rightarrow> comm \<Rightarrow> comm option" where
  "thread_step t s = (case t of Handler \<Rightarrow> handler_step s | Parser \<Rightarrow> parser_step s)"

definition successors :: "comm \<Rightarrow> comm list" where
  "successors s = List.map_filter (\<lambda>t. thread_step t s) Enum.enum"

lemma successors_steps: "t \<in> set (successors s) \<longleftrightarrow> comm_step s t"
  by (auto simp: successors_def thread_step_def comm_step_def enum_thread_def map_filter_def)

section \<open>No dead end\<close>

text \<open>The connection's thread leaves its loop only when the parser is past its last statement.\<close>

definition ending_inv :: "comm \<Rightarrow> bool" where
  "ending_inv s \<longleftrightarrow>
     (communicating s \<longleftrightarrow> p_pc s \<noteq> P_Done) \<and>
     (h_pc s = H_Join \<or> h_pc s = H_Done \<longrightarrow> \<not> communicating s)"

lemma ending_inv_steps:
  "handler_step s = Some t \<Longrightarrow> ending_inv s \<Longrightarrow> ending_inv t"
  "parser_step s = Some t \<Longrightarrow> ending_inv s \<Longrightarrow> ending_inv t"
  "spurious_step s = Some t \<Longrightarrow> ending_inv s \<Longrightarrow> ending_inv t"
proof -
  show "handler_step s = Some t \<Longrightarrow> ending_inv s \<Longrightarrow> ending_inv t"
    by (cases "h_pc s"; cases "response_buf s";
        clarsimp simp: handler_step.simps ending_inv_def split: if_splits)
  show "parser_step s = Some t \<Longrightarrow> ending_inv s \<Longrightarrow> ending_inv t"
    by (cases "p_pc s"; cases "todo s";
        clarsimp simp: parser_step.simps ending_inv_def split: if_splits)
  show "spurious_step s = Some t \<Longrightarrow> ending_inv s \<Longrightarrow> ending_inv t"
    by (cases "p_pc s"; clarsimp simp: spurious_step.simps ending_inv_def)
qed

lemma ending_inv_start: "ending_inv (comm_start messages)"
  by (simp add: ending_inv_def comm_start_def)

interpretation ending: invariant_system "\<lambda>s. s = comm_start messages" comm_step ending_inv
  by unfold_locales (auto simp: comm_step_def intro: ending_inv_start ending_inv_steps)

lemma no_dead_end:
  assumes "ending_inv s"
  shows "successors s = [] \<longleftrightarrow> h_pc s = H_Done"
proof -
  have "handler_step s = None \<longleftrightarrow> h_pc s = H_Done"
    using assms
    by (cases "h_pc s"; cases "response_buf s"; simp add: handler_step.simps ending_inv_def)
  moreover have "h_pc s = H_Done \<Longrightarrow> parser_step s = None"
    using assms by (cases "p_pc s") (simp_all add: ending_inv_def parser_step.simps)
  moreover have "successors s = [] \<longleftrightarrow> handler_step s = None \<and> parser_step s = None"
    by (auto simp: successors_def thread_step_def enum_thread_def map_filter_def split: option.splits)
  ultimately show ?thesis by auto
qed

section \<open>One reply and spurious wake-ups\<close>

definition one_inv :: "string list \<Rightarrow> comm \<Rightarrow> bool" where
  "one_inv messages s \<longleftrightarrow>
     conserves messages s \<and> length messages \<le> 1 \<and>
     (p_pc s = P_Over \<or> p_pc s = P_Done \<longrightarrow> todo s = []) \<and>
     (communicating s \<longleftrightarrow> p_pc s \<noteq> P_Done) \<and>
     handler_knows (h_pc s) (buf_locked s) (response_buf s) (communicating s)"

lemma one_inv_short: "one_inv messages s \<Longrightarrow> length (response_buf s) \<le> 1"
  by (auto simp: one_inv_def conserves_def)

lemma one_inv_steps:
  "handler_step s = Some t \<Longrightarrow> [] \<notin> set messages \<Longrightarrow> one_inv messages s \<Longrightarrow> one_inv messages t"
  "parser_step s = Some t \<Longrightarrow> one_inv messages s \<Longrightarrow> one_inv messages t"
  "spurious_step s = Some t \<Longrightarrow> one_inv messages s \<Longrightarrow> one_inv messages t"
proof -
  show "one_inv messages t"
    if "handler_step s = Some t" "[] \<notin> set messages" "one_inv messages s"
  proof -
    have "conserves messages t"
      using conserves_handler that by (simp add: one_inv_def)
    with that(1,3) one_inv_short [OF that(3)] show ?thesis
      unfolding one_inv_def
      by (cases "h_pc s"; cases "response_buf s"; clarsimp simp: handler_step.simps split: if_splits)
  qed
  show "one_inv messages t" if "parser_step s = Some t" "one_inv messages s"
  proof -
    have "conserves messages t"
      using conserves_parser that by (simp add: one_inv_def)
    with that show ?thesis
      unfolding one_inv_def
      by (cases "p_pc s"; cases "todo s"; clarsimp simp: parser_step.simps handler_knows_over
          split: if_splits elim!: handler_knows_push)
  qed
  show "one_inv messages t" if "spurious_step s = Some t" "one_inv messages s"
    using that
    by (cases "p_pc s"; clarsimp simp: spurious_step.simps one_inv_def conserves_def in_hand_def)
qed

lemma one_inv_start: "length messages \<le> 1 \<Longrightarrow> one_inv messages (comm_start messages)"
  using conserves_start [of messages] by (simp add: one_inv_def comm_start_def)

interpretation one: invariant_system "\<lambda>s. s = comm_start messages" wake_step
  "\<lambda>s. [] \<notin> set messages \<and> length messages \<le> 1 \<longrightarrow> one_inv messages s"
  by unfold_locales
    (auto simp: wake_step_def comm_step_def intro: one_inv_start one_inv_steps)

lemma one_inv_ended:
  "one_inv messages s \<Longrightarrow> h_pc s = H_Join \<or> h_pc s = H_Done \<Longrightarrow> sent s = messages \<and> p_pc s = P_Done"
  by (elim disjE; clarsimp simp: one_inv_def conserves_def in_hand_def)

section \<open>Two replies and a spurious wake-up\<close>

text \<open>Schedules with spurious wake-ups.\<close>

datatype mover = Step thread | Wake

fun run_wakes :: "mover list \<Rightarrow> comm \<Rightarrow> comm option" where
  "run_wakes [] s = Some s"
| "run_wakes (x # xs) s =
     (case (case x of Step t \<Rightarrow> thread_step t s | Wake \<Rightarrow> spurious_step s) of
        None \<Rightarrow> None
      | Some s' \<Rightarrow> run_wakes xs s')"

lemma run_wakes_steps: "run_wakes xs s = Some s' \<Longrightarrow> wake_step\<^sup>*\<^sup>* s s'"
proof (induction xs arbitrary: s)
  case (Cons x xs)
  then obtain u where "wake_step s u" "run_wakes xs u = Some s'"
    by (auto simp: wake_step_def comm_step_def thread_step_def split: option.splits thread.splits
        mover.splits)
  with Cons.IH show ?case
    by (meson converse_rtranclp_into_rtranclp)
qed simp

lemma reachable_wakes:
  "run_wakes xs (comm_start messages) = Some s \<Longrightarrow> wake_reachable messages s"
  unfolding wake_reachable_def by (rule reachable_run [OF reach_start run_wakes_steps]) simp_all

text \<open>The parser does not wait for its first reply to be sent, enqueues the second and is done, all
  while the connection's thread is in its timed wait; that thread then takes one reply and ends.\<close>

definition early_wake :: "mover list" where
  "early_wake = map Step [Handler, Handler, Handler, Parser, Parser, Parser, Parser] @ [Wake] @
     map Step [Parser, Parser, Parser, Parser] @ [Wake] @ map Step [Parser, Parser, Parser] @
     map Step [Handler, Handler, Handler, Handler, Handler, Handler, Handler, Handler]"

lemma second_reply_lost:
  assumes "m1 \<noteq> []"
  shows "\<exists>s. wake_reachable [m1, m2] s \<and> h_pc s = H_Done \<and> sent s = [m1]"
proof -
  have "\<exists>s. run_wakes early_wake (comm_start [m1, m2]) = Some s \<and> h_pc s = H_Done \<and> sent s = [m1]"
    using assms
    by (simp add: early_wake_def comm_start_def thread_step_def handler_step.simps
        parser_step.simps spurious_step.simps)
  then show ?thesis
    using reachable_wakes by blast
qed

section \<open>Properties\<close>

text \<open>The exchange has no dead end: as long as the task is not over, one of the two threads can take a
  step, whatever the number of replies; what a lost wake-up leaves behind is a thread that polls.\<close>

lemma task_has_no_dead_end:
  assumes "comm_reachable messages s"
  shows "successors s = [] \<longleftrightarrow> h_pc s = H_Done"
  by (rule no_dead_end [OF ending.reachable_inv [OF assms [unfolded comm_reachable_def]]])

text \<open>C18: No reply is lost where no wake-up can lose one: when the connection's thread has left its loop, all
  replies have been sent and the parser's thread has ended, for a command with at most one reply in every
  interleaving with any number of spurious wake-ups of the parser's waits, and for a command with two
  replies, which is \<open>PSYNC\<close> or a pipeline of two stores, in every interleaving in which the parser's waits end only
  when they are notified. With two replies and a spurious wake-up the second can be lost.\<close>

theorem replies_delivered:
  assumes "[] \<notin> set messages" and "h_pc s = H_Join \<or> h_pc s = H_Done"
    and "wake_reachable messages s \<and> length messages \<le> 1 \<or>
      comm_reachable messages s \<and> length messages \<le> 2"
  shows "sent s = messages \<and> p_pc s = P_Done"
  using assms(3)
proof
  assume "wake_reachable messages s \<and> length messages \<le> 1"
  then have "one_inv messages s"
    using one.reachable_inv [of messages s, folded wake_reachable_def] assms(1) by blast
  then show ?thesis
    using assms(2) by (rule one_inv_ended)
next
  assume "comm_reachable messages s \<and> length messages \<le> 2"
  then show ?thesis
    using two_delivered [of messages s] assms(1,2) by blast
qed

text \<open>Both cases occur: one reply with a spurious wake-up before the connection's thread has begun, and two
  replies without one.\<close>

theorem replies_delivered_witness:
  "(\<exists>s. wake_reachable [''a''] s \<and> h_pc s = H_Done \<and> sent s = [''a''] \<and> p_pc s = P_Done) \<and>
   (\<exists>s. comm_reachable [''a'', ''b''] s \<and> h_pc s = H_Done \<and> sent s = [''a'', ''b''] \<and> p_pc s = P_Done)"
proof
  let ?xs = "[Step Parser, Step Parser, Wake, Step Parser, Step Parser, Step Parser] @
    replicate 9 (Step Handler) @ replicate 3 (Step Parser) @ replicate 2 (Step Handler)"
  have "\<exists>s. run_wakes ?xs (comm_start [''a'']) = Some s \<and> h_pc s = H_Done"
    by (simp add: comm_start_def thread_step_def handler_step.simps parser_step.simps
        spurious_step.simps numeral_nat)
  then obtain s where "wake_reachable [''a''] s" "h_pc s = H_Done"
    using reachable_wakes by blast
  then show "\<exists>s. wake_reachable [''a''] s \<and> h_pc s = H_Done \<and> sent s = [''a''] \<and> p_pc s = P_Done"
    using replies_delivered [of "[''a'']" s] by auto
next
  obtain s where "comm_reachable [''a'', ''b''] s" "h_pc s = H_Done"
    using can_finish [of "[''a'', ''b'']"] by auto
  then show "\<exists>s. comm_reachable [''a'', ''b''] s \<and> h_pc s = H_Done \<and> sent s = [''a'', ''b''] \<and> p_pc s = P_Done"
    using replies_delivered [of "[''a'', ''b'']" s] by auto
qed

end
