(* ===== verification/Queue_Threads.thy ===== *)
theory Queue_Threads
  imports NonBlocking_Queue
begin

text \<open>
  The queue of \<^verbatim>\<open>include/redis/non_blocking_queue.hpp\<close> as several threads run it: every atomic load,
  compare-and-exchange, read of a node and \<open>delete\<close> is a step of its own. Accesses to a node that was
  deleted are undefined, and a weak exchange may fail although the value is the expected one.
  Addresses are not used again, so what goes wrong here goes wrong without a reuse of addresses.
\<close>

section \<open>Threads\<close>

text \<open>Where a thread is: between calls, or in front of the access the constructor names, with the
  locals it still needs (the new node, \<open>currentTail\<close>, \<open>currentHead\<close>, \<open>next\<close>).\<close>

datatype q_pc =
    Q_Idle
  | E_Load_Tail nat
  | E_Load_Next nat nat
  | E_Link nat nat
  | E_Help nat nat nat
  | E_Swing nat nat
  | D_Load_Head
  | D_Load_Next nat
  | D_Swing nat nat
  | D_Take nat nat
  | D_Delete nat

text \<open>\<open>linked\<close> and \<open>delivered\<close> are ghosts: the values in the order they were linked and handed out.\<close>

record 'a qsys =
  queue :: "'a nbq"
  q_at :: "nat \<Rightarrow> q_pc"
  linked :: "'a list"
  delivered :: "'a list"

definition qsys_start :: "'a \<Rightarrow> 'a qsys" where
  "qsys_start dummy =
     \<lparr>queue = new_NonBlockingQueue dummy, q_at = (\<lambda>t. Q_Idle), linked = [], delivered = []\<rparr>"

text \<open>A thread calls an operation, takes its next step, or has its weak exchange fail spuriously.\<close>

datatype 'a q_action = Call_Enqueue 'a | Call_Dequeue | Go | Fail_Weakly

definition value_at :: "'a nbq \<Rightarrow> nat \<Rightarrow> 'a list" where
  "value_at q a = (case heap q a of None \<Rightarrow> [] | Some n \<Rightarrow> [node_data n])"

text \<open>\<open>None\<close> is an action the thread cannot take where it is.\<close>

fun enqueue_step :: "q_pc \<Rightarrow> 'a q_action \<Rightarrow> 'a qsys \<Rightarrow> (q_pc \<times> 'a qsys) result option" where
  "enqueue_step Q_Idle (Call_Enqueue v) s =
     (let q = queue s; newNode = next_addr q
      in Some (Inr (E_Load_Tail newNode,
        s\<lparr>queue := q\<lparr>heap := (heap q)(newNode \<mapsto> \<lparr>node_data = v, node_next = None\<rparr>),
                     next_addr := Suc newNode\<rparr>\<rparr>)))"
| "enqueue_step (E_Load_Tail newNode) Go s =
     Some (Inr (E_Load_Next newNode (tail (queue s)), s))"
| "enqueue_step (E_Load_Next newNode currentTail) Go s =
     Some (and_then (deref (queue s) currentTail) (\<lambda>n. Inr (case node_next n of
         None \<Rightarrow> E_Link newNode currentTail
       | Some nxt \<Rightarrow> E_Help newNode currentTail nxt, s)))"
| "enqueue_step (E_Link newNode currentTail) Go s =
     (let q = queue s
      in Some (and_then (deref q currentTail) (\<lambda>n.
           if node_next n = None
           then Inr (E_Swing newNode currentTail,
             s\<lparr>queue := q\<lparr>heap := (heap q)(currentTail \<mapsto> n\<lparr>node_next := Some newNode\<rparr>)\<rparr>,
               linked := linked s @ value_at q newNode\<rparr>)
           else Inr (E_Load_Tail newNode, s))))"
| "enqueue_step (E_Link newNode currentTail) Fail_Weakly s =
     Some (and_then (deref (queue s) currentTail) (\<lambda>n. Inr (E_Load_Tail newNode, s)))"
| "enqueue_step (E_Help newNode currentTail nxt) Go s =
     (let q = queue s
      in Some (Inr (E_Load_Tail newNode,
        if tail q = currentTail then s\<lparr>queue := q\<lparr>tail := nxt\<rparr>\<rparr> else s)))"
| "enqueue_step (E_Help newNode currentTail nxt) Fail_Weakly s =
     Some (Inr (E_Load_Tail newNode, s))"
| "enqueue_step (E_Swing newNode currentTail) Go s =
     (let q = queue s
      in Some (Inr (Q_Idle,
        if tail q = currentTail then s\<lparr>queue := q\<lparr>tail := newNode\<rparr>\<rparr> else s)))"
| "enqueue_step (E_Swing newNode currentTail) Fail_Weakly s = Some (Inr (Q_Idle, s))"
| "enqueue_step _ _ s = None"

fun dequeue_step :: "q_pc \<Rightarrow> 'a q_action \<Rightarrow> 'a qsys \<Rightarrow> (q_pc \<times> 'a qsys) result option" where
  "dequeue_step Q_Idle Call_Dequeue s = Some (Inr (D_Load_Head, s))"
| "dequeue_step D_Load_Head Go s = Some (Inr (D_Load_Next (head (queue s)), s))"
| "dequeue_step (D_Load_Next currentHead) Go s =
     Some (and_then (deref (queue s) currentHead) (\<lambda>n. Inr (case node_next n of
         None \<Rightarrow> Q_Idle
       | Some nxt \<Rightarrow> D_Swing currentHead nxt, s)))"
| "dequeue_step (D_Swing currentHead nxt) Go s =
     (let q = queue s
      in Some (Inr (if head q = currentHead
           then (D_Take currentHead nxt, s\<lparr>queue := q\<lparr>head := nxt\<rparr>\<rparr>)
           else (D_Load_Head, s))))"
| "dequeue_step (D_Swing currentHead nxt) Fail_Weakly s = Some (Inr (D_Load_Head, s))"
| "dequeue_step (D_Take currentHead nxt) Go s =
     Some (and_then (deref (queue s) nxt) (\<lambda>m.
       Inr (D_Delete currentHead, s\<lparr>delivered := delivered s @ [node_data m]\<rparr>)))"
| "dequeue_step (D_Delete currentHead) Go s =
     (let q = queue s
      in Some (and_then (deref q currentHead) (\<lambda>n.
           Inr (Q_Idle, s\<lparr>queue := q\<lparr>heap := (heap q)(currentHead := None)\<rparr>\<rparr>))))"
| "dequeue_step _ _ s = None"

text \<open>A step of thread \<open>t\<close>.\<close>

definition q_step :: "nat \<Rightarrow> 'a q_action \<Rightarrow> 'a qsys \<Rightarrow> 'a qsys result option" where
  "q_step t act s =
     map_option (\<lambda>r. and_then r (\<lambda>(pc, s'). Inr (s'\<lparr>q_at := (q_at s')(t := pc)\<rparr>)))
       (case enqueue_step (q_at s t) act s of
          Some r \<Rightarrow> Some r
        | None \<Rightarrow> dequeue_step (q_at s t) act s)"

text \<open>A schedule, up to the first undefined access.\<close>

fun q_run :: "(nat \<times> 'a q_action) list \<Rightarrow> 'a qsys \<Rightarrow> 'a qsys result option" where
  "q_run [] s = Some (Inr s)"
| "q_run ((t, act) # sched) s =
     (case q_step t act s of
        None \<Rightarrow> None
      | Some (Inl e) \<Rightarrow> Some (Inl e)
      | Some (Inr s') \<Rightarrow> q_run sched s')"

section \<open>One producer and one consumer\<close>

text \<open>Thread 0 only enqueues, thread 1 only dequeues. The exchange that moves the tail behind a new node
  does not fail spuriously (as with \<open>compare_exchange_strong\<close>); the others may.\<close>

fun may_fail :: "q_pc \<Rightarrow> bool" where
  "may_fail (E_Swing newNode currentTail) = False"
| "may_fail _ = True"

inductive spsc_step :: "'a qsys \<Rightarrow> 'a qsys \<Rightarrow> bool" where
  produce: "act \<noteq> Call_Dequeue \<Longrightarrow> act = Fail_Weakly \<longrightarrow> may_fail (q_at s 0) \<Longrightarrow>
    q_step 0 act s = Some (Inr s') \<Longrightarrow> spsc_step s s'"
| consume: "(\<And>v. act \<noteq> Call_Enqueue v) \<Longrightarrow> q_step 1 act s = Some (Inr s') \<Longrightarrow> spsc_step s s'"

inductive_cases spsc_stepE: "spsc_step s s'"

definition spsc_reachable :: "'a \<Rightarrow> 'a qsys \<Rightarrow> bool" where
  "spsc_reachable dummy s \<longleftrightarrow> reachable (\<lambda>s. s = qsys_start dummy) spsc_step s"

text \<open>The node the producer has allocated and not yet linked.\<close>

definition unlinked :: "'a nbq \<Rightarrow> nat set \<Rightarrow> nat \<Rightarrow> bool" where
  "unlinked q nodes new \<longleftrightarrow> new \<notin> nodes \<and> new < next_addr q \<and>
     (\<exists>v. heap q new = Some \<lparr>node_data = v, node_next = None\<rparr>)"

text \<open>What each thread knows, with the nodes of the chain and its last one.\<close>

fun producer_knows :: "q_pc \<Rightarrow> 'a nbq \<Rightarrow> nat set \<Rightarrow> nat \<Rightarrow> bool" where
  "producer_knows Q_Idle q nodes end_node \<longleftrightarrow> tail q = end_node"
| "producer_knows (E_Load_Tail new) q nodes end_node \<longleftrightarrow>
     tail q = end_node \<and> unlinked q nodes new"
| "producer_knows (E_Load_Next new t) q nodes end_node \<longleftrightarrow>
     t = end_node \<and> tail q = end_node \<and> unlinked q nodes new"
| "producer_knows (E_Link new t) q nodes end_node \<longleftrightarrow>
     t = end_node \<and> tail q = end_node \<and> unlinked q nodes new"
| "producer_knows (E_Swing new t) q nodes end_node \<longleftrightarrow> tail q = t \<and> new = end_node"
| "producer_knows _ q nodes end_node \<longleftrightarrow> False"

text \<open>A node the consumer has taken out and not yet deleted.\<close>

definition retired :: "'a nbq \<Rightarrow> nat set \<Rightarrow> nat \<Rightarrow> bool" where
  "retired q nodes h \<longleftrightarrow> h \<notin> nodes \<and> h < next_addr q \<and> heap q h \<noteq> None"

fun consumer_knows :: "q_pc \<Rightarrow> 'a nbq \<Rightarrow> nat list \<Rightarrow> bool" where
  "consumer_knows Q_Idle q as \<longleftrightarrow> True"
| "consumer_knows D_Load_Head q as \<longleftrightarrow> True"
| "consumer_knows (D_Load_Next h) q as \<longleftrightarrow> h = head q"
| "consumer_knows (D_Swing h nxt) q as \<longleftrightarrow> h = head q \<and> as \<noteq> [] \<and> nxt = hd as"
| "consumer_knows (D_Take h nxt) q as \<longleftrightarrow> nxt = head q \<and> retired q (set (head q # as)) h"
| "consumer_knows (D_Delete h) q as \<longleftrightarrow> retired q (set (head q # as)) h"
| "consumer_knows _ q as \<longleftrightarrow> False"

text \<open>The value taken out of the chain and not yet handed out.\<close>

fun in_transit :: "q_pc \<Rightarrow> 'a nbq \<Rightarrow> 'a list" where
  "in_transit (D_Take h nxt) q = value_at q nxt"
| "in_transit _ q = []"

text \<open>The two threads hold different private nodes.\<close>

fun new_node :: "q_pc \<Rightarrow> nat option" where
  "new_node (E_Load_Tail new) = Some new"
| "new_node (E_Load_Next new t) = Some new"
| "new_node (E_Link new t) = Some new"
| "new_node _ = None"

fun old_node :: "q_pc \<Rightarrow> nat option" where
  "old_node (D_Take h nxt) = Some h"
| "old_node (D_Delete h) = Some h"
| "old_node _ = None"

definition spsc_holds :: "'a qsys \<Rightarrow> (nat \<times> 'a) list \<Rightarrow> bool" where
  "spsc_holds s as \<longleftrightarrow>
     (let q = queue s; nodes = head q # map fst as
      in chain (heap q) (head q) as \<and> distinct nodes \<and> (\<forall>a \<in> set nodes. a < next_addr q) \<and>
         producer_knows (q_at s 0) q (set nodes) (last nodes) \<and>
         consumer_knows (q_at s 1) q (map fst as) \<and>
         (new_node (q_at s 0) = None \<or> new_node (q_at s 0) \<noteq> old_node (q_at s 1)) \<and>
         delivered s @ in_transit (q_at s 1) q @ map snd as = linked s)"

lemma spsc_start: "spsc_holds (qsys_start d) []"
  by (simp add: spsc_holds_def qsys_start_def new_NonBlockingQueue_def Let_def)

lemma chain_alloc:
  "chain h a as \<Longrightarrow> b \<notin> set (a # map fst as) \<Longrightarrow> chain (h(b \<mapsto> n)) a as"
  "chain h a as \<Longrightarrow> b \<notin> set (a # map fst as) \<Longrightarrow> chain (h(b := None)) a as"
  by (auto intro: chain_cong)

lemma chain_head: "chain h a as \<Longrightarrow> \<exists>n. h a = Some n \<and> (node_next n = None \<longleftrightarrow> as = [])"
  by (cases as) auto

lemma chain_hd:
  "chain h a as \<Longrightarrow> h a = Some n \<Longrightarrow> node_next n = Some b \<Longrightarrow> as \<noteq> [] \<and> fst (hd as) = b"
  by (cases as) auto

text \<open>Facts of the invariant, named for the step lemmas.\<close>

lemma spsc_holdsE:
  assumes "spsc_holds s as"
  obtains "chain (heap (queue s)) (head (queue s)) as" "distinct (head (queue s) # map fst as)"
    "\<forall>a \<in> set (head (queue s) # map fst as). a < next_addr (queue s)"
    "producer_knows (q_at s 0) (queue s) (set (head (queue s) # map fst as))
       (last (head (queue s) # map fst as))"
    "consumer_knows (q_at s 1) (queue s) (map fst as)"
    "new_node (q_at s 0) = None \<or> new_node (q_at s 0) \<noteq> old_node (q_at s 1)"
    "delivered s @ in_transit (q_at s 1) (queue s) @ map snd as = linked s"
  using assms by (auto simp: spsc_holds_def Let_def)

text \<open>The consumer's knowledge does not depend on the tail, nor on nodes other than the chain's and the
  one it has taken out.\<close>

lemma consumer_knows_cong:
  assumes "consumer_knows pc q as" and "head q' = head q" and "next_addr q \<le> next_addr q'"
    and "\<forall>h. old_node pc = Some h \<longrightarrow> (heap q' h = None \<longleftrightarrow> heap q h = None)"
  shows "consumer_knows pc q' as"
  using assms by (cases pc) (auto simp: retired_def)

lemma consumer_knows_snoc:
  "consumer_knows pc q as \<Longrightarrow> (\<forall>h. old_node pc = Some h \<longrightarrow> h \<noteq> b) \<Longrightarrow>
   consumer_knows pc q (as @ [b])"
  by (cases pc) (auto simp: retired_def hd_append)

lemma in_transit_cong:
  "(\<And>a. value_at q' a = value_at q a) \<Longrightarrow> in_transit pc q' = in_transit pc q"
  by (cases pc) auto

lemma produce_call:
  assumes "spsc_holds s as" and "q_at s 0 = Q_Idle"
  shows "\<exists>s'. q_step 0 (Call_Enqueue v) s = Some (Inr s') \<and> spsc_holds s' as"
  using assms(1)
proof (rule spsc_holdsE)
  let ?q = "queue s" and ?new = "next_addr (queue s)"
  let ?q' = "?q\<lparr>heap := (heap ?q)(?new \<mapsto> \<lparr>node_data = v, node_next = None\<rparr>), next_addr := Suc ?new\<rparr>"
  let ?s' = "s\<lparr>queue := ?q', q_at := (q_at s)(0 := E_Load_Tail ?new)\<rparr>"
  assume inv: "chain (heap ?q) (head ?q) as" "distinct (head ?q # map fst as)"
    "\<forall>a \<in> set (head ?q # map fst as). a < ?new"
    "producer_knows (q_at s 0) ?q (set (head ?q # map fst as)) (last (head ?q # map fst as))"
    "consumer_knows (q_at s 1) ?q (map fst as)"
    "delivered s @ in_transit (q_at s 1) ?q @ map snd as = linked s"
  have fresh: "?new \<notin> set (head ?q # map fst as)"
    using inv(3) by blast
  have old: "old_node (q_at s 1) = Some h \<Longrightarrow> h < ?new" for h
    using inv(5) by (cases "q_at s 1") (auto simp: retired_def)
  then have not_new: "old_node (q_at s 1) \<noteq> Some ?new"
    by blast
  then have "consumer_knows (q_at s 1) ?q' (map fst as)"
    by (intro consumer_knows_cong [OF inv(5)]) auto
  moreover have "in_transit (q_at s 1) ?q' = in_transit (q_at s 1) ?q"
    using inv(3,5) by (cases "q_at s 1") (auto simp: value_at_def)
  moreover have "chain (heap ?q') (head ?q) as"
    using chain_alloc(1) [OF inv(1) fresh] by simp
  ultimately have "spsc_holds ?s' as"
    using inv assms(2) fresh not_new
    by (auto simp: spsc_holds_def Let_def unlinked_def less_Suc_eq)
  then show ?thesis
    by (simp add: q_step_def assms(2) Let_def)
qed

text \<open>Steps that only move a program counter.\<close>

lemma produce_moves:
  assumes "spsc_holds s as" and "new_node pc = new_node (q_at s 0)"
    and "producer_knows pc (queue s) (set (head (queue s) # map fst as))
      (last (head (queue s) # map fst as))"
  shows "spsc_holds (s\<lparr>q_at := (q_at s)(0 := pc)\<rparr>) as"
  using assms by (simp add: spsc_holds_def Let_def)

lemma produce_link:
  assumes "spsc_holds s as" and "q_at s 0 = E_Link new t"
  shows "\<exists>s' v. q_step 0 Go s = Some (Inr s') \<and> spsc_holds s' (as @ [(new, v)])"
  using assms(1)
proof (rule spsc_holdsE)
  let ?q = "queue s" and ?nodes = "head (queue s) # map fst as"
  assume inv: "chain (heap ?q) (head ?q) as" "distinct ?nodes" "\<forall>a \<in> set ?nodes. a < next_addr ?q"
    "producer_knows (q_at s 0) ?q (set ?nodes) (last ?nodes)"
    "consumer_knows (q_at s 1) ?q (map fst as)"
    "new_node (q_at s 0) = None \<or> new_node (q_at s 0) \<noteq> old_node (q_at s 1)"
    "delivered s @ in_transit (q_at s 1) ?q @ map snd as = linked s"
  from inv(4) assms(2) obtain v where new: "t = last ?nodes" "tail ?q = last ?nodes"
    "new \<notin> set ?nodes" "new < next_addr ?q" "heap ?q new = Some \<lparr>node_data = v, node_next = None\<rparr>"
    by (auto simp: unlinked_def)
  obtain n where n: "heap ?q t = Some n" "node_next n = None"
    using chain_last [OF inv(1)] new(1) by blast
  let ?h = "(heap ?q)(t \<mapsto> n\<lparr>node_next := Some new\<rparr>)"
  let ?q' = "?q\<lparr>heap := ?h\<rparr>"
  let ?s' = "s\<lparr>queue := ?q', q_at := (q_at s)(0 := E_Swing new t), linked := linked s @ [v]\<rparr>"
  have "(heap ?q)(new \<mapsto> \<lparr>node_data = v, node_next = None\<rparr>) = heap ?q"
    using new(5) by auto
  then have chain: "chain ?h (head ?q) (as @ [(new, v)])"
    using chain_snoc [OF inv(1,2) new(3), of n v] n(1) new(1) by simp
  have val: "value_at ?q' a = value_at ?q a" for a
    using n(1) by (simp add: value_at_def)
  have "consumer_knows (q_at s 1) ?q' (map fst as @ [new])"
    using inv(5,6) n(1) assms(2)
    by (intro consumer_knows_snoc consumer_knows_cong [OF inv(5)]) auto
  then have "spsc_holds ?s' (as @ [(new, v)])"
    using inv chain new in_transit_cong [OF val, of "q_at s 1"]
    by (simp add: spsc_holds_def Let_def)
  moreover have "q_step 0 Go s = Some (Inr ?s')"
    using n new(5) by (simp add: q_step_def assms(2) deref_def value_at_def Let_def)
  ultimately show ?thesis by blast
qed

lemma produce_swing:
  assumes "spsc_holds s as" and "q_at s 0 = E_Swing new t"
  shows "\<exists>s'. q_step 0 Go s = Some (Inr s') \<and> spsc_holds s' as"
  using assms(1)
proof (rule spsc_holdsE)
  let ?q' = "(queue s)\<lparr>tail := new\<rparr>"
  let ?s' = "s\<lparr>queue := ?q', q_at := (q_at s)(0 := Q_Idle)\<rparr>"
  assume inv: "producer_knows (q_at s 0) (queue s) (set (head (queue s) # map fst as))
      (last (head (queue s) # map fst as))"
    "consumer_knows (q_at s 1) (queue s) (map fst as)"
  have "consumer_knows (q_at s 1) ?q' (map fst as)"
    by (rule consumer_knows_cong [OF inv(2)]) auto
  moreover have "in_transit (q_at s 1) ?q' = in_transit (q_at s 1) (queue s)"
    by (rule in_transit_cong) (simp add: value_at_def)
  ultimately have "spsc_holds ?s' as"
    using assms inv(1) by (simp add: spsc_holds_def Let_def)
  then show ?thesis
    using inv(1) by (simp add: q_step_def assms(2) Let_def)
qed

text \<open>No step of the producer is undefined, and each keeps the invariant.\<close>

lemma produce_step:
  assumes "spsc_holds s as" and "act \<noteq> Call_Dequeue" and "act = Fail_Weakly \<longrightarrow> may_fail (q_at s 0)"
    and "q_step 0 act s = Some r"
  shows "\<exists>s' as'. r = Inr s' \<and> spsc_holds s' as'"
proof -
  let ?nodes = "head (queue s) # map fst as"
  have knows: "producer_knows (q_at s 0) (queue s) (set ?nodes) (last ?nodes)"
    and chain: "chain (heap (queue s)) (head (queue s)) as"
    using assms(1) by (auto simp: spsc_holds_def Let_def)
  from chain_last [OF chain] obtain n where n: "heap (queue s) (last ?nodes) = Some n" "node_next n = None"
    by blast
  show ?thesis
  proof (cases "q_at s 0")
    case Q_Idle
    with assms(2,4) obtain v where "act = Call_Enqueue v"
      by (cases act) (auto simp: q_step_def)
    with produce_call [OF assms(1) Q_Idle, of v] assms(4) show ?thesis by auto
  next
    case (E_Load_Tail new)
    with assms(4) knows produce_moves [OF assms(1), of "E_Load_Next new (tail (queue s))"] show ?thesis
      by (cases act) (auto simp: q_step_def)
  next
    case (E_Load_Next new t)
    with assms(4) knows n produce_moves [OF assms(1), of "E_Link new t"] show ?thesis
      by (cases act) (auto simp: q_step_def deref_def)
  next
    case (E_Link new t)
    with assms(4) knows n produce_moves [OF assms(1), of "E_Load_Tail new"] produce_link [OF assms(1) E_Link]
    show ?thesis
      by (cases act) (auto simp: q_step_def deref_def)
  next
    case (E_Swing new t)
    with assms(3,4) produce_swing [OF assms(1) E_Swing] show ?thesis
      by (cases act) (auto simp: q_step_def)
  qed (use knows in auto)
qed

lemma consume_moves:
  assumes "spsc_holds s as" and "old_node pc = None" and "in_transit pc (queue s) = []"
    and "in_transit (q_at s 1) (queue s) = []" and "consumer_knows pc (queue s) (map fst as)"
  shows "spsc_holds (s\<lparr>q_at := (q_at s)(1 := pc)\<rparr>) as"
  using assms by (auto simp: spsc_holds_def Let_def)

text \<open>The producer does not care which nodes leave the chain at its front.\<close>

lemma producer_knows_subset:
  "producer_knows pc q nodes e \<Longrightarrow> nodes' \<subseteq> nodes \<Longrightarrow>
   producer_knows pc (q\<lparr>head := h\<rparr>) nodes' e"
  by (cases pc) (auto simp: unlinked_def)

lemma consume_swing:
  assumes "spsc_holds s as" and "q_at s 1 = D_Swing h nxt"
  shows "\<exists>s' as'. q_step 1 Go s = Some (Inr s') \<and> spsc_holds s' as'"
  using assms(1)
proof (rule spsc_holdsE)
  let ?q = "queue s" and ?nodes = "head (queue s) # map fst as"
  assume inv: "chain (heap ?q) (head ?q) as" "distinct ?nodes" "\<forall>a \<in> set ?nodes. a < next_addr ?q"
    "producer_knows (q_at s 0) ?q (set ?nodes) (last ?nodes)"
    "consumer_knows (q_at s 1) ?q (map fst as)"
    "new_node (q_at s 0) = None \<or> new_node (q_at s 0) \<noteq> old_node (q_at s 1)"
    "delivered s @ in_transit (q_at s 1) ?q @ map snd as = linked s"
  from inv(5) assms(2) obtain v as' where as: "as = (nxt, v) # as'" "h = head ?q"
    by (cases as) auto
  let ?s' = "s\<lparr>queue := ?q\<lparr>head := nxt\<rparr>, q_at := (q_at s)(1 := D_Take h nxt)\<rparr>"
  have "producer_knows (q_at s 0) (?q\<lparr>head := nxt\<rparr>) (set (nxt # map fst as')) (last ?nodes)"
    using as by (intro producer_knows_subset [OF inv(4)]) auto
  moreover have "new_node (q_at s 0) \<noteq> Some h"
    using inv(4) as(2) by (cases "q_at s 0") (auto simp: unlinked_def)
  moreover have "last ?nodes = last (nxt # map fst as')"
    using as(1) by simp
  moreover have "chain (heap ?q) nxt as'" "value_at ?q nxt = [v]" "heap ?q h \<noteq> None"
    using inv(1) as by (auto simp: value_at_def)
  moreover have "value_at (?q\<lparr>head := nxt\<rparr>) nxt = value_at ?q nxt"
    by (simp add: value_at_def)
  ultimately have "spsc_holds ?s' as'"
    using inv(2,3,7) as assms(2) by (auto simp: spsc_holds_def Let_def retired_def)
  moreover have "q_step 1 Go s = Some (Inr ?s')"
    using assms(2) as(2) by (simp add: q_step_def Let_def)
  ultimately show ?thesis by blast
qed

lemma consume_take:
  assumes "spsc_holds s as" and "q_at s 1 = D_Take h nxt"
  shows "\<exists>s'. q_step 1 Go s = Some (Inr s') \<and> spsc_holds s' as"
  using assms(1)
proof (rule spsc_holdsE)
  assume inv: "chain (heap (queue s)) (head (queue s)) as"
    "consumer_knows (q_at s 1) (queue s) (map fst as)"
  then have "nxt = head (queue s)"
    using assms(2) by simp
  with chain_head [OF inv(1)] obtain n where n: "heap (queue s) nxt = Some n" by auto
  let ?s' = "s\<lparr>delivered := delivered s @ [node_data n], q_at := (q_at s)(1 := D_Delete h)\<rparr>"
  have "spsc_holds ?s' as"
    using assms n by (auto simp: spsc_holds_def Let_def value_at_def)
  with n assms(2) show ?thesis
    by (simp add: q_step_def deref_def)
qed

lemma consume_delete:
  assumes "spsc_holds s as" and "q_at s 1 = D_Delete h"
  shows "\<exists>s'. q_step 1 Go s = Some (Inr s') \<and> spsc_holds s' as"
  using assms(1)
proof (rule spsc_holdsE)
  let ?q' = "(queue s)\<lparr>heap := (heap (queue s))(h := None)\<rparr>"
  let ?s' = "s\<lparr>queue := ?q', q_at := (q_at s)(1 := Q_Idle)\<rparr>"
  assume inv: "chain (heap (queue s)) (head (queue s)) as"
    "producer_knows (q_at s 0) (queue s) (set (head (queue s) # map fst as))
       (last (head (queue s) # map fst as))"
    "consumer_knows (q_at s 1) (queue s) (map fst as)"
    "new_node (q_at s 0) = None \<or> new_node (q_at s 0) \<noteq> old_node (q_at s 1)"
  have h: "h \<notin> set (head (queue s) # map fst as)" "heap (queue s) h \<noteq> None"
    using inv(3) assms(2) by (auto simp: retired_def)
  have "producer_knows (q_at s 0) ?q' (set (head (queue s) # map fst as))
      (last (head (queue s) # map fst as))"
    using inv(2,4) assms(2) by (cases "q_at s 0") (auto simp: unlinked_def)
  then have "spsc_holds ?s' as"
    using assms chain_alloc(2) [OF inv(1) h(1)] by (auto simp: spsc_holds_def Let_def)
  with h(2) assms(2) show ?thesis
    by (auto simp: q_step_def deref_def Let_def)
qed

lemma consume_step:
  assumes "spsc_holds s as" and "\<And>v. act \<noteq> Call_Enqueue v" and "q_step 1 act s = Some r"
  shows "\<exists>s' as'. r = Inr s' \<and> spsc_holds s' as'"
proof -
  have knows: "consumer_knows (q_at s 1) (queue s) (map fst as)"
    and chain: "chain (heap (queue s)) (head (queue s)) as"
    using assms(1) by (auto simp: spsc_holds_def Let_def)
  obtain n where n: "heap (queue s) (head (queue s)) = Some n"
    using chain_head [OF chain] by auto
  show ?thesis
  proof (cases "q_at s 1")
    case Q_Idle
    with assms(2,3) consume_moves [OF assms(1), of D_Load_Head] show ?thesis
      by (cases act) (auto simp: q_step_def)
  next
    case D_Load_Head
    with assms(3) consume_moves [OF assms(1), of "D_Load_Next (head (queue s))"] show ?thesis
      by (cases act) (auto simp: q_step_def)
  next
    case (D_Load_Next h)
    have "consumer_knows (D_Swing h nxt) (queue s) (map fst as)" if "node_next n = Some nxt" for nxt
      using D_Load_Next knows chain_hd [OF chain n(1) that] by (cases as) auto
    with D_Load_Next assms(3) knows n consume_moves [OF assms(1), of Q_Idle]
      consume_moves [OF assms(1), of "D_Swing h _"] show ?thesis
      by (cases act; cases "node_next n") (auto simp: q_step_def deref_def)
  next
    case (D_Swing h nxt)
    with assms(3) knows consume_swing [OF assms(1) D_Swing]
      consume_moves [OF assms(1), of D_Load_Head] show ?thesis
      by (cases act) (auto simp: q_step_def)
  next
    case (D_Take h nxt)
    with assms(3) consume_take [OF assms(1) D_Take] show ?thesis
      by (cases act) (auto simp: q_step_def)
  next
    case (D_Delete h)
    with assms(3) consume_delete [OF assms(1) D_Delete] show ?thesis
      by (cases act) (auto simp: q_step_def)
  qed (use knows in auto)
qed

interpretation spsc: invariant_system "\<lambda>s. s = qsys_start d" spsc_step "\<lambda>s. \<exists>as. spsc_holds s as"
  by unfold_locales
    (auto intro: spsc_start elim!: spsc_stepE dest: produce_step consume_step)

section \<open>More than one thread on a side\<close>

text \<open>Which threads call which operation; no exchange fails spuriously.\<close>

fun allowed :: "nat list \<Rightarrow> nat list \<Rightarrow> nat \<times> 'a q_action \<Rightarrow> bool" where
  "allowed producers consumers (t, Call_Enqueue v) \<longleftrightarrow> t \<in> set producers"
| "allowed producers consumers (t, Call_Dequeue) \<longleftrightarrow> t \<in> set consumers"
| "allowed producers consumers (t, Go) \<longleftrightarrow> t \<in> set producers \<or> t \<in> set consumers"
| "allowed producers consumers (t, Fail_Weakly) \<longleftrightarrow> False"

text \<open>Consumer 1 has loaded the head; consumer 2 dequeues and deletes that node.\<close>

definition two_consumers :: "'a \<Rightarrow> (nat \<times> 'a q_action) list" where
  "two_consumers v =
     [(0, Call_Enqueue v), (0, Go), (0, Go), (0, Go), (0, Go), (1, Call_Dequeue), (1, Go),
      (2, Call_Dequeue), (2, Go), (2, Go), (2, Go), (2, Go), (2, Go), (1, Go)]"

text \<open>Producer 0 has linked its node and not yet moved the tail; the consumer deletes the node the tail
  points to, and producer 2 follows the tail.\<close>

definition two_producers :: "'a \<Rightarrow> 'a \<Rightarrow> (nat \<times> 'a q_action) list" where
  "two_producers v u =
     [(0, Call_Enqueue v), (0, Go), (0, Go), (0, Go), (1, Call_Dequeue), (1, Go), (1, Go), (1, Go),
      (1, Go), (1, Go), (2, Call_Enqueue u), (2, Go), (2, Go)]"

lemmas run_q = q_step_def deref_def qsys_start_def new_NonBlockingQueue_def Let_def value_at_def

lemma two_consumers_run:
  "list_all (allowed [0] [1, 2]) (two_consumers v)"
  "q_run (two_consumers v) (qsys_start d) = Some (Inl Undefined_Behaviour)"
  by (simp_all add: two_consumers_def run_q)

lemma two_producers_run:
  "list_all (allowed [0, 2] [1]) (two_producers v u)"
  "q_run (two_producers v u) (qsys_start d) = Some (Inl Undefined_Behaviour)"
  by (simp_all add: two_producers_def run_q)

text \<open>Schedules of one producer and one consumer.\<close>

lemma spsc_allowed_step:
  assumes "allowed [0] [1] (t, act)" and "q_step t act s = Some (Inr u)"
  shows "spsc_step s u"
  using assms
  by (cases act) (auto intro: produce [of act] consume [of act] simp del: One_nat_def)

lemma spsc_run:
  "list_all (allowed [0] [1]) sched \<Longrightarrow> q_run sched s = Some (Inr s') \<Longrightarrow> spsc_step\<^sup>*\<^sup>* s s'"
proof (induction sched arbitrary: s)
  case (Cons x sched)
  obtain t act where x: "x = (t, act)" by fastforce
  with Cons.prems(2) obtain u where u: "q_step t act s = Some (Inr u)" "q_run sched u = Some (Inr s')"
    by (auto split: option.splits sum.splits)
  have "spsc_step s u"
    using spsc_allowed_step [OF _ u(1)] Cons.prems(1) x by simp
  with Cons.IH [of u] Cons.prems(1) u(2) show ?case
    by (simp add: converse_rtranclp_into_rtranclp)
qed simp

lemma one_out_of_two:
  "\<exists>s. spsc_reachable d s \<and> delivered s = [v] \<and> linked s = [v, u] \<and>
     q_at s 0 = Q_Idle \<and> q_at s 1 = Q_Idle"
proof -
  let ?sched = "[(0, Call_Enqueue v), (0, Go), (0, Go), (0, Go), (0, Go),
    (1, Call_Dequeue), (1, Go), (1, Go), (1, Go), (1, Go), (1, Go),
    (0, Call_Enqueue u), (0, Go), (0, Go), (0, Go), (0, Go)]"
  have "\<exists>s. q_run ?sched (qsys_start d) = Some (Inr s) \<and> delivered s = [v] \<and>
      linked s = [v, u] \<and> q_at s 0 = Q_Idle \<and> q_at s 1 = Q_Idle"
    by (simp add: run_q)
  then obtain s where s: "q_run ?sched (qsys_start d) = Some (Inr s)" "delivered s = [v]"
    "linked s = [v, u]" "q_at s 0 = Q_Idle" "q_at s 1 = Q_Idle" by blast
  have "spsc_step\<^sup>*\<^sup>* (qsys_start d) s"
    by (rule spsc_run [OF _ s(1)]) simp
  then have "spsc_reachable d s"
    unfolding spsc_reachable_def by (intro reachable_run [OF reach_start]) simp_all
  with s(2-5) show ?thesis by blast
qed

section \<open>Properties\<close>

lemma spsc_holds_idle:
  "spsc_holds s as \<Longrightarrow> q_at s 0 = Q_Idle \<Longrightarrow> q_at s 1 = Q_Idle \<Longrightarrow>
   queue_of (queue s) (map snd as) \<and> linked s = delivered s @ map snd as"
  by (auto simp: spsc_holds_def queue_of_def Let_def intro!: exI [of _ as])

text \<open>One failing exchange of the tail: the consumer deletes the node the tail still points to, and the
  producer's next call reads it.\<close>

fun one_each :: "nat \<times> 'a q_action \<Rightarrow> bool" where
  "one_each (t, Call_Enqueue v) \<longleftrightarrow> t = 0"
| "one_each (t, Call_Dequeue) \<longleftrightarrow> t = 1"
| "one_each (t, act) \<longleftrightarrow> t = 0 \<or> t = 1"

definition tail_left_behind :: "'a \<Rightarrow> 'a \<Rightarrow> (nat \<times> 'a q_action) list" where
  "tail_left_behind v u =
     [(0, Call_Enqueue v), (0, Go), (0, Go), (0, Go), (0, Fail_Weakly), (1, Call_Dequeue), (1, Go), (1, Go),
      (1, Go), (1, Go), (1, Go), (0, Call_Enqueue u), (0, Go), (0, Go)]"

lemma tail_left_behind_run:
  "list_all one_each (tail_left_behind v u)"
  "q_run (tail_left_behind v u) (qsys_start d) = Some (Inl Undefined_Behaviour)"
  by (simp_all add: tail_left_behind_def run_q)

text \<open>C22: With one producer and one consumer the queue is correct in every interleaving in which the weak
  exchange that moves the tail behind a new node does not fail spuriously (the other exchanges may): no step
  of either thread touches a deleted node, the values handed out are the first ones that were linked, in
  order, and between calls the queue holds exactly the others. The condition is needed: with a single
  spurious failure of that exchange one producer and one consumer reach a deleted node.\<close>

theorem one_producer_one_consumer_safe:
  assumes "spsc_reachable d s"
  shows "(act \<noteq> Call_Dequeue \<longrightarrow> (act = Fail_Weakly \<longrightarrow> may_fail (q_at s 0)) \<longrightarrow>
      q_step 0 act s \<noteq> Some (Inl e)) \<and>
    ((\<forall>v. act \<noteq> Call_Enqueue v) \<longrightarrow> q_step 1 act s \<noteq> Some (Inl e)) \<and>
    take (length (delivered s)) (linked s) = delivered s \<and>
    (q_at s 0 = Q_Idle \<longrightarrow> q_at s 1 = Q_Idle \<longrightarrow>
      (\<exists>xs. queue_of (queue s) xs \<and> linked s = delivered s @ xs)) \<and>
    (\<exists>sched. list_all one_each sched \<and> length (filter (\<lambda>(t, act). act = Fail_Weakly) sched) = 1 \<and>
      q_run sched (qsys_start d) = Some (Inl Undefined_Behaviour))"
proof -
  obtain as where as: "spsc_holds s as"
    using spsc.reachable_inv [OF assms [unfolded spsc_reachable_def]] by blast
  then have "linked s = delivered s @ in_transit (q_at s 1) (queue s) @ map snd as"
    by (simp add: spsc_holds_def Let_def)
  then have "take (length (delivered s)) (linked s) = delivered s" by simp
  moreover have "act \<noteq> Call_Dequeue \<longrightarrow> (act = Fail_Weakly \<longrightarrow> may_fail (q_at s 0)) \<longrightarrow>
      q_step 0 act s \<noteq> Some (Inl e)"
    using produce_step [OF as, of act "Inl e"] by auto
  moreover have "(\<forall>v. act \<noteq> Call_Enqueue v) \<longrightarrow> q_step 1 act s \<noteq> Some (Inl e)"
    using consume_step [OF as, of act "Inl e"] by auto
  moreover have "q_at s 0 = Q_Idle \<longrightarrow> q_at s 1 = Q_Idle \<longrightarrow>
      (\<exists>xs. queue_of (queue s) xs \<and> linked s = delivered s @ xs)"
    using spsc_holds_idle [OF as] by blast
  moreover have "length (filter (\<lambda>(t, act). act = Fail_Weakly) (tail_left_behind d d)) = 1"
    by (simp add: tail_left_behind_def)
  ultimately show ?thesis
    using tail_left_behind_run(1) [of d d] tail_left_behind_run(2) [of d d d] by blast
qed

text \<open>A value has been enqueued and dequeued, and a second one enqueued.\<close>

theorem one_producer_one_consumer_safe_witness:
  "\<exists>s. spsc_reachable (0 :: int) s \<and> delivered s = [1] \<and> linked s = [1, 2] \<and>
     queue_of (queue s) [2]"
proof -
  have "\<exists>s. spsc_reachable (0 :: int) s \<and> delivered s = [1] \<and> linked s = [1, 2] \<and>
      q_at s 0 = Q_Idle \<and> q_at s 1 = Q_Idle"
    by (rule one_out_of_two)
  then obtain s where s: "spsc_reachable (0 :: int) s" "delivered s = [1]" "linked s = [1, 2]"
    "q_at s 0 = Q_Idle" "q_at s 1 = Q_Idle" by blast
  with one_producer_one_consumer_safe [OF s(1), of Go] show ?thesis by auto
qed

text \<open>C33: With two consumers, or with two producers and one consumer, undefined behaviour is reachable,
  even when no exchange fails spuriously and no address is used twice: one thread deletes a node another
  is about to read.\<close>

theorem queue_unsafe_beyond_one_each:
  "(\<exists>sched. list_all (allowed [0] [1, 2]) sched \<and>
     q_run sched (qsys_start d) = Some (Inl Undefined_Behaviour)) \<and>
   (\<exists>sched. list_all (allowed [0, 2] [1]) sched \<and>
     q_run sched (qsys_start d) = Some (Inl Undefined_Behaviour))"
  by (intro conjI exI) (rule two_consumers_run two_producers_run)+

end
