(* ===== verification/Array_Requests.thy ===== *)
theory Array_Requests
  imports Command_Specs
begin

text \<open>
  What a request does as a function of its arguments: any command name in any case, with any number of
  arguments, too few and too many included. The byte-level parser of \<^verbatim>\<open>src/redis_parser.cpp\<close> is proved to
  compute it; the positions in the buffer are gone.
\<close>

section \<open>Requests as lists of arguments\<close>

definition protocol_error :: cpp_error where
  "protocol_error = Runtime_Error ''protocol error: expected bulk string''"

definition answer :: "string \<Rightarrow> world \<Rightarrow> outcome" where
  "answer r w = (Inr (), w\<lparr>replies := replies w @ [r], is_communicating := False\<rparr>)"

definition array_get :: "string \<Rightarrow> world \<Rightarrow> outcome" where
  "array_get k w =
     (let (response, db, clock) = db_get k (db_handler w) (clk w)
      in answer (value_reply response) (w\<lparr>db_handler := db, clk := clock\<rparr>))"

text \<open>A store: acknowledged, then sent to the slaves as the bytes that were received.\<close>

definition store_and_send :: "string \<Rightarrow> string \<Rightarrow> string \<Rightarrow> int \<Rightarrow> world \<Rightarrow> outcome" where
  "store_and_send input k v e w =
     answer OK_RESPONSE (w\<lparr>db_handler := db_set k v e (db_handler w),
       net := net w @ propagation input (get_server_info w)\<rparr>)"

text \<open>
  One argument behind the value makes the parser look for a second one; the first may be anything. The
  clock is read before the number is.
\<close>

fun array_set :: "string \<Rightarrow> string list \<Rightarrow> world \<Rightarrow> outcome" where
  "array_set input [k, v] w = store_and_send input k v 0 w"
| "array_set input (k # v # option # ms # args) w =
     (let now = readings (clk w) (reads (clk w));
          w = w\<lparr>clk := (clk w)\<lparr>reads := Suc (reads (clk w))\<rparr>\<rparr>
      in or_throw (stoi ms) w (\<lambda>n.
           if long_ok (now + n) then store_and_send input k v (now + n) w
           else (Inl Undefined_Behaviour, w)))"
| "array_set input args w = (Inl protocol_error, w)"

fun array_config :: "string list \<Rightarrow> world \<Rightarrow> outcome" where
  "array_config [] w = (Inl protocol_error, w)"
| "array_config (command # args) w =
     (if to_upper command \<noteq> ''GET'' then answer NULL_RESPONSE w
      else case args of
        [] \<Rightarrow> (Inl protocol_error, w)
      | name # _ \<Rightarrow> answer (config_reply name (cfg w)) w)"

definition array_keys :: "environment \<Rightarrow> string \<Rightarrow> world \<Rightarrow> outcome" where
  "array_keys env pattern w =
     or_throw (and_then (keys_pattern pattern) (regex_matcher (std_regex env))) w (\<lambda>regex_match.
       answer (create_array_reponse
         (filter regex_match (map fst (iteration env (database (db_handler w)))))) w)"

definition array_info :: "string \<Rightarrow> world \<Rightarrow> outcome" where
  "array_info topic w =
     answer (create_string_reponse
       (if to_upper topic = ''REPLICATION'' then replication_info (get_server_info w) else [])) w"

text \<open>A command that needs one argument.\<close>

fun with_argument :: "(string \<Rightarrow> world \<Rightarrow> outcome) \<Rightarrow> string list \<Rightarrow> world \<Rightarrow> outcome" where
  "with_argument f [] w = (Inl protocol_error, w)"
| "with_argument f (a # args) w = f a w"

definition array_serve ::
  "environment \<Rightarrow> int \<Rightarrow> string \<Rightarrow> string \<Rightarrow> string list \<Rightarrow> world \<Rightarrow> outcome" where
  "array_serve env fd input name args w =
     (if name = ''ECHO'' then with_argument (\<lambda>a. answer (create_string_reponse a)) args w
      else if name = ''PING'' then answer PING_RESPONSE w
      else if name = ''SET'' then array_set input args w
      else if name = ''GET'' then with_argument array_get args w
      else if name = ''CONFIG'' then array_config args w
      else if name = ''KEYS'' then with_argument (array_keys env) args w
      else if name = ''INFO'' then with_argument array_info args w
      else if name = ''REPLCONF'' then answer OK_RESPONSE w
      else if name = ''PSYNC'' then parsePSYNCCommand env fd w
      else answer NULL_RESPONSE w)"

text \<open>The arguments a command other than \<open>SET\<close> reads are there.\<close>

definition arguments_given :: "string \<Rightarrow> string list \<Rightarrow> bool" where
  "arguments_given name args \<longleftrightarrow>
     (name \<in> {''ECHO'', ''GET'', ''KEYS'', ''INFO''} \<longrightarrow> args \<noteq> []) \<and>
     (name = ''CONFIG'' \<longrightarrow> args \<noteq> [] \<and> (to_upper (hd args) = ''GET'' \<longrightarrow> tl args \<noteq> []))"

section \<open>The handlers read their arguments\<close>

lemma answer_simp: "reply_and_finish r w = answer r w"
  by (simp add: answer_def reply_and_finish_def enqueueMessage_def communication_over_def)

abbreviation bulks :: "string list \<Rightarrow> string" where
  "bulks args \<equiv> concat (map create_string_reponse args)"

lemma no_argument: "cursor input p [] \<Longrightarrow> parseBulkString input p = Inl protocol_error"
  by (simp add: parseBulkString_def protocol_error_def NUL_def)

lemma echo_array:
  "cursor input p (bulks args @ rest) \<Longrightarrow> rest = [] \<or> args \<noteq> [] \<Longrightarrow>
   parseECHOCommand input p w = with_argument (\<lambda>a. answer (create_string_reponse a)) args w"
  by (cases args)
    (auto simp: parseECHOCommand_def no_argument answer_simp dest!: parseBulkString_cursor)

lemma get_array:
  "cursor input p (bulks args @ rest) \<Longrightarrow> rest = [] \<or> args \<noteq> [] \<Longrightarrow>
   parseGETCommand input p w = with_argument array_get args w"
  by (cases args)
    (auto simp: parseGETCommand_def no_argument answer_simp array_get_def value_reply_def Let_def
      split: prod.splits dest!: parseBulkString_cursor)

lemma info_array:
  "cursor input p (bulks args @ rest) \<Longrightarrow> rest = [] \<or> args \<noteq> [] \<Longrightarrow>
   parseINFOCommand input p w = with_argument array_info args w"
  by (cases args)
    (auto simp: parseINFOCommand_def no_argument answer_simp array_info_def Let_def
      dest!: parseBulkString_cursor)

lemma keys_array:
  "cursor input p (bulks args @ rest) \<Longrightarrow> rest = [] \<or> args \<noteq> [] \<Longrightarrow>
   parseKEYSCommand env input p w = with_argument (array_keys env) args w"
  by (cases args)
    (auto simp: parseKEYSCommand_def no_argument answer_simp array_keys_def Let_def
      dest!: parseBulkString_cursor)

lemma config_array:
  assumes "cursor input p (bulks args @ rest)" and "rest = [] \<or> arguments_given ''CONFIG'' args"
  shows "parseCONFIGGETCommand input p w = array_config args w"
proof (cases args)
  case Nil
  with assms show ?thesis
    by (auto simp: parseCONFIGGETCommand_def no_argument arguments_given_def)
next
  case (Cons command more)
  with assms(1) obtain q where
    q: "parseBulkString input p = Inr (command, q)" "cursor input q (bulks more @ rest)"
    by (auto dest!: parseBulkString_cursor)
  show ?thesis
  proof (cases more)
    case Nil
    with assms(2) Cons q show ?thesis
      by (auto simp: parseCONFIGGETCommand_def no_argument arguments_given_def answer_simp)
  next
    case (Cons name more')
    with q \<open>args = command # more\<close> show ?thesis
      by (auto simp: parseCONFIGGETCommand_def answer_simp config_reply_def dest!: parseBulkString_cursor)
  qed
qed

lemma dispatch_array:
  assumes "cursor input p (bulks args @ rest)" and "rest = [] \<or> arguments_given name args"
    and "name \<noteq> ''SET''"
  shows "dispatch again env fd input name n p w = array_serve env fd other name args w"
proof -
  have one: "rest = [] \<or> args \<noteq> []"
    if "name = c" "c \<in> {''ECHO'', ''GET'', ''KEYS'', ''INFO''}" for c
    using assms(2) that unfolding arguments_given_def by metis
  have config: "rest = [] \<or> arguments_given ''CONFIG'' args" if "name = ''CONFIG''"
    using assms(2) that by metis
  show ?thesis
    unfolding dispatch_def array_serve_def
    by (intro if_cong refl echo_array [OF assms(1)] get_array [OF assms(1)] keys_array [OF assms(1)]
        info_array [OF assms(1)] config_array [OF assms(1)])
      (simp_all add: one config assms(3) parsePINGCommand_def parseREPLCONFCommand_def answer_simp)
qed

section \<open>Stores\<close>

lemma stored_and_sent:
  assumes "db_inv (db_handler w)" and "char_at input p = Inr c" and "c \<noteq> CHR ''*''"
  shows "set_tail again input p (stored k v e w) = store_and_send input k v e w"
proof -
  have "si_inv (get_server_info (stored k v e w))"
    using assms(1) by (simp add: db_inv_def) (simp add: get_server_info_def)
  with assms(2,3) show ?thesis
    by (simp add: set_tail_def propagate_ok store_and_send_def answer_def)
      (simp add: stored_def enqueueMessage_def communication_over_def)
qed

lemma char_at_bulks: "cursor input p (bulks args) \<Longrightarrow> \<exists>c. char_at input p = Inr c \<and> c \<noteq> CHR ''*''"
  by (cases args) (auto simp: NUL_def create_string_reponse_def)

lemma set_array:
  assumes "cursor input p (bulks args)" and "db_inv (db_handler w)"
  shows "parseSETCommand again input p (int (Suc (length args))) w = array_set input args w"
proof (cases "(input, args, w)" rule: array_set.cases)
  case (1 input' k v w')
  with assms(1) obtain q where "parseSETCommand again input p 3 w =
      set_tail again input q (stored k v 0 w)" "cursor input q []"
    using set_cursor [of input p k v "[]" again w] by auto
  with 1 stored_and_sent [OF assms(2) char_at_cursor_end] show ?thesis
    by (simp add: NUL_def)
next
  case (2 input' k v option ms more w')
  from assms(1) 2 have c: "cursor input p (create_string_reponse k @ create_string_reponse v @
      create_string_reponse option @ create_string_reponse ms @ bulks more)" by simp
  from parseBulkString_cursor [OF c] obtain p1 where
    1: "parseBulkString input p = Inr (k, p1)" "cursor input p1 (create_string_reponse v @
        create_string_reponse option @ create_string_reponse ms @ bulks more)" by blast
  from parseBulkString_cursor [OF 1(2)] obtain p2 where
    2: "parseBulkString input p1 = Inr (v, p2)"
       "cursor input p2 (create_string_reponse option @ create_string_reponse ms @ bulks more)" by blast
  from parseBulkString_cursor [OF 2(2)] obtain p3 where
    3: "parseBulkString input p2 = Inr (option, p3)"
       "cursor input p3 (create_string_reponse ms @ bulks more)" by blast
  from parseBulkString_cursor [OF 3(2)] obtain p4 where
    4: "parseBulkString input p3 = Inr (ms, p4)" "cursor input p4 (bulks more)" by blast
  from char_at_bulks [OF 4(2)] obtain ch where ch: "char_at input p4 = Inr ch" "ch \<noteq> CHR ''*''"
    by blast
  let ?w = "w\<lparr>clk := snd (get_current_time_milli (clk w))\<rparr>"
  have "db_inv (db_handler ?w)"
    using assms(2) by simp
  from stored_and_sent [OF this ch] 1(1) 2(1) 3(1) 4(1) \<open>(input, args, w) = _\<close> show ?thesis
    by (cases "stoi ms")
      (auto simp: parseSETCommand_def read_expiry_def get_current_time_milli_def stored_def Let_def)
qed (use assms(1) in \<open>auto simp: parseSETCommand_def read_expiry_def no_argument Let_def
    dest!: parseBulkString_cursor bulk1_cursor\<close>)

section \<open>Properties\<close>

lemma array_begun:
  assumes "length (command_bytes (command # args) @ rest) < 2 ^ 31"
  shows "\<exists>p. serve_input (Suc d) env fd (command_bytes (command # args) @ rest) w =
      dispatch (parseRESPCommand d env fd (command_bytes (command # args) @ rest)) env fd
        (command_bytes (command # args) @ rest) (to_upper command) (int (Suc (length args))) p
        (w\<lparr>is_communicating := True\<rparr>) \<and>
    cursor (command_bytes (command # args) @ rest) p (bulks args @ rest)"
  using parse_command [of "command_bytes (command # args) @ rest" 0 command args rest d env fd
      "w\<lparr>is_communicating := True\<rparr>"] assms
  by (simp add: serve_input_def)

lemma array_outcome:
  assumes "length (command_bytes (command # args)) < 2 ^ 31" and "db_inv (db_handler w)"
  shows "serve_input (Suc d) env fd (command_bytes (command # args)) w =
    array_serve env fd (command_bytes (command # args)) (to_upper command) args
      (w\<lparr>is_communicating := True\<rparr>)"
proof -
  let ?input = "command_bytes (command # args)"
  from array_begun [of command args "[]" d env fd w] assms(1) obtain p where
    p: "serve_input (Suc d) env fd ?input w =
          dispatch (parseRESPCommand d env fd ?input) env fd ?input (to_upper command)
            (int (Suc (length args))) p (w\<lparr>is_communicating := True\<rparr>)"
       "cursor ?input p (bulks args)" by auto
  show ?thesis
  proof (cases "to_upper command = ''SET''")
    case True
    with p(1) set_array [OF p(2), of "w\<lparr>is_communicating := True\<rparr>"] assms(2) show ?thesis
      by (simp add: dispatch_def array_serve_def)
  next
    case False
    then show ?thesis
      unfolding p(1) using p(2) by (intro dispatch_array [of _ _ _ "[]"]) simp_all
  qed
qed

text \<open>C11: Every request is a function of its arguments: for an array of bulk strings with any command name, in
  any mixture of cases, and any number of arguments, the parser's outcome is that of \<open>array_serve\<close> on the
  upper-cased name and the arguments, with the null reply for a name it does not know and the protocol
  error, which ends the process, where an argument is missing.\<close>

theorem request_is_function_of_arguments:
  assumes "length (command_bytes (command # args)) < 2 ^ 31" and "db_inv (db_handler w)"
  shows "serve_input (Suc d) env fd (command_bytes (command # args)) w =
    array_serve env fd (command_bytes (command # args)) (to_upper command) args
      (w\<lparr>is_communicating := True\<rparr>)"
  by (rule array_outcome [OF assms])

text \<open>A lower-case \<open>get\<close> without its argument ends the server.\<close>

theorem request_is_function_of_arguments_witness:
  "fst (serve_input 1 plain_env 7 (command_bytes [''gEt'']) empty_world) = Inl protocol_error"
proof -
  have "length (command_bytes [''gEt'']) = 13" "to_upper ''gEt'' = ''GET''"
    by code_simp+
  then show ?thesis
    using request_is_function_of_arguments [of "''gEt''" "[]" empty_world 0 plain_env 7]
    by (simp add: array_serve_def)
qed

text \<open>C24: Only stores are pipelined: behind a complete command other than \<open>SET\<close> the rest of the buffer, whatever
  it holds, is dropped without a reply and without an effect.\<close>

theorem commands_behind_others_are_dropped:
  assumes "length (command_bytes (command # args) @ rest) < 2 ^ 31"
    and "to_upper command \<noteq> ''SET''" and "arguments_given (to_upper command) args"
  shows "serve_input (Suc d) env fd (command_bytes (command # args) @ rest) w =
    serve_input (Suc d) env fd (command_bytes (command # args)) w"
proof -
  have "serve_input (Suc d) env fd (command_bytes (command # args) @ more) w =
      array_serve env fd [] (to_upper command) args (w\<lparr>is_communicating := True\<rparr>)"
    if len: "length (command_bytes (command # args) @ more) < 2 ^ 31" for more
  proof -
    from array_begun [OF len, of d env fd w] obtain p where
      p: "serve_input (Suc d) env fd (command_bytes (command # args) @ more) w =
            dispatch (parseRESPCommand d env fd (command_bytes (command # args) @ more)) env fd
              (command_bytes (command # args) @ more) (to_upper command) (int (Suc (length args))) p
              (w\<lparr>is_communicating := True\<rparr>)"
         "cursor (command_bytes (command # args) @ more) p (bulks args @ more)" by blast
    show ?thesis
      unfolding p(1) using dispatch_array [OF p(2)] assms(2,3) by simp
  qed
  from this [of rest] this [of "[]"] assms(1) show ?thesis by simp
qed

text \<open>A \<open>PING\<close> and a store in one packet: the store is not carried out.\<close>

theorem commands_behind_others_are_dropped_witness:
  "\<exists>w. serve_input 1 plain_env 7 (request_bytes Ping @ request_bytes (Set ''k'' ''v'')) empty_world =
       (Inr (), w) \<and> replies w = [PING_RESPONSE] \<and> store_of (db_handler w) = Map.empty"
proof -
  have len: "length (command_bytes [''PING''] @ request_bytes (Set ''k'' ''v'')) = 41"
    "length (command_bytes [''PING'']) = 14"
    by code_simp+
  from commands_behind_others_are_dropped [of "''PING''" "[]" "request_bytes (Set ''k'' ''v'')" 0
      plain_env 7 empty_world] len
    array_outcome [of "''PING''" "[]" empty_world 0 plain_env 7]
  show ?thesis
    by (simp add: arguments_given_def array_serve_def answer_def request_bytes_def)
qed

end
