(* ===== verification/Parser_Termination.thy ===== *)
theory Parser_Termination
  imports Server_Spec
begin

text \<open>
  When the recursion of the parser of \<^verbatim>\<open>src/redis_parser.cpp\<close> ends: a negative length or a length without
  a line end can move the position back (\<open>Malformed_Input\<close>), and nothing else can. In a buffer without a
  minus sign that ends with a line end, every command moves the position forward.
\<close>

section \<open>Reading moves forward\<close>

definition forward_buffer :: "string \<Rightarrow> bool" where
  "forward_buffer input \<longleftrightarrow>
     length input < 2 ^ 31 \<and> CHR ''-'' \<notin> set input \<and> suffix CRLF input"

lemma find_from_ends: "\<exists>j. find_from CRLF (zs @ CRLF) i = Some j \<and> i \<le> j \<and> j \<le> i + length zs"
proof (induction zs arbitrary: i)
  case Nil
  then show ?case by (simp add: CRLF_def)
next
  case (Cons z zs)
  from Cons.IH [of "Suc i"] show ?case by fastforce
qed

lemma str_find_ends:
  assumes "forward_buffer input" and "unat pos + 2 \<le> length input"
  shows "\<exists>e. str_find input CRLF pos = word_of_nat e \<and> unat pos \<le> e \<and> e + 2 \<le> length input"
proof -
  from assms(1) obtain ys where ys: "input = ys @ CRLF"
    by (auto simp: forward_buffer_def suffix_def)
  with assms(2) have "drop (unat pos) input = drop (unat pos) ys @ CRLF"
    by (simp add: drop_append)
  with find_from_ends [of "drop (unat pos) ys" "unat pos"] ys assms(2) show ?thesis
    by (fastforce simp: str_find_def)
qed

text \<open>The last two characters are no marker, so two characters follow one.\<close>

lemma marker_inside:
  assumes "forward_buffer input" and "char_at input pos = Inr c" and "c \<in> {CHR ''*'', CHR ''$''}"
  shows "unat pos + 3 \<le> length input"
proof -
  from assms(1) obtain ys where ys: "input = ys @ CRLF"
    by (auto simp: forward_buffer_def suffix_def)
  have "unat pos < length ys"
  proof (rule ccontr)
    assume "\<not> unat pos < length ys"
    with assms(2,3) ys show False
      by (auto simp: char_at_def nth_append CRLF_def NUL_def less_Suc_eq nth_Cons
          split: if_splits nat.splits)
  qed
  with ys show ?thesis by simp
qed

lemma stoi_nonneg:
  assumes "stoi s = Inr n" and "CHR ''-'' \<notin> set s"
  shows "0 \<le> n" and "s \<noteq> []"
proof -
  have "CHR ''-'' \<notin> set (dropWhile is_space s)"
    using assms(2) set_dropWhileD by fast
  then have "\<not> fst (split_sign (dropWhile is_space s))"
    by (auto simp: split_sign_def split: list.splits)
  with assms(1) show "0 \<le> n"
    by (auto simp: stoi_def Let_def split: prod.splits if_splits)
  show "s \<noteq> []"
    using assms(1) by (auto simp: stoi_def split_sign_def)
qed

text \<open>A number up to the next line end.\<close>

lemma number_forward:
  assumes "forward_buffer input" and "unat pos + 2 \<le> length input"
    and "and_then (substr input pos (str_find input CRLF pos - pos)) stoi = Inr n"
  shows "\<exists>e. str_find input CRLF pos = word_of_nat e \<and> unat pos < e \<and> e + 2 \<le> length input \<and>
    0 \<le> n \<and> n < 2 ^ 31"
proof -
  from str_find_ends [OF assms(1,2)] obtain e where
    e: "str_find input CRLF pos = word_of_nat e" "unat pos \<le> e" "e + 2 \<le> length input" by blast
  have "unat (word_of_nat e - pos) = e - unat pos"
    using e(2,3) assms(1)
    by (simp add: forward_buffer_def unat_sub_if_size word_le_nat_alt unat_of_nat)
  then have digits: "substr input pos (str_find input CRLF pos - pos) =
      Inr (take (e - unat pos) (drop (unat pos) input))"
    using e(3) assms(2) by (simp add: substr_def e(1))
  with assms(3) have stoi: "stoi (take (e - unat pos) (drop (unat pos) input)) = Inr n"
    by simp
  moreover have "CHR ''-'' \<notin> set (take (e - unat pos) (drop (unat pos) input))"
    using assms(1) by (auto simp: forward_buffer_def dest!: in_set_takeD in_set_dropD)
  ultimately have "0 \<le> n" "take (e - unat pos) (drop (unat pos) input) \<noteq> []"
    by (rule stoi_nonneg)+
  with e stoi_bounds [OF stoi] show ?thesis
    by (auto simp: int_ok_def)
qed

lemma position_arithmetic:
  assumes "e + 2 \<le> length input" and "length input < 2 ^ 31" and "0 \<le> n" and "n < 2 ^ 31"
  shows "unat (word_of_nat e + 2 :: size_t) = e + 2"
    and "unat (word_of_nat e + 2 + word_of_int (n + 2) :: size_t) = e + 4 + nat n"
proof -
  show e: "unat (word_of_nat e + 2 :: size_t) = e + 2"
    using assms(1,2) unat_add_small [of "word_of_nat e" 2] by (simp add: unat_of_nat)
  have "word_of_int (n + 2) = (word_of_nat (nat n + 2) :: size_t)"
    using assms(3) by (metis int_nat_eq of_int_of_nat_eq of_nat_add of_nat_numeral)
  then show "unat (word_of_nat e + 2 + word_of_int (n + 2) :: size_t) = e + 4 + nat n"
    using unat_add_small [of "word_of_nat e + 2" "nat n + 2"] e assms by simp
qed

lemma next_position:
  assumes "forward_buffer input" and "char_at input pos = Inr c" and "c \<in> {CHR ''*'', CHR ''$''}"
  shows "unat (pos + 1) = Suc (unat pos)" and "unat (pos + 1) + 2 \<le> length input"
proof -
  have "unat pos + 3 \<le> length input"
    by (rule marker_inside [OF assms])
  with assms(1) show "unat (pos + 1) = Suc (unat pos)" "unat (pos + 1) + 2 \<le> length input"
    using unat_add_small [of pos 1] by (simp_all add: forward_buffer_def)
qed

text \<open>A bulk string takes its marker, a digit, two line ends and its characters.\<close>

lemma bulk_forward:
  assumes "forward_buffer input" and "parseBulkString input pos = Inr (s, p)"
  shows "unat pos + 6 + length s \<le> unat p"
proof -
  from assms(2) have c: "char_at input pos = Inr (CHR ''$'')"
    by (auto simp: parseBulkString_def and_then_Inr_iff split: if_splits)
  have "CHR ''$'' \<in> {CHR ''*'', CHR ''$''}" by simp
  note inside = next_position [OF assms(1) c this]
  from assms(2) c obtain n where
    n: "and_then (substr input (pos + 1) (str_find input CRLF (pos + 1) - (pos + 1))) stoi = Inr n"
       "substr input (str_find input CRLF (pos + 1) + 2) (word_of_int n) = Inr s"
       "int_add n 2 = Inr (n + 2)"
       "p = str_find input CRLF (pos + 1) + 2 + word_of_int (n + 2)"
    by (auto simp: parseBulkString_def Let_def int_add_def and_then_Inr_iff split: if_splits)
  from number_forward [OF assms(1) inside(2) n(1)] obtain e where
    e: "str_find input CRLF (pos + 1) = word_of_nat e" "unat (pos + 1) < e" "e + 2 \<le> length input"
       "0 \<le> n" "n < 2 ^ 31" by blast
  have "length input < 2 ^ 31"
    using assms(1) by (simp add: forward_buffer_def)
  from position_arithmetic [OF e(3) this e(4,5)] n(4) have "unat p = e + 4 + nat n"
    by (simp add: e(1))
  moreover have "unat (word_of_int n :: size_t) = nat n"
    using e(4,5) unat_add_small [of 0 "nat n"] by simp
  then have "length s \<le> nat n"
    using n(2) by (auto simp: substr_def split: if_splits)
  ultimately show ?thesis
    using e(2) inside(1) by simp
qed

lemma header_forward:
  assumes "forward_buffer input" and "char_at input pos = Inr (CHR ''*'')"
    and "read_array_header input (pos + 1) = Inr (n, p)"
  shows "unat pos + 4 \<le> unat p"
proof -
  have "CHR ''*'' \<in> {CHR ''*'', CHR ''$''}" by simp
  note inside = next_position [OF assms(1,2) this]
  from assms(3) have
    n: "and_then (substr input (pos + 1) (str_find input CRLF (pos + 1) - (pos + 1))) stoi = Inr n"
       "p = str_find input CRLF (pos + 1) + 2"
    by (auto simp: read_array_header_def Let_def and_then_Inr_iff)
  from number_forward [OF assms(1) inside(2) n(1)] obtain e where
    e: "str_find input CRLF (pos + 1) = word_of_nat e" "unat (pos + 1) < e" "e + 2 \<le> length input"
       "0 \<le> n" "n < 2 ^ 31" by blast
  have "length input < 2 ^ 31"
    using assms(1) by (simp add: forward_buffer_def)
  from position_arithmetic(1) [OF e(3) this e(4,5)] n(2) e(2) inside(1) show ?thesis
    by (simp add: e(1))
qed

section \<open>No handler exhausts the stack by itself\<close>

lemma primitive_errors [simp]:
  "char_at input pos \<noteq> Inl Stack_Overflow" "substr input pos n \<noteq> Inl Stack_Overflow"
  "stoi s \<noteq> Inl Stack_Overflow" "int_add i k \<noteq> Inl Stack_Overflow"
  "get_connected_slave_fd si i \<noteq> Inl Stack_Overflow"
  by (auto simp: char_at_def substr_def stoi_def int_add_def get_connected_slave_fd_def Let_def
      split: prod.splits)

lemma and_then_error: "and_then r f = Inl e \<longleftrightarrow> r = Inl e \<or> (\<exists>x. r = Inr x \<and> f x = Inl e)"
  by (cases r) auto

lemma reader_errors [simp]:
  "parseBulkString input pos \<noteq> Inl Stack_Overflow" "read_array_header input pos \<noteq> Inl Stack_Overflow"
  by (auto simp: parseBulkString_def read_array_header_def and_then_error Let_def)

lemma regex_compile_error [simp]: "regex_compile p \<noteq> Inl Stack_Overflow"
proof -
  have "compile_frames p fs \<noteq> Inl Stack_Overflow" for fs
    by (induction p fs rule: compile_frames.induct) (auto split: list.splits prod.splits if_splits)
  then show ?thesis
    by (simp add: regex_compile_def)
qed

lemma or_throw_iff:
  "or_throw r w f = p \<longleftrightarrow> (\<exists>e. r = Inl e \<and> p = (Inl e, w)) \<or> (\<exists>x. r = Inr x \<and> f x = p)"
  by (cases r) auto

definition stack_kept :: "outcome \<Rightarrow> bool" where
  "stack_kept p \<longleftrightarrow> fst p \<noteq> Inl Stack_Overflow"

lemma stack_kept_throw:
  "r \<noteq> Inl Stack_Overflow \<Longrightarrow> (\<And>x. r = Inr x \<Longrightarrow> stack_kept (f x)) \<Longrightarrow> stack_kept (or_throw r w f)"
  by (cases r) (auto simp: stack_kept_def)

lemma stack_kept_then: "stack_kept p \<Longrightarrow> (\<And>w. stack_kept (f w)) \<Longrightarrow> stack_kept (then_do p f)"
  by (cases "(p, f)" rule: then_do.cases) (auto simp: stack_kept_def)

lemma stack_kept_simps [simp]:
  "stack_kept (reply_and_finish m w)" "stack_kept (Inr (), w)"
  by (simp_all add: stack_kept_def reply_and_finish_def)

lemmas stack_kept_rules = stack_kept_throw stack_kept_then

lemma stack_kept_handlers:
  "stack_kept (parseECHOCommand input pos w)" "stack_kept (parsePINGCommand w)"
  "stack_kept (parseGETCommand input pos w)" "stack_kept (parseCONFIGGETCommand input pos w)"
  "stack_kept (parseINFOCommand input pos w)" "stack_kept (parseREPLCONFCommand w)"
  "stack_kept (parsePSYNCCommand env fd w)"
  by (auto simp: parseECHOCommand_def parsePINGCommand_def parseGETCommand_def Let_def
      parseCONFIGGETCommand_def parseINFOCommand_def parseREPLCONFCommand_def parsePSYNCCommand_def
      and_then_error intro!: stack_kept_rules split: prod.splits)

text \<open>The library's regular expressions recurse as well; that they stay inside the stack is assumed.\<close>

lemma stack_kept_keys:
  assumes "\<And>p. std_regex env p \<noteq> Inl Stack_Overflow"
  shows "stack_kept (parseKEYSCommand env input pos w)"
  using assms
  by (auto simp: parseKEYSCommand_def keys_pattern_def regex_matcher_def and_then_error Let_def
      intro!: stack_kept_rules split: prod.splits if_splits)

lemma stack_kept_propagate: "stack_kept (propagate input w)"
proof -
  have "stack_kept (propagate_loop n i input w)" for n i w
    by (induction n arbitrary: i w) (auto intro!: stack_kept_rules)
  then show ?thesis
    by (simp add: propagate_def)
qed

text \<open>A store gets to its end or throws, whatever the recursive call does.\<close>

lemma set_reaches_tail:
  assumes "forward_buffer input"
  shows "(\<exists>p. stack_kept p \<and> (\<forall>again. parseSETCommand again input pos n w = p)) \<or>
    (\<exists>p u. unat pos + 12 \<le> unat p \<and> (\<forall>again. parseSETCommand again input pos n w = set_tail again input p u))"
proof (cases "parseBulkString input pos")
  case (Inl e)
  then show ?thesis
    using reader_errors(1) [of input pos] by (auto simp: parseSETCommand_def stack_kept_def)
next
  case (Inr kp)
  obtain k p1 where k: "parseBulkString input pos = Inr (k, p1)"
    using Inr by (cases kp) simp
  show ?thesis
  proof (cases "parseBulkString input p1")
    case (Inl e)
    with k show ?thesis
      using reader_errors(1) [of input p1] by (auto simp: parseSETCommand_def stack_kept_def)
  next
    case (Inr vp)
    then obtain v p2 where v: "parseBulkString input p1 = Inr (v, p2)"
      by (cases vp) simp
    have le: "unat q \<le> unat q'" if "parseBulkString input q = Inr (a, q')" for q q' a
      using bulk_forward [OF assms that] by simp
    have forward: "unat pos + 12 \<le> unat p2"
      using bulk_forward [OF assms k] bulk_forward [OF assms v] by simp
    obtain r u where r: "read_expiry input p2 n w = (r, u)"
      by fastforce
    show ?thesis
    proof (cases r)
      case (Inl e)
      then have "e \<noteq> Stack_Overflow"
        using r by (auto simp: read_expiry_def get_current_time_milli_def Let_def or_throw_iff
            split: if_splits prod.splits)
      with Inl k v r show ?thesis
        by (auto simp: parseSETCommand_def stack_kept_def)
    next
      case (Inr ep)
      then obtain e p3 where e: "r = Inr (e, p3)"
        by (cases ep) simp
      have "unat p2 \<le> unat p3"
        using r e
        by (auto simp: read_expiry_def get_current_time_milli_def Let_def or_throw_iff
            split: if_splits prod.splits dest!: le)
      with forward k v r e show ?thesis
        by (intro disjI2 exI [of _ p3]) (auto simp: parseSETCommand_def)
    qed
  qed
qed

section \<open>The recursion ends\<close>

lemma dispatch_others:
  assumes "name \<noteq> ''SET''" and "\<And>p. std_regex env p \<noteq> Inl Stack_Overflow"
  shows "stack_kept (dispatch again env fd input name n pos w)"
    and "dispatch again env fd input name n pos w = dispatch again' env fd input name n pos w"
  using assms stack_kept_keys [OF assms(2)]
  by (simp_all add: dispatch_def stack_kept_handlers)

lemma recursion_ends:
  assumes "forward_buffer input" and "\<And>p. std_regex env p \<noteq> Inl Stack_Overflow"
  shows "0 < depth \<Longrightarrow> length input < 25 * depth + unat pos \<Longrightarrow>
    stack_kept (parseRESPCommand depth env fd input pos w) \<and>
    parseRESPCommand (depth + extra) env fd input pos w = parseRESPCommand depth env fd input pos w"
proof (induction depth arbitrary: pos w)
  case 0
  then show ?case by simp
next
  case (Suc depth)
  note unfold = parseRESPCommand.simps(2)
  show ?case
  proof (cases "char_at input pos = Inr (CHR ''*'')")
    case False
    then show ?thesis
      using primitive_errors(1) [of input pos]
      by (cases "char_at input pos") (auto simp: unfold stack_kept_def)
  next
    case True
    show ?thesis
    proof (cases "read_array_header input (pos + 1)")
      case (Inl e)
      with True show ?thesis
        using reader_errors(2) [of input "pos + 1"] by (auto simp: unfold stack_kept_def)
    next
      case (Inr np)
      then obtain n p1 where n: "read_array_header input (pos + 1) = Inr (n, p1)"
        by (cases np) simp
      show ?thesis
      proof (cases "parseBulkString input p1")
        case (Inl e)
        with True n show ?thesis
          using reader_errors(1) [of input p1] by (auto simp: unfold stack_kept_def)
      next
        case (Inr cp)
        then obtain command p2 where c: "parseBulkString input p1 = Inr (command, p2)"
          by (cases cp) simp
        have body: "parseRESPCommand (Suc k) env fd input pos w =
            dispatch (parseRESPCommand k env fd input) env fd input (to_upper command) n p2 w" for k
          using True n c by (simp add: unfold)
        show ?thesis
        proof (cases "to_upper command = ''SET''")
          case False
          from dispatch_others [OF this assms(2)] show ?thesis
            by (simp add: body)
        next
          case True
          then have "length command = 3"
            by (metis length_map length_Cons list.size(3) numeral_3_eq_3 to_upper_def)
          then have p2: "unat pos + 13 \<le> unat p2"
            using header_forward [OF assms(1) _ n] bulk_forward [OF assms(1) c]
              \<open>char_at input pos = _\<close> by simp
          have body: "parseRESPCommand (Suc k) env fd input pos w =
              parseSETCommand (parseRESPCommand k env fd input) input p2 n w" for k
            using True by (simp add: body dispatch_def)
          from set_reaches_tail [OF assms(1), of p2 n w] show ?thesis
          proof (elim disjE exE conjE)
            fix p u
            assume p: "unat p2 + 12 \<le> unat p"
              and tail: "\<forall>again. parseSETCommand again input p2 n w = set_tail again input p u"
            have "stack_kept (parseRESPCommand depth env fd input p u) \<and>
                parseRESPCommand (depth + extra) env fd input p u = parseRESPCommand depth env fd input p u"
              if "char_at input p = Inr (CHR ''*'')"
            proof (rule Suc.IH)
              have "unat p < length input"
                using marker_inside [OF assms(1) that] by simp
              with p p2 Suc.prems(2) show "length input < 25 * depth + unat p" "0 < depth"
                by auto
            qed
            then show ?thesis
              using body tail primitive_errors(1) [of input p]
              by (cases "char_at input p")
                (auto simp: set_tail_def stack_kept_propagate stack_kept_def [of "(Inl _, _)"]
                  intro!: stack_kept_then)
          qed (use body in auto)
        qed
      qed
    qed
  qed
qed

section \<open>Properties\<close>

text \<open>C12: The parser's recursion ends: in a buffer without a minus sign that ends with a line end, well-formed or
  not, a depth of more than a twenty-fifth of its length never exhausts the stack, and more depth makes
  no difference. For a full receive buffer of 4096 bytes 164 levels are enough.\<close>

theorem parser_recursion_ends:
  assumes "length input < 2 ^ 31" and "CHR ''-'' \<notin> set input" and "suffix CRLF input"
    and "\<And>p. std_regex env p \<noteq> Inl Stack_Overflow" and "length input div 25 < depth"
  shows "fst (serve_input depth env fd input w) \<noteq> Inl Stack_Overflow \<and>
    serve_input (depth + extra) env fd input w = serve_input depth env fd input w"
proof -
  have "forward_buffer input"
    using assms(1-3) by (simp add: forward_buffer_def)
  moreover have "length input < 25 * depth + unat (0 :: size_t)" "0 < depth"
    using assms(5) by auto
  ultimately show ?thesis
    using recursion_ends [of input env depth 0 fd] assms(4)
    by (simp add: serve_input_def stack_kept_def)
qed

text \<open>Three stores, the last one without its arguments.\<close>

theorem parser_recursion_ends_witness:
  "fst (serve_input 3 plain_env 7 (set_bytes [(''a'', ''1''), (''b'', ''2'')] @ command_bytes [''SET''])
     empty_world) \<noteq> Inl Stack_Overflow"
proof -
  let ?input = "set_bytes [(''a'', ''1''), (''b'', ''2'')] @ command_bytes [''SET'']"
  have "length ?input = 67" "list_all (\<lambda>c. c \<noteq> CHR ''-'') ?input" "suffix CRLF ?input"
    by code_simp+
  then show ?thesis
    using parser_recursion_ends [of ?input plain_env 3 7 empty_world]
    by (auto simp: plain_env_def list_all_iff)
qed

end
