(* ===== verification/Cluster.thy ===== *)
theory Cluster
  imports Server_Boot Array_Requests Connection
begin

text \<open>
  A master and a replica as one system: both servers with their stores, the two directions of the
  connection between them as the messages sent and not yet received, clients of either, and the
  interleavings of requests and deliveries. Some things the network and the clients may do are left out
  here: a message is never cut into several packets, the clients' requests are one per packet and without
  expiry, and the replica's clients only read. A task is one step: it runs to its end and all its replies
  are sent (what its two threads can do instead is the subject of \<open>Comm_Protocol\<close>). What a server does with what it receives is the parser's
  outcome, what it sends on the connection are its replies to that connection and what it propagates.
\<close>

section \<open>State\<close>

text \<open>\<open>propagated\<close> is a ghost: the stores the master carried out since the replica is registered. \<open>failed\<close>
  says that one of the processes has ended.\<close>

record cluster =
  master_side :: world
  replica_side :: world
  to_master :: "string list"
  to_replica :: "string list"
  propagated :: "(string \<times> string) list"
  failed :: bool

definition handshake :: "int \<Rightarrow> string list" where
  "handshake own = [handshake_ping, handshake_port own, handshake_capa, handshake_psync]"

text \<open>The replica has connected and sent its handshake.\<close>

definition cluster_start :: "int \<Rightarrow> world \<Rightarrow> world \<Rightarrow> cluster" where
  "cluster_start own m r =
     \<lparr>master_side = m, replica_side = r, to_master = handshake own, to_replica = [],
      propagated = [], failed = False\<rparr>"

section \<open>Steps\<close>

fun is_array :: "string \<Rightarrow> bool" where
  "is_array (c # cs) = (c = CHR ''*'')"
| "is_array [] = False"

definition one_kind :: "string list \<Rightarrow> bool" where
  "one_kind bs \<longleftrightarrow> list_all is_array bs \<or> list_all (\<lambda>b. \<not> is_array b) bs"

fun stores :: "request \<Rightarrow> (string \<times> string) list" where
  "stores (Set k v) = [(k, v)]"
| "stores q = []"

fun plain_request :: "request \<Rightarrow> bool" where
  "plain_request (Set_Px k v ms) = False"
| "plain_request q = True"

definition packet :: "string \<Rightarrow> bool" where
  "packet bytes \<longleftrightarrow> length bytes < RECV_BUFFER_SIZE \<and> NUL \<notin> set bytes"

definition sent_back :: "world \<Rightarrow> world \<Rightarrow> string list" where
  "sent_back w w' = drop (length (replies w)) (replies w')"

definition sent_on :: "int \<Rightarrow> world \<Rightarrow> world \<Rightarrow> string list" where
  "sent_on link w w' = received_by link (drop (length (net w)) (net w'))"

definition registered :: "int \<Rightarrow> world \<Rightarrow> bool" where
  "registered link w \<longleftrightarrow> link \<in> set (connected_slaves_fd (get_server_info w))"

text \<open>
  A client's request, one per packet, without expiry; the replica's clients only read. \<open>link\<close> is the master's
  descriptor of the connection to the replica.
\<close>

inductive cluster_client ::
  "nat \<Rightarrow> environment \<Rightarrow> environment \<Rightarrow> int \<Rightarrow> cluster \<Rightarrow> cluster \<Rightarrow> bool"
  for depth em er link where
  master_client: "plain_request q \<Longrightarrow> packet (request_bytes q) \<Longrightarrow>
    serve_input depth em fd (request_bytes q) (master_side s) = (r, w) \<Longrightarrow>
    cluster_client depth em er link s (s\<lparr>master_side := w,
      to_replica := to_replica s @ sent_on link (master_side s) w,
      propagated := propagated s @ (if registered link (master_side s) then stores q else []),
      failed := failed s \<or> r \<noteq> Inr ()\<rparr>)"
| replica_client: "plain_request q \<Longrightarrow> stores q = [] \<Longrightarrow> packet (request_bytes q) \<Longrightarrow>
    serve_input depth er fd (request_bytes q) (replica_side s) = (r, w) \<Longrightarrow>
    cluster_client depth em er link s (s\<lparr>replica_side := w, failed := failed s \<or> r \<noteq> Inr ()\<rparr>)"

text \<open>
  A delivery: one \<open>recv\<close> returns one or several whole messages, any number of them; a message is never cut
  (what a cut does is stated in \<open>Malformed_Input\<close>). Where \<open>careful\<close> is set, replies and propagated stores are not
  received together, and neither are the messages of the replica's handshake, only its acknowledgements.
\<close>

inductive cluster_deliver ::
  "bool \<Rightarrow> nat \<Rightarrow> environment \<Rightarrow> environment \<Rightarrow> int \<Rightarrow> int \<Rightarrow> cluster \<Rightarrow> cluster \<Rightarrow> bool"
  for careful depth em er link up where
  replica_receives: "to_replica s = bs @ rest \<Longrightarrow> bs \<noteq> [] \<Longrightarrow> (careful \<longrightarrow> one_kind bs) \<Longrightarrow>
    length (concat bs) < RECV_BUFFER_SIZE \<Longrightarrow> received_string (concat bs) = Inr input \<Longrightarrow>
    serve_input depth er up input (replica_side s) = (r, w) \<Longrightarrow>
    cluster_deliver careful depth em er link up s (s\<lparr>replica_side := w, to_replica := rest,
      to_master := to_master s @ sent_back (replica_side s) w, failed := failed s \<or> r \<noteq> Inr ()\<rparr>)"
| master_receives: "to_master s = bs @ rest \<Longrightarrow> bs \<noteq> [] \<Longrightarrow>
    (careful \<longrightarrow> length bs = 1 \<or> list_all (\<lambda>b. \<not> is_array b) bs) \<Longrightarrow>
    length (concat bs) < RECV_BUFFER_SIZE \<Longrightarrow> received_string (concat bs) = Inr input \<Longrightarrow>
    serve_input depth em link input (master_side s) = (r, w) \<Longrightarrow>
    cluster_deliver careful depth em er link up s (s\<lparr>master_side := w, to_master := rest,
      to_replica := to_replica s @ sent_back (master_side s) w @ sent_on link (master_side s) w,
      failed := failed s \<or> r \<noteq> Inr ()\<rparr>)"

definition cluster_step ::
  "bool \<Rightarrow> nat \<Rightarrow> environment \<Rightarrow> environment \<Rightarrow> int \<Rightarrow> int \<Rightarrow> cluster \<Rightarrow> cluster \<Rightarrow> bool" where
  "cluster_step careful depth em er link up s t \<longleftrightarrow>
     cluster_client depth em er link s t \<or> cluster_deliver careful depth em er link up s t"

inductive_cases cluster_clientE: "cluster_client depth em er link s t"
inductive_cases cluster_deliverE: "cluster_deliver careful depth em er link up s t"

section \<open>One request\<close>

definition plain_store :: "store \<Rightarrow> bool" where
  "plain_store m \<longleftrightarrow> (\<forall>v \<in> ran m. expiry_time v = 0)"

lemma packet_received: "packet bytes \<Longrightarrow> received_string bytes = Inr bytes"
  by (simp add: packet_def received_string_text)

lemma plain_get:
  assumes "plain_store (store_of db)"
  shows "\<exists>r. db_get k db c = (r, db, c)"
proof (cases "map_of (database db) k")
  case None
  then show ?thesis by (simp add: db_get_def)
next
  case (Some v)
  then have "expiry_time v = 0"
    using assms by (auto simp: plain_store_def store_of_def ran_def)
  with Some show ?thesis by (simp add: db_get_def)
qed

text \<open>The world after a request without expiry, up to the reply.\<close>

definition after_request :: "request \<Rightarrow> string \<Rightarrow> world \<Rightarrow> world" where
  "after_request q reply w =
     w\<lparr>db_handler := store_pairs (stores q) (db_handler w),
       net := net w @ (if stores q = [] then [] else propagation (request_bytes q) (get_server_info w)),
       replies := replies w @ [reply], is_communicating := False\<rparr>"

lemma plain_request_outcome:
  assumes "plain_request q" and "packet (request_bytes q)" and "db_inv (db_handler w)"
    and "plain_store (store_of (db_handler w))"
  shows "\<exists>reply. serve_input (Suc d) env fd (request_bytes q) w = (Inr (), after_request q reply w)"
proof -
  have "length (request_bytes q) < 2 ^ 31"
    using assms(2) by (simp add: packet_def RECV_BUFFER_SIZE_def)
  then have array: "serve_input (Suc d) env fd (request_bytes q) w =
      array_serve env fd (request_bytes q) (to_upper command) args (w\<lparr>is_communicating := True\<rparr>)"
    if "request_args q = command # args" for command args
    using array_outcome [of command args w d env fd] assms(3) that by (simp add: request_bytes_def)
  show ?thesis
  proof (cases q)
    case Ping
    then show ?thesis
      using array [of "''PING''"] by (simp add: array_serve_def answer_def after_request_def) auto
  next
    case (Echo m)
    then show ?thesis
      using array [of "''ECHO''"] by (simp add: array_serve_def answer_def after_request_def) auto
  next
    case (Get k)
    obtain r where "db_get k (db_handler w) (clk w) = (r, db_handler w, clk w)"
      using plain_get [OF assms(4)] by blast
    with Get show ?thesis
      using array [of "''GET''"] by (simp add: array_serve_def array_get_def answer_def after_request_def) auto
  next
    case (Set k v)
    then show ?thesis
      using array [of "''SET''"]
      by (simp add: array_serve_def answer_def after_request_def store_and_send_def get_server_info_def)
        auto
  next
    case (Set_Px k v ms)
    with assms(1) show ?thesis by simp
  qed
qed

lemma received_by_sends:
  "received_by link (map (\<lambda>f. Send f x) fds) = map (\<lambda>f. x) (filter (\<lambda>f. f = link) fds)"
  by (induction fds) auto

lemma sent_on_request:
  "sent_on link w (after_request q reply w) =
     (if role (get_server_info w) = ''master''
      then concat (map (\<lambda>kv. map (\<lambda>f. set_bytes [kv])
             (filter (\<lambda>f. f = link) (connected_slaves_fd (get_server_info w)))) (stores q))
      else [])"
  by (cases q) (auto simp: sent_on_def after_request_def propagation_def set_bytes_def
      received_by_sends)

section \<open>The handshake\<close>

definition reply_like :: "string \<Rightarrow> bool" where
  "reply_like b \<longleftrightarrow> b \<noteq> [] \<and> \<not> is_array b \<and> length b < RECV_BUFFER_SIZE"

lemma fixed_reply_like [simp]: "reply_like PING_RESPONSE" "reply_like OK_RESPONSE"
  by (simp_all add: reply_like_def PING_RESPONSE_def OK_RESPONSE_def RECV_BUFFER_SIZE_def)

definition resync_line :: "ServerInfo \<Rightarrow> string" where
  "resync_line si = ''+FULLRESYNC '' @ master_replid si @ '' 0'' @ CRLF"

lemma resync_reply_like: "length (master_replid si) < 4000 \<Longrightarrow> reply_like (resync_line si)"
  by (simp add: reply_like_def resync_line_def RECV_BUFFER_SIZE_def)

lemma rdb_reply_like: "length (rdb_reply env) < RECV_BUFFER_SIZE \<Longrightarrow> reply_like (rdb_reply env)"
  by (simp add: reply_like_def rdb_reply_def Let_def)

lemma handshake_packets:
  assumes "int_ok own" and "b \<in> set (handshake own)"
  shows "packet b" and "is_array b"
proof -
  have "NUL \<notin> set (to_string own)"
    by (auto simp: to_string_def is_digit_def NUL_def dest: nat_digits_set)
  moreover have "list_all packet [handshake_ping, handshake_capa, handshake_psync]"
    by code_simp
  ultimately show "packet b"
    using assms(2) length_to_string [OF assms(1)]
    by (auto simp: handshake_def packet_def handshake_port_def RECV_BUFFER_SIZE_def CRLF_def NUL_def)
  show "is_array b"
    using assms(2)
    by (auto simp: handshake_def handshake_ping_def handshake_port_def handshake_capa_def
        handshake_psync_def)
qed

text \<open>What the master does with the handshake's messages: the fourth registers the connection.\<close>

definition handshake_replies :: "environment \<Rightarrow> nat \<Rightarrow> world \<Rightarrow> string list" where
  "handshake_replies env i w =
     (if i = 0 then [PING_RESPONSE] else if i < 3 then [OK_RESPONSE]
      else [resync_line (get_server_info w), rdb_reply env])"

definition after_handshake :: "environment \<Rightarrow> int \<Rightarrow> nat \<Rightarrow> world \<Rightarrow> world" where
  "after_handshake env link i w =
     (if i = 3 then set_server_info (register_slave link (get_server_info w)) w else w)
       \<lparr>replies := replies w @ handshake_replies env i w, is_communicating := False\<rparr>"

lemma serve_handshake:
  assumes "i < 4" and "int_ok own" and "role (get_server_info w) = ''master''"
    and "int_ok (connected_slaves (get_server_info w) + 1)"
  shows "serve_input (Suc d) env link (handshake own ! i) w = (Inr (), after_handshake env link i w)"
proof -
  from assms(1) consider "i = 0" | "i = 1" | "i = 2" | "i = 3" by linarith
  then show ?thesis
    using assms(2-4)
    by cases (simp_all add: serve_handshake_message handshake_def after_handshake_def
        handshake_replies_def after_psync_def resync_line_def numeral_2_eq_2 numeral_3_eq_3)
qed

lemma after_handshake_simps [simp]:
  "replies (after_handshake env link i w) = replies w @ handshake_replies env i w"
  "net (after_handshake env link i w) = net w"
  "database (db_handler (after_handshake env link i w)) = database (db_handler w)"
  "get_server_info (after_handshake env link i w) =
     (if i = 3 then register_slave link (get_server_info w) else get_server_info w)"
  "server_info (db_handler (after_handshake env link i w)) =
     (if i = 3 then register_slave link (get_server_info w) else get_server_info w)"
  by (simp_all add: after_handshake_def set_server_info_def get_server_info_def)

lemma register_slave_simps [simp]:
  "role (register_slave link si) = role si"
  "connected_slaves_fd (register_slave link si) = connected_slaves_fd si @ [link]"
  "si_inv (register_slave link si) = si_inv si"
  by (auto simp: register_slave_def add_connected_slave_def update_connected_slaves_def si_inv_def)

section \<open>The invariant\<close>

definition side_ok :: "string \<Rightarrow> world \<Rightarrow> bool" where
  "side_ok name w \<longleftrightarrow>
     db_inv (db_handler w) \<and> role (get_server_info w) = name \<and> plain_store (store_of (db_handler w))"

text \<open>What is under way to the master is the rest of the handshake and then acknowledgements.\<close>

definition master_channel :: "int \<Rightarrow> int \<Rightarrow> cluster \<Rightarrow> bool" where
  "master_channel own link s \<longleftrightarrow>
     (\<exists>i acks. i \<le> 4 \<and> to_master s = drop i (handshake own) @ acks \<and> list_all reply_like acks \<and>
       (if i < 4 then \<not> registered link (master_side s) \<and> propagated s = [] \<and>
          int_ok (connected_slaves (get_server_info (master_side s)) + 1) \<and>
          length (master_replid (get_server_info (master_side s))) < 4000
        else filter (\<lambda>f. f = link) (connected_slaves_fd (get_server_info (master_side s))) = [link]))"

text \<open>What is under way to the replica are replies and the stores it has not carried out yet, in order.\<close>

definition replica_channel :: "store \<Rightarrow> cluster \<Rightarrow> bool" where
  "replica_channel r0 s \<longleftrightarrow>
     (\<exists>applied pend. propagated s = applied @ pend \<and>
       list_all (\<lambda>kv. packet (set_bytes [kv])) pend \<and>
       list_all (\<lambda>b. is_array b \<or> reply_like b) (to_replica s) \<and>
       filter is_array (to_replica s) = map (\<lambda>kv. set_bytes [kv]) pend \<and>
       store_of (db_handler (replica_side s)) = r0 ++ map_of (rev (plain_values applied)))"

definition cluster_inv :: "int \<Rightarrow> int \<Rightarrow> store \<Rightarrow> cluster \<Rightarrow> bool" where
  "cluster_inv own link r0 s \<longleftrightarrow>
     \<not> failed s \<and> side_ok ''master'' (master_side s) \<and> side_ok ''slave'' (replica_side s) \<and>
     master_channel own link s \<and> replica_channel r0 s \<and>
     map_of (rev (plain_values (propagated s))) \<subseteq>\<^sub>m store_of (db_handler (master_side s))"

lemma channel_frames [simp]:
  "master_channel own link (s\<lparr>replica_side := w\<rparr>) = master_channel own link s"
  "master_channel own link (s\<lparr>to_replica := bs\<rparr>) = master_channel own link s"
  "replica_channel r0 (s\<lparr>master_side := w\<rparr>) = replica_channel r0 s"
  "replica_channel r0 (s\<lparr>to_master := bs\<rparr>) = replica_channel r0 s"
  "master_channel own link (s\<lparr>failed := b\<rparr>) = master_channel own link s"
  "replica_channel r0 (s\<lparr>failed := b\<rparr>) = replica_channel r0 s"
  by (simp_all add: master_channel_def replica_channel_def)

lemma plain_values_append [simp]: "plain_values (kvs @ kvs') = plain_values kvs @ plain_values kvs'"
  by (simp add: plain_values_def)

lemma plain_store_add: "plain_store m \<Longrightarrow> plain_store (m ++ map_of (rev (plain_values kvs)))"
  by (fastforce simp: plain_store_def plain_values_def ran_def map_add_Some_iff
      dest!: map_of_SomeD)

lemma map_le_add: "f \<subseteq>\<^sub>m g \<Longrightarrow> f ++ h \<subseteq>\<^sub>m g ++ h"
  by (auto simp: map_le_def map_add_def split: option.splits)

lemma store_after_request:
  "store_of (db_handler (after_request q reply w)) =
     store_of (db_handler w) ++ map_of (rev (plain_values (stores q)))"
  by (simp add: after_request_def store_of_store_pairs plain_values_def)

lemma get_server_info_request [simp]:
  "get_server_info (after_request q reply w) = get_server_info w"
  by (simp add: after_request_def get_server_info_def)

lemma side_ok_request: "side_ok name w \<Longrightarrow> side_ok name (after_request q reply w)"
proof -
  have "db_inv (db_handler (after_request q reply w))" if "db_inv (db_handler w)"
    using that by (cases q) (simp_all add: after_request_def)
  then show "side_ok name w \<Longrightarrow> ?thesis"
    by (simp add: side_ok_def store_after_request plain_store_add)
qed

lemma side_ok_pipeline: "side_ok name w \<Longrightarrow> side_ok name (after_pipeline input kvs w)"
proof -
  have "get_server_info (after_pipeline input kvs w) = get_server_info w"
    by (simp add: after_pipeline_def get_server_info_def)
  then show "side_ok name w \<Longrightarrow> ?thesis"
    by (simp add: side_ok_def store_after_pipeline plain_store_add db_inv_after_pipeline)
qed

lemma side_ok_handshake: "side_ok name w \<Longrightarrow> side_ok name (after_handshake env link i w)"
  by (auto simp: side_ok_def db_inv_def store_of_def get_server_info_def)

lemma side_ok_over [simp]: "side_ok name (w\<lparr>is_communicating := b\<rparr>) = side_ok name w"
  by (simp add: side_ok_def get_server_info_def)

lemma is_array_set_bytes [simp]: "is_array (set_bytes (kv # kvs))"
  by (cases kv) (simp add: set_bytes_def request_bytes_def command_bytes_def create_array_reponse_eq)

lemma registered_once:
  "filter (\<lambda>f. f = link) (connected_slaves_fd (get_server_info w)) = [link] \<Longrightarrow> registered link w"
  unfolding registered_def by (metis filter_is_subset list.set_intros(1) subsetD)

section \<open>Clients\<close>

lemma master_client_inv:
  assumes "cluster_inv own link r0 s" and "plain_request q" and "packet (request_bytes q)"
  shows "cluster_inv own link r0 (s\<lparr>master_side := after_request q reply (master_side s),
    to_replica := to_replica s @ sent_on link (master_side s) (after_request q reply (master_side s)),
    propagated := propagated s @ (if registered link (master_side s) then stores q else [])\<rparr>)"
proof -
  let ?m = "master_side s" and ?w = "after_request q reply (master_side s)"
  let ?new = "if registered link ?m then stores q else []"
  note inv = assms(1) [unfolded cluster_inv_def]
  have role: "role (get_server_info ?m) = ''master''"
    using inv by (simp add: side_ok_def)
  from inv obtain i acks where i: "i \<le> 4" "to_master s = drop i (handshake own) @ acks"
    "list_all reply_like acks"
    "if i < 4 then \<not> registered link ?m \<and> propagated s = [] \<and>
       int_ok (connected_slaves (get_server_info ?m) + 1) \<and> length (master_replid (get_server_info ?m)) < 4000
     else filter (\<lambda>f. f = link) (connected_slaves_fd (get_server_info ?m)) = [link]"
    by (auto simp: master_channel_def)
  have sent: "sent_on link ?m ?w = map (\<lambda>kv. set_bytes [kv]) ?new"
  proof (cases "i < 4")
    case True
    with i(4) have "filter (\<lambda>f. f = link) (connected_slaves_fd (get_server_info ?m)) = []"
      by (auto simp: registered_def filter_empty_conv)
    with True i(4) show ?thesis
      by (cases q) (auto simp: sent_on_request)
  next
    case False
    with i(4) have f: "filter (\<lambda>f. f = link) (connected_slaves_fd (get_server_info ?m)) = [link]"
      by simp
    then have "registered link ?m"
      by (rule registered_once)
    with f role show ?thesis
      by (cases q) (simp_all add: sent_on_request)
  qed
  have packets: "list_all (\<lambda>kv. packet (set_bytes [kv])) (stores q)"
    using assms(3) by (cases q) (simp_all add: set_bytes_def)
  have "replica_channel r0 (s\<lparr>master_side := ?w, to_replica := to_replica s @ sent_on link ?m ?w,
      propagated := propagated s @ ?new\<rparr>)"
  proof -
    from inv obtain applied pend where p: "propagated s = applied @ pend"
      "list_all (\<lambda>kv. packet (set_bytes [kv])) pend"
      "list_all (\<lambda>b. is_array b \<or> reply_like b) (to_replica s)"
      "filter is_array (to_replica s) = map (\<lambda>kv. set_bytes [kv]) pend"
      "store_of (db_handler (replica_side s)) = r0 ++ map_of (rev (plain_values applied))"
      by (auto simp: replica_channel_def)
    have "filter is_array (map (\<lambda>kv. set_bytes [kv]) kvs) = map (\<lambda>kv. set_bytes [kv]) kvs" for kvs
      by (induction kvs) simp_all
    with p packets sent show ?thesis
      unfolding replica_channel_def
      by (intro exI [of _ applied] exI [of _ "pend @ ?new"]) (auto simp: list_all_iff)
  qed
  moreover have "map_of (rev (plain_values (propagated s @ ?new))) \<subseteq>\<^sub>m store_of (db_handler ?w)"
  proof (cases "registered link ?m")
    case True
    with inv show ?thesis
      by (simp add: store_after_request map_le_add)
  next
    case False
    then have "i < 4"
      using i(4) registered_once by metis
    with False i(4) show ?thesis by (simp add: plain_values_def)
  qed
  moreover have "master_channel own link (s\<lparr>master_side := ?w,
      to_replica := to_replica s @ sent_on link ?m ?w, propagated := propagated s @ ?new\<rparr>)"
    unfolding master_channel_def using i
    by (intro exI [of _ i] exI [of _ acks], cases "i < 4") (simp_all add: registered_def)
  ultimately show ?thesis
    using inv side_ok_request by (simp add: cluster_inv_def)
qed

lemma replica_client_inv:
  assumes "cluster_inv own link r0 s" and "stores q = []"
  shows "cluster_inv own link r0 (s\<lparr>replica_side := after_request q reply (replica_side s)\<rparr>)"
proof -
  have "store_of (db_handler (after_request q reply (replica_side s))) = store_of (db_handler (replica_side s))"
    by (simp add: store_after_request assms(2) plain_values_def)
  with assms(1) show ?thesis
    using side_ok_request by (simp add: cluster_inv_def replica_channel_def)
qed

lemma cluster_client_outcome:
  assumes "cluster_client (Suc d) em er link s t" and "cluster_inv own link r0 s"
  shows "(\<exists>q reply. plain_request q \<and> packet (request_bytes q) \<and>
      t = s\<lparr>master_side := after_request q reply (master_side s),
        to_replica := to_replica s @ sent_on link (master_side s) (after_request q reply (master_side s)),
        propagated := propagated s @ (if registered link (master_side s) then stores q else [])\<rparr>) \<or>
    (\<exists>q reply. stores q = [] \<and> t = s\<lparr>replica_side := after_request q reply (replica_side s)\<rparr>)"
proof -
  note inv = assms(2) [unfolded cluster_inv_def side_ok_def]
  from assms(1) show ?thesis
  proof cases
    case (master_client q fd r w)
    with inv plain_request_outcome [of q "master_side s" d em fd] obtain reply where
      "r = Inr ()" "w = after_request q reply (master_side s)" by auto
    with master_client inv show ?thesis
      by (intro disjI1 exI [of _ q] exI [of _ reply]) simp
  next
    case (replica_client q fd r w)
    with inv plain_request_outcome [of q "replica_side s" d er fd] obtain reply where
      "r = Inr ()" "w = after_request q reply (replica_side s)" by auto
    with replica_client inv show ?thesis
      by (intro disjI2 exI [of _ q] exI [of _ reply]) simp
  qed
qed

lemma cluster_client_inv:
  "cluster_client (Suc d) em er link s t \<Longrightarrow> cluster_inv own link r0 s \<Longrightarrow> cluster_inv own link r0 t"
  using cluster_client_outcome [of d em er link s t own r0] master_client_inv [of own link r0 s]
    replica_client_inv [of own link r0 s] by blast

section \<open>Deliveries\<close>

text \<open>A store can be read back from its bytes.\<close>

lemma bulk_prefix_inj:
  assumes "create_string_reponse a @ x = create_string_reponse b @ y"
  shows "a = b \<and> x = y"
proof -
  have no_CR: "CHR 0x0D \<notin> set (to_string i)" for i
    by (rule to_string_no_CR)
  from assms have eq: "to_string (int (length a)) @ CRLF @ a @ CRLF @ x =
      to_string (int (length b)) @ CRLF @ b @ CRLF @ y"
    by (simp add: create_string_reponse_def)
  have cut: "takeWhile (\<lambda>c. c \<noteq> CHR 0x0D) (to_string i @ CRLF @ z) = to_string i" for i z
    using no_CR [of i] by (subst takeWhile_append2) (auto simp: CRLF_def)
  have "to_string (int (length a)) = to_string (int (length b))"
    using arg_cong [OF eq, of "takeWhile (\<lambda>c. c \<noteq> CHR 0x0D)"] by (simp only: cut)
  then have "length a = length b"
    by (auto simp: to_string_nonneg dest: nat_digits_inj)
  with eq show ?thesis by simp
qed

lemma set_bytes_inj: "inj (\<lambda>kv. set_bytes [kv])"
proof (rule injI)
  fix p q :: "string \<times> string"
  assume eq: "set_bytes [p] = set_bytes [q]"
  obtain k v k' v' where p: "p = (k, v)" "q = (k', v')" by fastforce
  from eq have "create_string_reponse k @ create_string_reponse v @ [] =
      create_string_reponse k' @ create_string_reponse v' @ []"
    by (simp add: p set_bytes_def request_bytes_def command_bytes_def create_array_reponse_eq)
  from bulk_prefix_inj [OF this] show "p = q"
    using bulk_prefix_inj [of v "[]" v' "[]"] by (simp add: p)
qed

lemma ignored_input:
  assumes "reply_like b" and "length (concat (b # bs)) < RECV_BUFFER_SIZE"
    and "received_string (concat (b # bs)) = Inr input"
  shows "serve_input (Suc d) env fd input w = (Inr (), w\<lparr>is_communicating := False\<rparr>)"
proof (rule non_array_input_is_ignored)
  from assms(1) obtain c cs where "b = c # cs" "c \<noteq> CHR ''*''"
    by (cases b) (auto simp: reply_like_def)
  then show "\<forall>cs. input \<noteq> CHR ''*'' # cs"
    using assms(2,3) received_string_eq [of "concat (b # bs)"] by (auto split: if_splits)
qed

lemma concat_set_bytes: "concat (map (\<lambda>kv. set_bytes [kv]) kvs) = set_bytes kvs"
  by (induction kvs) (auto simp: set_bytes_def)

lemma length_set_bytes: "length kvs \<le> length (set_bytes kvs)"
  by (induction kvs) (auto simp: set_bytes_def request_bytes_def command_bytes_def
      create_array_reponse_eq)

text \<open>Stores received together are carried out as a pipeline.\<close>

lemma receives_stores:
  assumes "kvs \<noteq> []" and "list_all (\<lambda>kv. packet (set_bytes [kv])) kvs"
    and "length (set_bytes kvs) < RECV_BUFFER_SIZE" and "RECV_BUFFER_SIZE \<le> depth" and "side_ok name w"
  shows "received_string (set_bytes kvs) = Inr (set_bytes kvs)"
    and "serve_input depth env fd (set_bytes kvs) w = (Inr (), after_pipeline (set_bytes kvs) kvs w)"
proof -
  have "NUL \<notin> set (set_bytes kvs)"
    using assms(2) by (auto simp: packet_def list_all_iff simp flip: concat_set_bytes [of kvs])
  then show "received_string (set_bytes kvs) = Inr (set_bytes kvs)"
    using assms(3) by (simp add: received_string_text)
  show "serve_input depth env fd (set_bytes kvs) w = (Inr (), after_pipeline (set_bytes kvs) kvs w)"
    using assms(1,3-5) length_set_bytes [of kvs]
    by (intro serve_pipeline) (auto simp: side_ok_def RECV_BUFFER_SIZE_def)
qed

text \<open>What the replica can receive: replies, which it ignores, or the next stores.\<close>

lemma replica_delivery:
  assumes "cluster_inv own link r0 s" and "to_replica s = bs @ rest" and "bs \<noteq> []" and "one_kind bs"
    and "length (concat bs) < RECV_BUFFER_SIZE" and "received_string (concat bs) = Inr input"
    and "RECV_BUFFER_SIZE \<le> depth"
  obtains (ignored) "list_all reply_like bs"
      "serve_input depth er up input (replica_side s) = (Inr (), (replica_side s)\<lparr>is_communicating := False\<rparr>)"
  | (carried_out) kvs where "kvs \<noteq> []" "bs = map (\<lambda>kv. set_bytes [kv]) kvs" "input = set_bytes kvs"
      "serve_input depth er up input (replica_side s) =
         (Inr (), after_pipeline (set_bytes kvs) kvs (replica_side s))"
proof -
  obtain d where d: "depth = Suc d"
    using assms(7) by (cases depth) (auto simp: RECV_BUFFER_SIZE_def)
  from assms(1) obtain applied pend where p:
    "list_all (\<lambda>kv. packet (set_bytes [kv])) pend"
    "list_all (\<lambda>b. is_array b \<or> reply_like b) (to_replica s)"
    "filter is_array (to_replica s) = map (\<lambda>kv. set_bytes [kv]) pend"
    by (auto simp: cluster_inv_def replica_channel_def)
  show thesis
  proof (cases "list_all is_array bs")
    case True
    then have "filter is_array bs = bs"
      by (simp add: list_all_iff)
    with p(3) assms(2) have "map (\<lambda>kv. set_bytes [kv]) pend = bs @ filter is_array rest"
      by simp
    then obtain kvs kvs' where kvs: "pend = kvs @ kvs'" "bs = map (\<lambda>kv. set_bytes [kv]) kvs"
      by (metis map_eq_append_conv)
    have "kvs \<noteq> []" "list_all (\<lambda>kv. packet (set_bytes [kv])) kvs" "length (set_bytes kvs) < RECV_BUFFER_SIZE"
      "side_ok ''slave'' (replica_side s)"
      using kvs assms(1,3,5) p(1) by (auto simp: concat_set_bytes cluster_inv_def)
    note r = receives_stores [OF this(1-3) assms(7) this(4)]
    have "input = set_bytes kvs"
      using assms(6) kvs(2) r(1) by (simp add: concat_set_bytes)
    with r(2) show thesis
      using carried_out [OF \<open>kvs \<noteq> []\<close> kvs(2)] by simp
  next
    case False
    then have bs: "list_all reply_like bs"
      using assms(2,4) p(2) by (auto simp: one_kind_def list_all_iff)
    obtain b bs' where "bs = b # bs'"
      using assms(3) by (cases bs) auto
    with ignored bs ignored_input [of b bs' input d er up "replica_side s"] assms(5,6) d show thesis
      by simp
  qed
qed

lemma replies_after_pipeline:
  "sent_back w (after_pipeline input kvs w) = replicate (length kvs) OK_RESPONSE"
  by (simp add: sent_back_def after_pipeline_def)

lemma sent_back_over [simp]: "sent_back w (w\<lparr>is_communicating := b\<rparr>) = []"
  by (simp add: sent_back_def)

lemma sent_on_over [simp]: "sent_on link w (w\<lparr>is_communicating := b\<rparr>) = []"
  by (simp add: sent_on_def)

lemma get_server_info_over [simp]: "get_server_info (w\<lparr>is_communicating := b\<rparr>) = get_server_info w"
  by (simp add: get_server_info_def)

lemma registered_over [simp]: "registered link (w\<lparr>is_communicating := b\<rparr>) = registered link w"
  by (simp add: registered_def)

text \<open>More acknowledgements do not matter to what is under way to the master.\<close>

lemma master_channel_acks:
  assumes "master_channel own link s" and "list_all reply_like acks2"
  shows "master_channel own link (s\<lparr>to_master := to_master s @ acks2\<rparr>)"
proof -
  from assms(1) obtain i acks where "i \<le> 4" "to_master s = drop i (handshake own) @ acks"
    "list_all reply_like acks"
    "if i < 4 then \<not> registered link (master_side s) \<and> propagated s = [] \<and>
       int_ok (connected_slaves (get_server_info (master_side s)) + 1) \<and>
       length (master_replid (get_server_info (master_side s))) < 4000
     else filter (\<lambda>f. f = link) (connected_slaves_fd (get_server_info (master_side s))) = [link]"
    by (auto simp: master_channel_def)
  with assms(2) show ?thesis
    unfolding master_channel_def by (intro exI [of _ i] exI [of _ "acks @ acks2"]) simp
qed

lemma replica_channel_replies:
  assumes "replica_channel r0 s" and "list_all reply_like bs"
  shows "replica_channel r0 (s\<lparr>to_replica := to_replica s @ bs\<rparr>)"
proof -
  have "filter is_array bs = []"
    using assms(2) by (auto simp: list_all_iff reply_like_def filter_empty_conv)
  moreover from assms(1) obtain applied pend where "propagated s = applied @ pend"
    "list_all (\<lambda>kv. packet (set_bytes [kv])) pend"
    "list_all (\<lambda>b. is_array b \<or> reply_like b) (to_replica s)"
    "filter is_array (to_replica s) = map (\<lambda>kv. set_bytes [kv]) pend"
    "store_of (db_handler (replica_side s)) = r0 ++ map_of (rev (plain_values applied))"
    by (auto simp: replica_channel_def)
  ultimately show ?thesis
    unfolding replica_channel_def using assms(2)
    by (intro exI [of _ applied] exI [of _ pend]) (auto simp: list_all_iff)
qed

lemma replica_receives_inv:
  assumes "cluster_inv own link r0 s" and "to_replica s = bs @ rest" and "bs \<noteq> []" and "one_kind bs"
    and "length (concat bs) < RECV_BUFFER_SIZE" and "received_string (concat bs) = Inr input"
    and "RECV_BUFFER_SIZE \<le> depth" and "serve_input depth er up input (replica_side s) = (r, w)"
  shows "r = Inr () \<and> cluster_inv own link r0 (s\<lparr>replica_side := w, to_replica := rest,
    to_master := to_master s @ sent_back (replica_side s) w\<rparr>)"
proof -
  note inv = assms(1) [unfolded cluster_inv_def]
  from inv obtain applied pend where p: "propagated s = applied @ pend"
    "list_all (\<lambda>kv. packet (set_bytes [kv])) pend"
    "list_all (\<lambda>b. is_array b \<or> reply_like b) (to_replica s)"
    "filter is_array (to_replica s) = map (\<lambda>kv. set_bytes [kv]) pend"
    "store_of (db_handler (replica_side s)) = r0 ++ map_of (rev (plain_values applied))"
    by (auto simp: replica_channel_def)
  from assms(1-7) show ?thesis
  proof (cases rule: replica_delivery [where er = er and up = up])
    case ignored
    with assms(8) have w: "r = Inr ()" "w = (replica_side s)\<lparr>is_communicating := False\<rparr>"
      by simp_all
    have "filter is_array bs = []"
      using ignored(1) by (auto simp: list_all_iff reply_like_def filter_empty_conv)
    with p assms(2) have "replica_channel r0 (s\<lparr>replica_side := w, to_replica := rest\<rparr>)"
      unfolding replica_channel_def
      by (intro exI [of _ applied] exI [of _ pend]) (simp add: w)
    with inv w show ?thesis
      by (simp add: cluster_inv_def)
  next
    case (carried_out kvs)
    with assms(8) have w: "r = Inr ()" "w = after_pipeline (set_bytes kvs) kvs (replica_side s)"
      by simp_all
    have "filter is_array bs = bs"
      unfolding carried_out(2) by (simp add: filter_id_conv)
    with p(4) assms(2) have split: "map (\<lambda>kv. set_bytes [kv]) pend = bs @ filter is_array rest"
      by simp
    have inj: "inj (\<lambda>kv. set_bytes [kv])"
      by (rule set_bytes_inj)
    obtain kvs' pend' where "pend = kvs' @ pend'" "map (\<lambda>kv. set_bytes [kv]) kvs' = bs"
      "map (\<lambda>kv. set_bytes [kv]) pend' = filter is_array rest"
      using split by (auto simp: map_eq_append_conv)
    then have pend: "pend = kvs @ pend'" "filter is_array rest = map (\<lambda>kv. set_bytes [kv]) pend'"
      using carried_out(2) inj by (simp_all add: inj_map_eq_map)
    have "replica_channel r0 (s\<lparr>replica_side := w, to_replica := rest\<rparr>)"
      unfolding replica_channel_def using p assms(2) pend
      by (intro exI [of _ "applied @ kvs"] exI [of _ pend'])
        (simp add: w store_after_pipeline map_add_assoc)
    moreover have "master_channel own link (s\<lparr>replica_side := w, to_replica := rest,
        to_master := to_master s @ sent_back (replica_side s) w\<rparr>)"
    proof -
      have "list_all reply_like (sent_back (replica_side s) w)"
        by (simp add: w replies_after_pipeline list_all_iff)
      with inv master_channel_acks [of own link "s\<lparr>replica_side := w, to_replica := rest\<rparr>"]
      show ?thesis by simp
    qed
    ultimately show ?thesis
      using inv w side_ok_pipeline by (simp add: cluster_inv_def)
  qed
qed

text \<open>What the master can receive: the next message of the handshake, or acknowledgements, which it
  ignores.\<close>

lemma master_delivery:
  assumes "cluster_inv own link r0 s" and "to_master s = bs @ rest" and "bs \<noteq> []"
    and "length bs = 1 \<or> list_all (\<lambda>b. \<not> is_array b) bs"
    and "length (concat bs) < RECV_BUFFER_SIZE" and "received_string (concat bs) = Inr input"
    and "int_ok own"
  obtains (greeting) i acks where "i < 4" "bs = [handshake own ! i]" "rest = drop (Suc i) (handshake own) @ acks"
      "list_all reply_like acks" "\<not> registered link (master_side s)" "propagated s = []"
      "int_ok (connected_slaves (get_server_info (master_side s)) + 1)"
      "length (master_replid (get_server_info (master_side s))) < 4000"
      "serve_input (Suc d) em link input (master_side s) = (Inr (), after_handshake em link i (master_side s))"
  | (acknowledged) "list_all reply_like bs" "list_all reply_like rest"
      "filter (\<lambda>f. f = link) (connected_slaves_fd (get_server_info (master_side s))) = [link]"
      "serve_input (Suc d) em link input (master_side s) =
         (Inr (), (master_side s)\<lparr>is_communicating := False\<rparr>)"
proof -
  from assms(1) obtain i acks where i: "i \<le> 4" "to_master s = drop i (handshake own) @ acks"
    "list_all reply_like acks"
    "if i < 4 then \<not> registered link (master_side s) \<and> propagated s = [] \<and>
       int_ok (connected_slaves (get_server_info (master_side s)) + 1) \<and>
       length (master_replid (get_server_info (master_side s))) < 4000
     else filter (\<lambda>f. f = link) (connected_slaves_fd (get_server_info (master_side s))) = [link]"
    by (auto simp: cluster_inv_def master_channel_def)
  have len: "length (handshake own) = 4"
    by (simp add: handshake_def)
  obtain b bs' where b: "bs = b # bs'"
    using assms(3) by (cases bs) auto
  show thesis
  proof (cases "i < 4")
    case True
    then have "drop i (handshake own) = handshake own ! i # drop (Suc i) (handshake own)"
      using len by (simp add: Cons_nth_drop_Suc)
    then have hd: "b = handshake own ! i" "bs' @ rest = drop (Suc i) (handshake own) @ acks"
      using assms(2) i(2) b by simp_all
    have member: "handshake own ! i \<in> set (handshake own)"
      using True len by simp
    note p = handshake_packets [OF assms(7) member]
    have "bs' = []"
      using assms(4) b hd(1) p(2) by auto
    then have "input = handshake own ! i"
      using assms(6) b hd(1) packet_received [OF p(1)] by simp
    moreover have "role (get_server_info (master_side s)) = ''master''"
      using assms(1) by (simp add: cluster_inv_def side_ok_def)
    ultimately show thesis
      using greeting [of i acks] True i(3,4) b hd \<open>bs' = []\<close>
        serve_handshake [OF True assms(7), of "master_side s" d em link] by simp
  next
    case False
    then have "bs @ rest = acks"
      using assms(2) i(1,2) len by simp
    then have "list_all reply_like bs" "list_all reply_like rest"
      using i(3) by auto
    then show thesis
      using acknowledged ignored_input [of b bs' input d em link "master_side s"] False i(4) assms(5,6) b
      by simp
  qed
qed

lemma handshake_replies_like:
  assumes "length (master_replid (get_server_info w)) < 4000"
    and "length (rdb_reply em) < RECV_BUFFER_SIZE"
  shows "list_all reply_like (handshake_replies em i w)"
  using assms resync_reply_like rdb_reply_like by (simp add: handshake_replies_def)

lemma master_receives_inv:
  assumes "cluster_inv own link r0 s" and "to_master s = bs @ rest" and "bs \<noteq> []"
    and "length bs = 1 \<or> list_all (\<lambda>b. \<not> is_array b) bs"
    and "length (concat bs) < RECV_BUFFER_SIZE" and "received_string (concat bs) = Inr input"
    and "int_ok own" and "length (rdb_reply em) < RECV_BUFFER_SIZE"
    and "serve_input (Suc d) em link input (master_side s) = (r, w)"
  shows "r = Inr () \<and> cluster_inv own link r0 (s\<lparr>master_side := w, to_master := rest,
    to_replica := to_replica s @ sent_back (master_side s) w @ sent_on link (master_side s) w\<rparr>)"
proof -
  note inv = assms(1) [unfolded cluster_inv_def]
  from assms(1-7) show ?thesis
  proof (cases rule: master_delivery [where em = em and d = d])
    case (greeting i acks)
    with assms(9) have w: "r = Inr ()" "w = after_handshake em link i (master_side s)"
      by simp_all
    have sent: "sent_back (master_side s) w = handshake_replies em i (master_side s)"
      "sent_on link (master_side s) w = []"
      by (simp_all add: w sent_back_def sent_on_def)
    have replies: "list_all reply_like (handshake_replies em i (master_side s))"
      by (rule handshake_replies_like) (rule greeting assms(8))+
    from replica_channel_replies [OF _ this, of r0 "s\<lparr>master_side := w, to_master := rest\<rparr>"]
    have "replica_channel r0 (s\<lparr>master_side := w, to_master := rest,
        to_replica := to_replica s @ handshake_replies em i (master_side s)\<rparr>)"
      using inv by simp
    moreover have "master_channel own link (s\<lparr>master_side := w, to_master := rest\<rparr>)"
    proof -
      have "registered link w = (i = 3)"
        using greeting(5) by (auto simp: registered_def w)
      moreover have "filter (\<lambda>f. f = link) (connected_slaves_fd (get_server_info w)) = [link]" if "i = 3"
        using greeting(5) that by (auto simp: registered_def w filter_empty_conv)
      ultimately show ?thesis
        unfolding master_channel_def using greeting
        by (intro exI [of _ "Suc i"] exI [of _ acks]) (auto simp: w)
    qed
    ultimately show ?thesis
      using inv w(1) side_ok_handshake [of "''master''" "master_side s" em link i] greeting(6)
      by (simp add: cluster_inv_def sent) (simp add: w(2) plain_values_def)
  next
    case acknowledged
    with assms(9) have w: "r = Inr ()" "w = (master_side s)\<lparr>is_communicating := False\<rparr>"
      by simp_all
    have "master_channel own link (s\<lparr>master_side := w, to_master := rest\<rparr>)"
      unfolding master_channel_def using acknowledged
      by (intro exI [of _ 4] exI [of _ rest]) (simp add: w handshake_def)
    with inv w show ?thesis
      by (simp add: cluster_inv_def)
  qed
qed

lemma cluster_deliver_inv:
  assumes "cluster_deliver True (Suc d) em er link up s t" and "cluster_inv own link r0 s"
    and "int_ok own" and "length (rdb_reply em) < RECV_BUFFER_SIZE" and "RECV_BUFFER_SIZE \<le> Suc d"
  shows "cluster_inv own link r0 t"
  using assms(1)
proof cases
  case (replica_receives bs rest input r w)
  then have "one_kind bs" by simp
  from replica_receives_inv [OF assms(2) replica_receives(2,3) this replica_receives(5,6) assms(5)
      replica_receives(7)] replica_receives(1)
  show ?thesis
    using assms(2) by (simp add: cluster_inv_def)
next
  case (master_receives bs rest input r w)
  then have "length bs = 1 \<or> list_all (\<lambda>b. \<not> is_array b) bs" by simp
  from master_receives_inv [OF assms(2) master_receives(2,3) this master_receives(5,6) assms(3,4)
      master_receives(7)] master_receives(1)
  show ?thesis
    using assms(2) by (simp add: cluster_inv_def)
qed

end
