(* ===== verification/Cluster_Runs.thy ===== *)
theory Cluster_Runs
  imports Cluster
begin

text \<open>
  Executions of the system of a master and a replica: what holds in every reachable state, that the
  exchange of messages comes to rest, a concrete run in which a replica joins and a client stores, and
  what a replica does not get. The invariants are those of \<open>Cluster\<close>.
\<close>

section \<open>Reachable states\<close>

text \<open>The bounds: the depth of the stack, the replica's port as an \<open>int\<close>, and an RDB file that fits one packet.\<close>

definition cluster_params :: "nat \<Rightarrow> environment \<Rightarrow> int \<Rightarrow> bool" where
  "cluster_params d em own \<longleftrightarrow>
     RECV_BUFFER_SIZE \<le> Suc d \<and> int_ok own \<and> length (rdb_reply em) < RECV_BUFFER_SIZE"

text \<open>A master and a replica that is about to join it, both without values that expire.\<close>

definition joining :: "int \<Rightarrow> world \<Rightarrow> world \<Rightarrow> bool" where
  "joining link m r \<longleftrightarrow>
     side_ok ''master'' m \<and> side_ok ''slave'' r \<and> \<not> registered link m \<and>
     int_ok (connected_slaves (get_server_info m) + 1) \<and>
     length (master_replid (get_server_info m)) < 4000"

definition cluster_reachable ::
  "nat \<Rightarrow> environment \<Rightarrow> environment \<Rightarrow> int \<Rightarrow> int \<Rightarrow> int \<Rightarrow> world \<Rightarrow> world \<Rightarrow> cluster \<Rightarrow> bool" where
  "cluster_reachable d em er link up own m r s \<longleftrightarrow>
     reachable (\<lambda>s. cluster_params d em own \<and> joining link m r \<and> s = cluster_start own m r)
       (cluster_step True (Suc d) em er link up) s"

lemma cluster_inv_start: "joining link m r \<Longrightarrow>
  cluster_inv own link (store_of (db_handler r)) (cluster_start own m r)"
  unfolding cluster_inv_def joining_def master_channel_def replica_channel_def
  by (auto simp: cluster_start_def plain_values_def intro!: exI [of _ "0 :: nat"])

interpretation cluster: invariant_system
  "\<lambda>s. cluster_params d em own \<and> joining link m r \<and> s = cluster_start own m r"
  "cluster_step True (Suc d) em er link up"
  "\<lambda>s. cluster_params d em own \<and> cluster_inv own link (store_of (db_handler r)) s"
proof
  show "cluster_params d em own \<and> cluster_inv own link (store_of (db_handler r)) s"
    if "cluster_params d em own \<and> joining link m r \<and> s = cluster_start own m r" for s
    using that cluster_inv_start by blast
  show "cluster_params d em own \<and> cluster_inv own link (store_of (db_handler r)) t"
    if "cluster_step True (Suc d) em er link up s t"
      "cluster_params d em own \<and> cluster_inv own link (store_of (db_handler r)) s" for s t
    using that cluster_client_inv cluster_deliver_inv
    unfolding cluster_step_def cluster_params_def by blast
qed

lemmas cluster_invariant = cluster.reachable_inv [folded cluster_reachable_def]

section \<open>Coming to rest\<close>

text \<open>A message of the handshake is answered with at most two, a store with one acknowledgement.\<close>

definition cluster_load :: "cluster \<Rightarrow> nat" where
  "cluster_load s =
     (\<Sum>b \<leftarrow> to_master s. if is_array b then 4 else 1) + (\<Sum>b \<leftarrow> to_replica s. if is_array b then 2 else 1)"

lemma load_of_replies:
  "list_all reply_like bs \<Longrightarrow> (\<Sum>b \<leftarrow> bs. if is_array b then n else 1 :: nat) = length bs"
  by (induction bs) (auto simp: reply_like_def)

lemma cluster_deliver_smaller:
  assumes "cluster_deliver True (Suc d) em er link up s t"
    and "cluster_params d em own" and "cluster_inv own link r0 s"
  shows "cluster_load t < cluster_load s"
  using assms(1)
proof cases
  case (replica_receives bs rest input r w)
  have "one_kind bs" "RECV_BUFFER_SIZE \<le> Suc d"
    using replica_receives(4) assms(2) by (simp_all add: cluster_params_def)
  from assms(3) replica_receives(2,3) this(1) replica_receives(5,6) this(2) show ?thesis
  proof (cases rule: replica_delivery [where er = er and up = up])
    case ignored
    with replica_receives have "w = (replica_side s)\<lparr>is_communicating := False\<rparr>" by simp
    with replica_receives(1-3) ignored(1) show ?thesis
      by (simp add: cluster_load_def load_of_replies)
  next
    case (carried_out kvs)
    with replica_receives have "w = after_pipeline (set_bytes kvs) kvs (replica_side s)" by simp
    moreover have "\<not> is_array OK_RESPONSE"
      using fixed_reply_like(2) by (simp add: reply_like_def)
    ultimately show ?thesis
      using replica_receives(1,2) carried_out(1,2)
      by (simp add: cluster_load_def comp_def replies_after_pipeline sum_list_replicate sum_list_triv)
  qed
next
  case (master_receives bs rest input r w)
  have "length bs = 1 \<or> list_all (\<lambda>b. \<not> is_array b) bs" and "int_ok own"
    using master_receives(4) assms(2) by (simp_all add: cluster_params_def)
  from assms(3) master_receives(2,3) this(1) master_receives(5,6) this(2) show ?thesis
  proof (cases rule: master_delivery [where em = em and d = d])
    case (greeting i acks)
    with master_receives have w: "w = after_handshake em link i (master_side s)" by simp
    have "i < length (handshake own)"
      using greeting(1) by (simp add: handshake_def)
    then have "is_array (handshake own ! i)"
      using handshake_packets(2) [OF \<open>int_ok own\<close>] by simp
    moreover have "list_all reply_like (handshake_replies em i (master_side s))"
      using handshake_replies_like greeting(8) assms(2) by (simp add: cluster_params_def)
    ultimately show ?thesis
      using master_receives(1,2) greeting(2)
      by (simp add: cluster_load_def w sent_back_def sent_on_def load_of_replies)
        (simp add: handshake_replies_def)
  next
    case acknowledged
    with master_receives have "w = (master_side s)\<lparr>is_communicating := False\<rparr>" by simp
    with master_receives(1-3) acknowledged(1,2) show ?thesis
      by (simp add: cluster_load_def load_of_replies)
  qed
qed

interpretation deliveries: settling_system "cluster_deliver True (Suc d) em er link up"
  "\<lambda>s. cluster_params d em own \<and> cluster_inv own link r0 s" cluster_load
proof
  show "cluster_params d em own \<and> cluster_inv own link r0 t"
    if "cluster_deliver True (Suc d) em er link up s t" "cluster_params d em own \<and> cluster_inv own link r0 s" for s t
    using that cluster_deliver_inv unfolding cluster_params_def by blast
  show "cluster_load t < cluster_load s"
    if "cluster_deliver True (Suc d) em er link up s t" "cluster_params d em own \<and> cluster_inv own link r0 s" for s t
    using that cluster_deliver_smaller by blast
qed

text \<open>A message that is alone in its packet can always be received.\<close>

lemma single_message:
  "length b < RECV_BUFFER_SIZE \<Longrightarrow> \<exists>input. received_string (concat [b]) = Inr input"
  by (simp add: received_string_eq)

lemma at_rest_delivered:
  assumes "cluster_params d em own" and "cluster_inv own link r0 s"
    and "at_rest (cluster_deliver True (Suc d) em er link up) s"
  shows "to_replica s = []" and "to_master s = []"
proof -
  show "to_replica s = []"
  proof (rule ccontr)
    assume "to_replica s \<noteq> []"
    then obtain b rest where b: "to_replica s = b # rest"
      by (cases "to_replica s") auto
    from assms(2) obtain pend where
      "list_all (\<lambda>kv. packet (set_bytes [kv])) pend" "list_all (\<lambda>b. is_array b \<or> reply_like b) (to_replica s)"
      "filter is_array (to_replica s) = map (\<lambda>kv. set_bytes [kv]) pend"
      by (auto simp: cluster_inv_def replica_channel_def)
    then have len: "length b < RECV_BUFFER_SIZE"
      using b by (cases pend) (auto simp: reply_like_def packet_def split: if_splits)
    then obtain input where input: "received_string (concat [b]) = Inr input"
      using single_message by blast
    obtain r w where w: "serve_input (Suc d) er up input (replica_side s) = (r, w)"
      by fastforce
    have "to_replica s = [b] @ rest" "[b] \<noteq> []" "True \<longrightarrow> one_kind [b]" "length (concat [b]) < RECV_BUFFER_SIZE"
      using b len by (simp_all add: one_kind_def)
    from cluster_deliver.replica_receives [OF this input w] assms(3) show False
      unfolding at_rest_def by blast
  qed
  show "to_master s = []"
  proof (rule ccontr)
    assume "to_master s \<noteq> []"
    then obtain b rest where b: "to_master s = b # rest"
      by (cases "to_master s") auto
    from assms(2) obtain i acks where "to_master s = drop i (handshake own) @ acks" "list_all reply_like acks"
      by (auto simp: cluster_inv_def master_channel_def)
    then have "b \<in> set (handshake own) \<or> reply_like b"
      using b by (metis append_eq_Cons_conv in_set_dropD list.pred_inject(2) list.set_intros(1))
    then have len: "length b < RECV_BUFFER_SIZE"
      using handshake_packets(1) assms(1) by (auto simp: reply_like_def packet_def cluster_params_def)
    then obtain input where input: "received_string (concat [b]) = Inr input"
      using single_message by blast
    obtain r w where w: "serve_input (Suc d) em link input (master_side s) = (r, w)"
      by fastforce
    have "to_master s = [b] @ rest" "[b] \<noteq> []"
      "True \<longrightarrow> length [b] = 1 \<or> list_all (\<lambda>b. \<not> is_array b) [b]"
      "length (concat [b]) < RECV_BUFFER_SIZE"
      using b len by simp_all
    from cluster_deliver.master_receives [OF this input w] assms(3) show False
      unfolding at_rest_def by blast
  qed
qed

section \<open>Agreement\<close>

lemma not_stored: "k \<notin> fst ` set kvs \<Longrightarrow> map_of (rev (plain_values kvs)) k = None"
  by (force simp: map_of_eq_None_iff plain_values_def)

lemma stored_somewhere: "k \<in> fst ` set kvs \<Longrightarrow> \<exists>v. map_of (rev (plain_values kvs)) k = Some v"
  using map_of_eq_None_iff [of "rev (plain_values kvs)" k] by (force simp: plain_values_def)

lemma replica_knows:
  assumes "cluster_inv own link r0 s" and "k \<notin> fst ` set (propagated s)"
  shows "store_of (db_handler (replica_side s)) k = r0 k"
proof -
  from assms(1) obtain applied pend where "propagated s = applied @ pend"
    "store_of (db_handler (replica_side s)) = r0 ++ map_of (rev (plain_values applied))"
    by (auto simp: cluster_inv_def replica_channel_def)
  moreover have "k \<notin> fst ` set applied"
    using assms(2) calculation(1) by auto
  ultimately show ?thesis
    using not_stored [of k applied] by (simp add: map_add_def)
qed

lemma replica_agrees:
  assumes "cluster_inv own link r0 s" and "list_all (\<lambda>b. \<not> is_array b) (to_replica s)"
    and "k \<in> fst ` set (propagated s)"
  shows "store_of (db_handler (replica_side s)) k = store_of (db_handler (master_side s)) k"
proof -
  from assms(1) obtain applied pend where p: "propagated s = applied @ pend"
    "filter is_array (to_replica s) = map (\<lambda>kv. set_bytes [kv]) pend"
    "store_of (db_handler (replica_side s)) = r0 ++ map_of (rev (plain_values applied))"
    "map_of (rev (plain_values (propagated s))) \<subseteq>\<^sub>m store_of (db_handler (master_side s))"
    by (auto simp: cluster_inv_def replica_channel_def)
  have "filter is_array (to_replica s) = []"
    using assms(2) by (auto simp: list_all_iff filter_empty_conv)
  with p have "applied = propagated s" by simp
  moreover obtain v where "map_of (rev (plain_values (propagated s))) k = Some v"
    using stored_somewhere [OF assms(3)] by blast
  ultimately show ?thesis
    using p(3,4) by (auto simp: map_le_def map_add_def dom_def split: option.splits)
qed

section \<open>A replica joins and a client stores\<close>

lemma greeting_delivered:
  assumes "i < 4" and "to_master s = handshake own ! i # rest" and "int_ok own"
    and "role (get_server_info (master_side s)) = ''master''"
    and "int_ok (connected_slaves (get_server_info (master_side s)) + 1)" and "\<not> failed s"
  shows "cluster_deliver careful (Suc d) em er link up s
    (s\<lparr>master_side := after_handshake em link i (master_side s), to_master := rest,
       to_replica := to_replica s @ handshake_replies em i (master_side s)\<rparr>)"
proof -
  let ?b = "handshake own ! i"
  have "i < length (handshake own)"
    using assms(1) by (simp add: handshake_def)
  then have p: "packet ?b"
    using handshake_packets(1) [OF assms(3)] by simp
  have pre: "to_master s = [?b] @ rest" "[?b] \<noteq> []"
    "careful \<longrightarrow> length [?b] = 1 \<or> list_all (\<lambda>b. \<not> is_array b) [?b]"
    "length (concat [?b]) < RECV_BUFFER_SIZE" "received_string (concat [?b]) = Inr ?b"
    using assms(2) p packet_received by (simp_all add: packet_def)
  from master_receives [where careful = careful and er = er and up = up, OF pre
      serve_handshake [OF assms(1,3-5), where d = d and env = em and link = link]] assms(6)
  show ?thesis
    by (cases s) (simp add: sent_back_def sent_on_def)
qed

definition joined :: "environment \<Rightarrow> int \<Rightarrow> world \<Rightarrow> world" where
  "joined em link m =
     after_handshake em link 3 (after_handshake em link 2 (after_handshake em link 1 (after_handshake em link 0 m)))"

lemma handshake_delivered:
  assumes "cluster_params d em own" and "joining link m r"
  shows "(cluster_deliver careful (Suc d) em er link up)\<^sup>*\<^sup>* (cluster_start own m r)
    ((cluster_start own m r)\<lparr>master_side := joined em link m, to_master := [],
      to_replica := [PING_RESPONSE, OK_RESPONSE, OK_RESPONSE, resync_line (get_server_info m), rdb_reply em]\<rparr>)"
proof -
  let ?D = "cluster_deliver careful (Suc d) em er link up" and ?s = "cluster_start own m r"
  let ?m1 = "after_handshake em link 0 m"
  let ?m2 = "after_handshake em link 1 ?m1"
  let ?m3 = "after_handshake em link 2 ?m2"
  let ?r = "[PING_RESPONSE, OK_RESPONSE, OK_RESPONSE]"
  note ok = assms [unfolded cluster_params_def joining_def side_ok_def]
  have 1: "?D ?s (?s\<lparr>master_side := ?m1, to_master := drop 1 (handshake own), to_replica := take 1 ?r\<rparr>)"
    using greeting_delivered [of 0 ?s own "drop 1 (handshake own)" careful d em er link up] ok
    by (simp add: cluster_start_def handshake_def handshake_replies_def)
  let ?s1 = "?s\<lparr>master_side := ?m1, to_master := drop 1 (handshake own), to_replica := take 1 ?r\<rparr>"
  have 2: "?D ?s1 (?s\<lparr>master_side := ?m2, to_master := drop 2 (handshake own), to_replica := take 2 ?r\<rparr>)"
    using greeting_delivered [of 1 ?s1 own "drop 2 (handshake own)" careful d em er link up] ok
    by (simp add: cluster_start_def handshake_def handshake_replies_def)
  let ?s2 = "?s\<lparr>master_side := ?m2, to_master := drop 2 (handshake own), to_replica := take 2 ?r\<rparr>"
  have 3: "?D ?s2 (?s\<lparr>master_side := ?m3, to_master := drop 3 (handshake own), to_replica := ?r\<rparr>)"
    using greeting_delivered [of 2 ?s2 own "drop 3 (handshake own)" careful d em er link up] ok
    by (simp add: cluster_start_def handshake_def handshake_replies_def)
  let ?s3 = "?s\<lparr>master_side := ?m3, to_master := drop 3 (handshake own), to_replica := ?r\<rparr>"
  have 4: "?D ?s3 (?s\<lparr>master_side := joined em link m, to_master := [],
      to_replica := ?r @ [resync_line (get_server_info m), rdb_reply em]\<rparr>)"
    using greeting_delivered [of 3 ?s3 own "[]" careful d em er link up] ok
    by (simp add: cluster_start_def handshake_def handshake_replies_def joined_def)
  from 1 2 3 4 show ?thesis
    by (auto intro: converse_rtranclp_into_rtranclp)
qed

lemma joined_simps [simp]:
  "get_server_info (joined em link m) = register_slave link (get_server_info m)"
  "database (db_handler (joined em link m)) = database (db_handler m)"
  by (simp_all add: joined_def)

text \<open>The first store of a client behind the handshake.\<close>

definition first_store :: "environment \<Rightarrow> int \<Rightarrow> int \<Rightarrow> world \<Rightarrow> world \<Rightarrow> string \<Rightarrow> string \<Rightarrow> string \<Rightarrow> cluster" where
  "first_store em link own m r k v reply =
     (cluster_start own m r)\<lparr>master_side := after_request (Set k v) reply (joined em link m),
       to_master := [],
       to_replica := [PING_RESPONSE, OK_RESPONSE, OK_RESPONSE, resync_line (get_server_info m),
         rdb_reply em, request_bytes (Set k v)],
       propagated := [(k, v)]\<rparr>"

lemma side_ok_joined: "side_ok name m \<Longrightarrow> side_ok name (joined em link m)"
  by (simp add: joined_def side_ok_handshake)

lemma first_store_run:
  assumes "cluster_params d em own" and "joining link m r" and "packet (request_bytes (Set k v))"
  shows "\<exists>reply. (cluster_step careful (Suc d) em er link up)\<^sup>*\<^sup>* (cluster_start own m r)
    (first_store em link own m r k v reply)"
proof -
  let ?s = "(cluster_start own m r)\<lparr>master_side := joined em link m, to_master := [],
    to_replica := [PING_RESPONSE, OK_RESPONSE, OK_RESPONSE, resync_line (get_server_info m), rdb_reply em]\<rparr>"
  have run: "(cluster_step careful (Suc d) em er link up)\<^sup>*\<^sup>* (cluster_start own m r) ?s"
    using handshake_delivered [OF assms(1,2), of careful er up]
    by (rule_tac mono_rtranclp [rule_format, of "cluster_deliver careful (Suc d) em er link up"])
      (auto simp: cluster_step_def)
  have side: "side_ok ''master'' (joined em link m)"
    using assms(2) side_ok_joined by (simp add: joining_def)
  then obtain reply where reply: "serve_input (Suc d) em 0 (request_bytes (Set k v)) (joined em link m) =
      (Inr (), after_request (Set k v) reply (joined em link m))"
    using plain_request_outcome [of "Set k v" "joined em link m" d em 0] assms(3)
    by (auto simp: side_ok_def)
  have "filter (\<lambda>f. f = link) (connected_slaves_fd (get_server_info m)) = []"
    using assms(2) by (auto simp: joining_def registered_def filter_empty_conv)
  then have sent: "sent_on link (joined em link m) (after_request (Set k v) reply (joined em link m)) =
      [request_bytes (Set k v)]"
    using side by (simp add: sent_on_request side_ok_def set_bytes_def)
  have "registered link (joined em link m)"
    by (simp add: registered_def)
  with master_client [of "Set k v" "Suc d" em 0 ?s "Inr ()" _ er link] reply sent assms(3) have
    "cluster_client (Suc d) em er link ?s (first_store em link own m r k v reply)"
    by (simp add: first_store_def cluster_start_def)
  then have "cluster_step careful (Suc d) em er link up ?s (first_store em link own m r k v reply)"
    by (simp add: cluster_step_def)
  with run show ?thesis
    by (intro exI [of _ reply]) (rule rtranclp.rtrancl_into_rtrancl)
qed

lemma first_store_reachable:
  assumes "cluster_params d em own" and "joining link m r" and "packet (request_bytes (Set k v))"
  shows "\<exists>reply. cluster_reachable d em er link up own m r (first_store em link own m r k v reply)"
proof -
  from first_store_run [OF assms, of True er up] obtain reply where
    "(cluster_step True (Suc d) em er link up)\<^sup>*\<^sup>* (cluster_start own m r)
       (first_store em link own m r k v reply)" by blast
  moreover have "cluster_reachable d em er link up own m r (cluster_start own m r)"
    unfolding cluster_reachable_def using assms(1,2) by (blast intro: reach_start)
  ultimately show ?thesis
    unfolding cluster_reachable_def by (blast intro: reachable_run)
qed

text \<open>Deliveries do not store anything new at the master's clients' request.\<close>

lemma deliveries_propagated:
  "(cluster_deliver careful depth em er link up)\<^sup>*\<^sup>* s t \<Longrightarrow> propagated t = propagated s"
  by (induction rule: rtranclp_induct) (auto elim: cluster_deliverE)

lemma deliveries_reachable:
  assumes "(cluster_deliver True (Suc d) em er link up)\<^sup>*\<^sup>* s t"
    and "cluster_reachable d em er link up own m r s"
  shows "cluster_reachable d em er link up own m r t"
proof -
  have "(cluster_step True (Suc d) em er link up)\<^sup>*\<^sup>* s t"
    by (rule mono_rtranclp [rule_format, OF _ assms(1)]) (simp add: cluster_step_def)
  then show ?thesis
    using assms(2) unfolding cluster_reachable_def by (rule_tac reachable_run)
qed

lemma cluster_load_bound: "cluster_load s \<le> 4 * length (to_master s) + 2 * length (to_replica s)"
proof -
  have "(\<Sum>b \<leftarrow> bs. if is_array b then 4 else 1 :: nat) \<le> 4 * length bs"
    "(\<Sum>b \<leftarrow> bs. if is_array b then 2 else 1 :: nat) \<le> 2 * length bs" for bs
    by (induction bs) auto
  then show ?thesis
    by (simp add: cluster_load_def add_mono)
qed

text \<open>A master and a replica without data.\<close>

definition slave_world :: world where
  "slave_world = set_server_info (update_role ''slave'' plain_server_info) empty_world"

lemma empty_rdb_reply: "rdb_reply plain_env = ''$0'' @ CRLF"
  by code_simp

lemma empty_cluster:
  "cluster_params 4095 plain_env 6380" "joining 7 empty_world slave_world"
  by (simp_all add: cluster_params_def joining_def side_ok_def slave_world_def empty_rdb_reply
      RECV_BUFFER_SIZE_def int_ok_def registered_def set_server_info_def plain_store_def ran_def
      db_inv_def si_inv_def)
    (auto simp: empty_world_def store_of_def empty_db_def new_DatabaseHandler_def get_server_info_def
      update_role_def plain_server_info_def)

section \<open>Properties\<close>

text \<open>A replica follows its master in every interleaving of the careful deliveries: from the handshake on
  neither process ends, the replica's store changes only by what the master carried out since the replica is registered, and whenever no store is under way the
  two agree on every key stored since then. What the master held before never reaches the replica.\<close>

lemma replica_follows_master:
  assumes "cluster_reachable d em er link up own m r s"
  shows "\<not> failed s \<and>
    (\<forall>k. k \<notin> fst ` set (propagated s) \<longrightarrow>
       store_of (db_handler (replica_side s)) k = store_of (db_handler r) k) \<and>
    (list_all (\<lambda>b. \<not> is_array b) (to_replica s) \<longrightarrow>
       (\<forall>k \<in> fst ` set (propagated s).
          store_of (db_handler (replica_side s)) k = store_of (db_handler (master_side s)) k))"
proof -
  have inv: "cluster_inv own link (store_of (db_handler r)) s"
    using cluster_invariant [OF assms] by simp
  then have "\<not> failed s"
    by (simp add: cluster_inv_def)
  then show ?thesis
    using replica_knows [OF inv] replica_agrees [OF inv] by blast
qed

text \<open>Replication comes to rest: left without client requests, the two servers exchange at most four
  messages for each one under way to the master and two for each one under way to the replica, so
  that no acknowledgement is answered for ever, and where nothing is left to deliver the replica is
  registered and agrees with the master on every key stored since.\<close>

lemma replication_comes_to_rest:
  assumes "cluster_reachable d em er link up own m r s"
  defines "deliver \<equiv> cluster_deliver True (Suc d) em er link up"
  shows "(\<forall>n t. (deliver ^^ n) s t \<longrightarrow> n \<le> 4 * length (to_master s) + 2 * length (to_replica s)) \<and>
    (\<exists>t. deliver\<^sup>*\<^sup>* s t \<and> at_rest deliver t) \<and>
    (\<forall>t. deliver\<^sup>*\<^sup>* s t \<longrightarrow> at_rest deliver t \<longrightarrow>
       to_master t = [] \<and> to_replica t = [] \<and> registered link (master_side t) \<and>
       propagated t = propagated s \<and>
       (\<forall>k \<in> fst ` set (propagated s).
          store_of (db_handler (replica_side t)) k = store_of (db_handler (master_side t)) k))"
proof (intro conjI allI impI)
  note inv = cluster_invariant [OF assms(1)]
  show "n \<le> 4 * length (to_master s) + 2 * length (to_replica s)" if "(deliver ^^ n) s t" for n t
    using deliveries.run_bounded [OF that [unfolded deliver_def] inv] cluster_load_bound [of s] by simp
  show "\<exists>t. deliver\<^sup>*\<^sup>* s t \<and> at_rest deliver t"
    unfolding deliver_def by (rule deliveries.comes_to_rest [OF inv])
  fix t
  assume run: "deliver\<^sup>*\<^sup>* s t" "at_rest deliver t"
  note reach = deliveries_reachable [OF run(1) [unfolded deliver_def] assms(1)]
  from cluster_invariant [OF reach] have p: "cluster_params d em own"
    and c: "cluster_inv own link (store_of (db_handler r)) t" by simp_all
  note empty = at_rest_delivered [OF p c run(2) [unfolded deliver_def]]
  then show "to_replica t = []" "to_master t = []" by simp_all
  show same: "propagated t = propagated s"
    using deliveries_propagated run(1) by (simp add: deliver_def)
  from c empty(2) show "registered link (master_side t)"
    using registered_once [of link "master_side t"]
    by (auto simp: cluster_inv_def master_channel_def handshake_def split: if_splits)
  show "\<forall>k \<in> fst ` set (propagated s).
      store_of (db_handler (replica_side t)) k = store_of (db_handler (master_side t)) k"
    using replica_agrees [OF c] empty(1) same by simp
qed

text \<open>C17: A store that shares a packet with a reply of the handshake is lost for ever: there is an execution in
  which the replica is registered, a client's store is acknowledged and propagated, everything sent has
  been received, and the replica still holds what it held at the start.\<close>

theorem store_behind_reply_is_lost:
  assumes "cluster_params d em own" and "joining link m r" and "packet (request_bytes (Set k v))"
    and "17 + length (resync_line (get_server_info m)) + length (rdb_reply em) +
      length (request_bytes (Set k v)) < RECV_BUFFER_SIZE"
  shows "\<exists>s. (cluster_step False (Suc d) em er link up)\<^sup>*\<^sup>* (cluster_start own m r) s \<and>
    to_master s = [] \<and> to_replica s = [] \<and> registered link (master_side s) \<and> \<not> failed s \<and>
    propagated s = [(k, v)] \<and>
    store_of (db_handler (master_side s)) k = Some \<lparr>db_value = v, expiry_time = 0\<rparr> \<and>
    store_of (db_handler (replica_side s)) = store_of (db_handler r)"
proof -
  from first_store_run [OF assms(1-3), of False er up] obtain reply where
    run: "(cluster_step False (Suc d) em er link up)\<^sup>*\<^sup>* (cluster_start own m r)
      (first_store em link own m r k v reply)" by blast
  let ?s = "first_store em link own m r k v reply"
  let ?bs = "[OK_RESPONSE, OK_RESPONSE, resync_line (get_server_info m), rdb_reply em, request_bytes (Set k v)]"
  let ?t = "?s\<lparr>replica_side := r\<lparr>is_communicating := False\<rparr>, to_replica := []\<rparr>"
  have len: "length (concat (PING_RESPONSE # ?bs)) < RECV_BUFFER_SIZE"
    using assms(4) by (simp add: PING_RESPONSE_def OK_RESPONSE_def)
  then obtain input where input: "received_string (concat (PING_RESPONSE # ?bs)) = Inr input"
    using received_string_eq by fastforce
  have side: "replica_side ?s = r" "to_replica ?s = (PING_RESPONSE # ?bs) @ []" "to_master ?s = []"
    "\<not> failed ?s"
    by (simp_all add: first_store_def cluster_start_def)
  have "serve_input (Suc d) er up input (replica_side ?s) = (Inr (), r\<lparr>is_communicating := False\<rparr>)"
    using ignored_input [OF fixed_reply_like(1) len input] side(1) by simp
  from cluster_deliver.replica_receives [where careful = False, OF side(2) _ _ len input this]
  have "cluster_deliver False (Suc d) em er link up ?s ?t"
    using side by (simp add: first_store_def cluster_start_def)
  then have "cluster_step False (Suc d) em er link up ?s ?t"
    by (simp add: cluster_step_def)
  with run have "(cluster_step False (Suc d) em er link up)\<^sup>*\<^sup>* (cluster_start own m r) ?t"
    by (rule rtranclp.rtrancl_into_rtrancl)
  moreover have "registered link (master_side ?t)"
    by (simp add: first_store_def registered_def)
  moreover have "store_of (db_handler (master_side ?t)) k = Some \<lparr>db_value = v, expiry_time = 0\<rparr>"
    by (simp add: first_store_def store_after_request plain_values_def)
  ultimately show ?thesis
    using side by (intro exI [of _ ?t]) (simp add: first_store_def)
qed

theorem store_behind_reply_is_lost_witness:
  "\<exists>s. (cluster_step False 4096 plain_env plain_env 7 3)\<^sup>*\<^sup>* (cluster_start 6380 empty_world slave_world) s \<and>
     to_replica s = [] \<and> propagated s = [(''k'', ''v'')] \<and>
     store_of (db_handler (replica_side s)) = store_of (db_handler slave_world)"
proof -
  have "packet (request_bytes (Set ''k'' ''v''))" "length (rdb_reply plain_env) = 4"
    "length (request_bytes (Set ''k'' ''v'')) = 27" "length (resync_line plain_server_info) = 56"
    by (code_simp, simp add: empty_rdb_reply, rule short_requests, simp add: resync_line_def plain_server_info_def)
  with store_behind_reply_is_lost [OF empty_cluster, of "''k''" "''v''" plain_env 3] show ?thesis
    by (auto simp: RECV_BUFFER_SIZE_def)
qed

section \<open>From the start of both servers\<close>

text \<open>A host without files on which a server can be started.\<close>

definition bare_host :: "host \<Rightarrow> bool" where
  "bare_host h \<longleftrightarrow> (\<forall>i. draws h i < length CHARACTERS) \<and> can_listen h \<and> (\<forall>f. files h f = None)"

lemma started_pair:
  assumes "holds_dump h dir name version metas entries crc"
    and "list_all (\<lambda>(k, v). expiry_time v = 0) entries"
    and "bare_host h'" and "0 < p" and "p < 10 ^ 5" and "int_ok own"
  shows "\<exists>m r. server_main h [''server'', ''--dir'', dir, ''--dbfilename'', name] = Inr (Some m) \<and>
    server_main h' [''server'', ''--port'', to_string own,
      ''--replicaof'', ''localhost '' @ to_string (int p)] = Inr (Some r) \<and>
    received_by (new_fd h') (net r) = handshake own \<and>
    store_of (db_handler m) = map_of entries \<and> store_of (db_handler r) = Map.empty \<and>
    joining link m r"
proof -
  note bare = assms(3) [unfolded bare_host_def]
  from server_main_dump [OF assms(1)] obtain m where
    m: "server_main h [''server'', ''--dir'', dir, ''--dbfilename'', name] = Inr (Some m)"
       "store_of (db_handler m) = map_of entries" "db_inv (db_handler m)"
       "role (get_server_info m) = ''master''" "connected_slaves_fd (get_server_info m) = []"
       "length (master_replid (get_server_info m)) = 40" by blast
  from replica_start_connects_and_greets [of h' p own, OF _ _ assms(4-6)] bare obtain r where
    r: "server_main h' [''server'', ''--port'', to_string own,
          ''--replicaof'', ''localhost '' @ to_string (int p)] = Inr (Some r)"
       "role (get_server_info r) = ''slave''"
       "net r = Connect (new_fd h') LOCALHOST (word_of_int (int p)) # map (Send (new_fd h')) (handshake own)"
       "store_of (db_handler r) = Map.empty"
    unfolding handshake_def by auto
  have "db_inv (db_handler r)"
    using started_well_formed [OF _ r(1)] bare by simp
  moreover have "connected_slaves (get_server_info m) = 0"
    using m(3,5) by (simp add: db_inv_def si_inv_def get_server_info_def)
  moreover have "plain_store (map_of entries)"
    using assms(2) by (fastforce simp: plain_store_def ran_def list_all_iff dest: map_of_SomeD)
  moreover have "plain_store Map.empty"
    by (simp add: plain_store_def)
  ultimately have "joining link m r"
    using m r(2,4) by (simp add: joining_def side_ok_def registered_def int_ok_def)
  moreover have "received_by (new_fd h') (net r) = handshake own"
    by (simp add: r(3) handshake_def)
  ultimately show ?thesis
    using m r(1,4) by blast
qed

section \<open>Values that expire\<close>

lemma px_outcome:
  assumes "request_ok (Set_Px k v ms) (clk w)" and "db_inv (db_handler w)"
  defines "e \<equiv> readings (clk w) (reads (clk w)) + ms"
  shows "\<exists>w'. serve_input (Suc d) env fd (request_bytes (Set_Px k v ms)) w = (Inr (), w') \<and>
    net w' = net w @ propagation (request_bytes (Set_Px k v ms)) (get_server_info w) \<and>
    store_of (db_handler w') = (store_of (db_handler w))(k \<mapsto> \<lparr>db_value = v, expiry_time = e\<rparr>)"
  using array_outcome [of "''SET''" "[k, v, ''PX'', to_string ms]" w d env fd] assms(1,2)
  by (simp add: request_bytes_def array_serve_def store_and_send_def answer_def get_server_info_def
      e_def Let_def)

text \<open>C25: A propagated expiry starts again at the replica: the master sends the command as it was received, with
  the milliseconds and not the time of expiry, so the replica counts them from its own clock, and between
  the two times it serves a value that has expired at the master (or the other way round).\<close>

theorem propagated_expiry_restarts:
  assumes "request_ok (Set_Px k v ms) (clk m)" and "request_ok (Set_Px k v ms) (clk r)"
    and "db_inv (db_handler m)" and "db_inv (db_handler r)"
    and "role (get_server_info m) = ''master''"
    and "filter (\<lambda>f. f = link) (connected_slaves_fd (get_server_info m)) = [link]"
  defines "em \<equiv> readings (clk m) (reads (clk m)) + ms" and "er \<equiv> readings (clk r) (reads (clk r)) + ms"
  shows "\<exists>m' r'. serve_input (Suc d) env fd (request_bytes (Set_Px k v ms)) m = (Inr (), m') \<and>
    sent_on link m m' = [request_bytes (Set_Px k v ms)] \<and>
    serve_all (Suc d) env' up (sent_on link m m') r = (Inr (), r') \<and>
    (\<forall>now. em \<noteq> 0 \<longrightarrow> er \<noteq> 0 \<longrightarrow>
       live now (store_of (db_handler m')) k = (if now < em then Some v else None) \<and>
       live now (store_of (db_handler r')) k = (if now < er then Some v else None))"
proof -
  from px_outcome [OF assms(1,3), of d env fd] obtain m' where
    m': "serve_input (Suc d) env fd (request_bytes (Set_Px k v ms)) m = (Inr (), m')"
      "net m' = net m @ propagation (request_bytes (Set_Px k v ms)) (get_server_info m)"
      "store_of (db_handler m') = (store_of (db_handler m))(k \<mapsto> \<lparr>db_value = v, expiry_time = em\<rparr>)"
    by (auto simp: em_def)
  from px_outcome [OF assms(2,4), of d env' up] obtain r' where
    r': "serve_input (Suc d) env' up (request_bytes (Set_Px k v ms)) r = (Inr (), r')"
      "store_of (db_handler r') = (store_of (db_handler r))(k \<mapsto> \<lparr>db_value = v, expiry_time = er\<rparr>)"
    by (auto simp: er_def)
  have "sent_on link m m' = [request_bytes (Set_Px k v ms)]"
    using m'(2) assms(5,6) by (simp add: sent_on_def propagation_def received_by_sends)
  then show ?thesis
    using m'(1,3) r' by (intro exI [of _ m'] exI [of _ r']) (simp add: live_def fresh_def)
qed

text \<open>The replica's clock is nine milliseconds ahead.\<close>

theorem propagated_expiry_restarts_witness:
  "\<exists>m' r'. serve_input 1 plain_env 7 (request_bytes (Set_Px ''k'' ''v'' 5)) master_world = (Inr (), m') \<and>
     serve_all 1 plain_env 3 (sent_on 9 master_world m')
       (slave_world\<lparr>clk := \<lparr>readings = (\<lambda>n. 10), reads = 0\<rparr>\<rparr>) = (Inr (), r') \<and>
     live 8 (store_of (db_handler m')) ''k'' = None \<and>
     live 8 (store_of (db_handler r')) ''k'' = Some ''v''"
proof -
  let ?r = "slave_world\<lparr>clk := \<lparr>readings = (\<lambda>n. 10), reads = 0\<rparr>\<rparr>"
  have clk: "clk master_world = \<lparr>readings = (\<lambda>n. 1), reads = 0\<rparr>"
    by (simp add: master_world_def set_server_info_def)
  have ok: "request_ok (Set_Px ''k'' ''v'' 5) (clk master_world)" "request_ok (Set_Px ''k'' ''v'' 5) (clk ?r)"
    by (simp_all add: clk short_requests int_ok_def long_ok_def)
  have inv: "db_inv (db_handler master_world)" "db_inv (db_handler ?r)"
    by (simp_all add: master_world_def slave_world_def set_server_info_def db_inv_def empty_world_def
        empty_db_def new_DatabaseHandler_def register_slave_def si_inv_def add_connected_slave_def
        update_connected_slaves_def plain_server_info_def update_role_def)
  have info: "get_server_info master_world = register_slave 9 plain_server_info"
    by (simp add: master_world_def set_server_info_def get_server_info_def)
  have "role (get_server_info master_world) = ''master''"
    "filter (\<lambda>f. f = 9) (connected_slaves_fd (get_server_info master_world)) = [9]"
    by (simp_all add: info) (simp_all add: plain_server_info_def)
  from propagated_expiry_restarts [OF ok inv this, of 0 plain_env 7 plain_env 3] show ?thesis
    by (auto simp: clk)
qed

end
