(* ===== verification/Replica_Group.thy ===== *)
theory Replica_Group
  imports Cluster_Runs
begin

text \<open>
  A master and any number of replicas: the replicas join at any time, in any order, and the messages of all
  connections are delivered in any interleaving with the requests of clients. Seen from one connection
  (\<open>view\<close>) this is the system of \<open>Cluster\<close>, except that the master also handles the messages of the other
  replicas; so its invariant holds of every view. The deliveries are the careful ones of \<open>Cluster\<close>: whole
  messages, replies and stores never in one packet, the handshake's messages one by one.
\<close>

section \<open>State\<close>

text \<open>A replica with the two directions of its connection; \<open>stored_since\<close> is a ghost, as \<open>propagated\<close> in \<open>Cluster\<close>.\<close>

record member =
  side :: world
  to_main :: "string list"
  from_main :: "string list"
  stored_since :: "(string \<times> string) list"

text \<open>The replicas are named by the master's descriptors of their connections.\<close>

record group =
  main_side :: world
  members :: "int \<Rightarrow> member"
  broken :: bool

definition view :: "int \<Rightarrow> group \<Rightarrow> cluster" where
  "view l g =
     \<lparr>master_side = main_side g, replica_side = side (members g l), to_master = to_main (members g l),
      to_replica = from_main (members g l), propagated = stored_since (members g l), failed = broken g\<rparr>"

text \<open>Every replica has connected and sent its handshake.\<close>

definition group_start :: "(int \<Rightarrow> int) \<Rightarrow> world \<Rightarrow> (int \<Rightarrow> world) \<Rightarrow> group" where
  "group_start own m rs =
     \<lparr>main_side = m,
      members = (\<lambda>l. \<lparr>side = rs l, to_main = handshake (own l), from_main = [], stored_since = []\<rparr>),
      broken = False\<rparr>"

section \<open>Steps\<close>

text \<open>A client's request to the master is propagated to all replicas registered at that time.\<close>

definition propagated_to_all :: "request \<Rightarrow> world \<Rightarrow> world \<Rightarrow> (int \<Rightarrow> member) \<Rightarrow> int \<Rightarrow> member" where
  "propagated_to_all q m w ms = (\<lambda>l. (ms l)\<lparr>from_main := from_main (ms l) @ sent_on l m w,
     stored_since := stored_since (ms l) @ (if registered l m then stores q else [])\<rparr>)"

inductive group_client ::
  "nat \<Rightarrow> environment \<Rightarrow> (int \<Rightarrow> environment) \<Rightarrow> int set \<Rightarrow> group \<Rightarrow> group \<Rightarrow> bool"
  for depth em er L where
  main_client: "plain_request q \<Longrightarrow> packet (request_bytes q) \<Longrightarrow>
    serve_input depth em fd (request_bytes q) (main_side g) = (r, w) \<Longrightarrow>
    group_client depth em er L g (g\<lparr>main_side := w,
      members := propagated_to_all q (main_side g) w (members g), broken := broken g \<or> r \<noteq> Inr ()\<rparr>)"
| member_client: "l \<in> L \<Longrightarrow> plain_request q \<Longrightarrow> stores q = [] \<Longrightarrow> packet (request_bytes q) \<Longrightarrow>
    serve_input depth (er l) fd (request_bytes q) (side (members g l)) = (r, w) \<Longrightarrow>
    group_client depth em er L g (g\<lparr>members := (members g)(l := (members g l)\<lparr>side := w\<rparr>),
      broken := broken g \<or> r \<noteq> Inr ()\<rparr>)"

text \<open>What the master sends while it handles a message of replica \<open>l\<close>: replies to \<open>l\<close>, stores to anyone.\<close>

definition answered_to :: "int \<Rightarrow> string list \<Rightarrow> world \<Rightarrow> world \<Rightarrow> (int \<Rightarrow> member) \<Rightarrow> int \<Rightarrow> member" where
  "answered_to l rest m w ms = (\<lambda>x. (ms x)\<lparr>to_main := if x = l then rest else to_main (ms x),
     from_main := from_main (ms x) @ (if x = l then sent_back m w else []) @ sent_on x m w\<rparr>)"

inductive group_deliver ::
  "nat \<Rightarrow> environment \<Rightarrow> (int \<Rightarrow> environment) \<Rightarrow> (int \<Rightarrow> int) \<Rightarrow> int set \<Rightarrow> group \<Rightarrow> group \<Rightarrow> bool"
  for depth em er up L where
  member_receives: "l \<in> L \<Longrightarrow> from_main (members g l) = bs @ rest \<Longrightarrow> bs \<noteq> [] \<Longrightarrow> one_kind bs \<Longrightarrow>
    length (concat bs) < RECV_BUFFER_SIZE \<Longrightarrow> received_string (concat bs) = Inr input \<Longrightarrow>
    serve_input depth (er l) (up l) input (side (members g l)) = (r, w) \<Longrightarrow>
    group_deliver depth em er up L g (g\<lparr>members := (members g)(l := (members g l)\<lparr>side := w, from_main := rest,
      to_main := to_main (members g l) @ sent_back (side (members g l)) w\<rparr>), broken := broken g \<or> r \<noteq> Inr ()\<rparr>)"
| main_receives: "l \<in> L \<Longrightarrow> to_main (members g l) = bs @ rest \<Longrightarrow> bs \<noteq> [] \<Longrightarrow>
    length bs = 1 \<or> list_all (\<lambda>b. \<not> is_array b) bs \<Longrightarrow>
    length (concat bs) < RECV_BUFFER_SIZE \<Longrightarrow> received_string (concat bs) = Inr input \<Longrightarrow>
    serve_input depth em l input (main_side g) = (r, w) \<Longrightarrow>
    group_deliver depth em er up L g (g\<lparr>main_side := w, members := answered_to l rest (main_side g) w (members g),
      broken := broken g \<or> r \<noteq> Inr ()\<rparr>)"

definition group_step ::
  "nat \<Rightarrow> environment \<Rightarrow> (int \<Rightarrow> environment) \<Rightarrow> (int \<Rightarrow> int) \<Rightarrow> int set \<Rightarrow> group \<Rightarrow> group \<Rightarrow> bool" where
  "group_step depth em er up L g h \<longleftrightarrow> group_client depth em er L g h \<or> group_deliver depth em er up L g h"

section \<open>The group seen from one connection\<close>

lemma view_simps [simp]:
  "master_side (view l g) = main_side g" "replica_side (view l g) = side (members g l)"
  "to_master (view l g) = to_main (members g l)" "to_replica (view l g) = from_main (members g l)"
  "propagated (view l g) = stored_since (members g l)" "failed (view l g) = broken g"
  by (simp_all add: view_def)

lemma client_view:
  assumes "group_client depth em er L g h"
  shows "cluster_client depth em (er l) l (view l g) (view l h) \<or>
    view l h = (view l g)\<lparr>failed := broken h\<rparr>"
  using assms
proof cases
  case (main_client q fd r w)
  with cluster_client.master_client [of q depth em fd "view l g" r w "er l" l] show ?thesis
    by (simp add: view_def propagated_to_all_def)
next
  case (member_client x q fd r w)
  show ?thesis
  proof (cases "x = l")
    case True
    with member_client cluster_client.replica_client [of q depth "er l" fd "view l g" r w em l] show ?thesis
      by (simp add: view_def)
  qed (use member_client in \<open>simp add: view_def\<close>)
qed

lemma connected_slaves_register [simp]: "connected_slaves (register_slave link si) = connected_slaves si + 1"
  by (simp add: register_slave_def add_connected_slave_def update_connected_slaves_def)

lemma registered_iff:
  "registered link w \<longleftrightarrow> filter (\<lambda>f. f = link) (connected_slaves_fd (get_server_info w)) \<noteq> []"
  by (auto simp: registered_def filter_empty_conv)

text \<open>Messages of other replicas leave the store alone and register at most the other connection.\<close>

lemma other_connection:
  assumes "cluster_inv own link r0 s" and "side_ok ''master'' w"
    and "store_of (db_handler w) = store_of (db_handler (master_side s))"
    and "filter (\<lambda>f. f = link) (connected_slaves_fd (get_server_info w)) =
      filter (\<lambda>f. f = link) (connected_slaves_fd (get_server_info (master_side s)))"
    and "master_replid (get_server_info w) = master_replid (get_server_info (master_side s))"
    and "\<not> registered link w \<Longrightarrow> int_ok (connected_slaves (get_server_info w) + 1)"
  shows "cluster_inv own link r0 (s\<lparr>master_side := w\<rparr>)"
proof -
  have reg: "registered link w = registered link (master_side s)"
    using assms(4) by (simp add: registered_iff)
  from assms(1) obtain i acks where i: "i \<le> 4" "to_master s = drop i (handshake own) @ acks"
    "list_all reply_like acks"
    "if i < 4 then \<not> registered link (master_side s) \<and> propagated s = [] \<and>
       int_ok (connected_slaves (get_server_info (master_side s)) + 1) \<and>
       length (master_replid (get_server_info (master_side s))) < 4000
     else filter (\<lambda>f. f = link) (connected_slaves_fd (get_server_info (master_side s))) = [link]"
    by (auto simp: cluster_inv_def master_channel_def)
  have "master_channel own link (s\<lparr>master_side := w\<rparr>)"
    unfolding master_channel_def using i assms(4-6) reg
    by (intro exI [of _ i] exI [of _ acks]) (auto split: if_splits)
  with assms(1-3) show ?thesis
    by (simp add: cluster_inv_def)
qed

lemma registered_filter:
  assumes "cluster_inv own link r0 s" and "registered link (master_side s)"
  shows "filter (\<lambda>f. f = link) (connected_slaves_fd (get_server_info (master_side s))) = [link]"
  using assms by (auto simp: cluster_inv_def master_channel_def split: if_splits)

lemma unregistered_bounded:
  "cluster_inv own link r0 s \<Longrightarrow> \<not> registered link (master_side s) \<Longrightarrow>
   int_ok (connected_slaves (get_server_info (master_side s)) + 1)"
  using registered_iff [of link "master_side s"]
  by (auto simp: cluster_inv_def master_channel_def split: if_splits)

lemma distinct_filter: "(\<And>y. y \<in> set xs \<Longrightarrow> filter (\<lambda>f. f = y) xs = [y]) \<Longrightarrow> distinct xs"
proof (rule ccontr)
  assume once: "\<And>y. y \<in> set xs \<Longrightarrow> filter (\<lambda>f. f = y) xs = [y]" and "\<not> distinct xs"
  then obtain as y bs cs where "xs = as @ [y] @ bs @ [y] @ cs"
    using not_distinct_decomp by blast
  with once [of y] show False
    by (auto simp: Cons_eq_append_conv append_eq_Cons_conv)
qed

section \<open>The invariant\<close>

text \<open>A descriptor is a nonnegative \<open>int\<close>, so there are fewer than \<open>2 ^ 31\<close> of them.\<close>

definition group_inv :: "(int \<Rightarrow> int) \<Rightarrow> (int \<Rightarrow> store) \<Rightarrow> int set \<Rightarrow> group \<Rightarrow> bool" where
  "group_inv own r0 L g \<longleftrightarrow>
     finite L \<and> card L < 2 ^ 31 \<and> set (connected_slaves_fd (get_server_info (main_side g))) \<subseteq> L \<and>
     side_ok ''master'' (main_side g) \<and> \<not> broken g \<and> (\<forall>l \<in> L. cluster_inv (own l) l (r0 l) (view l g))"


definition group_params :: "nat \<Rightarrow> environment \<Rightarrow> (int \<Rightarrow> int) \<Rightarrow> int set \<Rightarrow> bool" where
  "group_params d em own L \<longleftrightarrow> (\<forall>l \<in> L. cluster_params d em (own l)) \<and> finite L \<and> card L < 2 ^ 31"

lemma group_view: "group_inv own r0 L g \<Longrightarrow> l \<in> L \<Longrightarrow> cluster_inv (own l) l (r0 l) (view l g)"
  by (simp add: group_inv_def)

text \<open>Each replica registers at most once, so the number of slaves stays below the bound of an \<open>int\<close>.\<close>

lemma registered_once_each:
  assumes "group_inv own r0 L g"
  shows "distinct (connected_slaves_fd (get_server_info (main_side g)))"
proof (rule distinct_filter)
  fix y
  assume y: "y \<in> set (connected_slaves_fd (get_server_info (main_side g)))"
  then have "y \<in> L"
    using assms by (auto simp: group_inv_def)
  with y show "filter (\<lambda>f. f = y) (connected_slaves_fd (get_server_info (main_side g))) = [y]"
    using registered_filter [OF group_view [OF assms]] by (simp add: registered_def)
qed

lemma slaves_bounded:
  assumes "group_inv own r0 L g" and "distinct (x # y # connected_slaves_fd (get_server_info (main_side g)))"
    and "x \<in> L" and "y \<in> L"
  shows "int_ok (connected_slaves (get_server_info (main_side g)) + 2)"
proof -
  let ?fds = "connected_slaves_fd (get_server_info (main_side g))"
  have "length (x # y # ?fds) = card (set (x # y # ?fds))"
    by (rule distinct_card [OF assms(2), symmetric])
  also have "\<dots> \<le> card L"
    using assms by (intro card_mono) (auto simp: group_inv_def)
  finally have "length ?fds + 2 < 2 ^ 31"
    using assms(1) by (simp add: group_inv_def)
  moreover have "connected_slaves (get_server_info (main_side g)) = int (length ?fds)"
    using assms(1) by (simp add: group_inv_def side_ok_def db_inv_def si_inv_def get_server_info_def)
  ultimately show ?thesis
    by (simp add: int_ok_def)
qed

lemma group_inv_start:
  assumes "group_params d em own L" and "\<And>l. l \<in> L \<Longrightarrow> joining l m (rs l)"
    and "connected_slaves_fd (get_server_info m) = []" and "side_ok ''master'' m"
  shows "group_inv own (\<lambda>l. store_of (db_handler (rs l))) L (group_start own m rs)"
proof -
  have "view l (group_start own m rs) = cluster_start (own l) m (rs l)" for l
    by (simp add: view_def group_start_def cluster_start_def)
  then show ?thesis
    using assms cluster_inv_start by (simp add: group_inv_def group_params_def) (simp add: group_start_def)
qed

text \<open>A client's request keeps the list of the slaves; so the views keep their invariants one by one.\<close>

lemma group_client_inv:
  assumes "group_client (Suc d) em er L g h" and "group_inv own r0 L g"
  shows "group_inv own r0 L h"
proof -
  note inv = assms(2) [unfolded group_inv_def]
  have unbroken: "\<not> broken h \<and> side_ok ''master'' (main_side h) \<and>
      set (connected_slaves_fd (get_server_info (main_side h))) \<subseteq> L"
    using assms(1)
  proof cases
    case (main_client q fd r w)
    from plain_request_outcome [OF main_client(2,3), of "main_side g" d em fd] inv obtain reply where
      "r = Inr ()" "w = after_request q reply (main_side g)"
      using main_client(4) by (auto simp: side_ok_def)
    with main_client(1) inv side_ok_request show ?thesis by simp
  next
    case (member_client l q fd r w)
    then have "side_ok ''slave'' (side (members g l))"
      using inv by (force simp: cluster_inv_def)
    with plain_request_outcome [OF member_client(3,5), of "side (members g l)" d "er l" fd] member_client inv
    show ?thesis by (auto simp: side_ok_def)
  qed
  have "cluster_inv (own l) l (r0 l) (view l h)" if "l \<in> L" for l
  proof -
    have "cluster_client (Suc d) em (er l) l (view l g) (view l h) \<or> view l h = view l g"
      using client_view [OF assms(1), of l] unbroken inv by (auto simp: view_def)
    then show ?thesis
      using cluster_client_inv group_view [OF assms(2) that] by metis
  qed
  with unbroken inv show ?thesis
    by (simp add: group_inv_def)
qed

text \<open>What the master does with a message of a replica.\<close>

lemma main_outcome:
  assumes "group_inv own r0 L g" and "l \<in> L" and "int_ok (own l)" and "to_main (members g l) = bs @ rest"
    and "bs \<noteq> []" and "length bs = 1 \<or> list_all (\<lambda>b. \<not> is_array b) bs"
    and "length (concat bs) < RECV_BUFFER_SIZE" and "received_string (concat bs) = Inr input"
    and "serve_input (Suc d) em l input (main_side g) = (r, w)"
  shows "(\<exists>i. w = after_handshake em l i (main_side g) \<and> \<not> registered l (main_side g)) \<or>
    w = (main_side g)\<lparr>is_communicating := False\<rparr>"
proof -
  have bs: "to_master (view l g) = bs @ rest"
    using assms(4) by simp
  from group_view [OF assms(1,2)] bs assms(5-8,3) show ?thesis
  proof (cases rule: master_delivery [where em = em and d = d])
    case (greeting i acks)
    with assms(9) show ?thesis by auto
  next
    case acknowledged
    with assms(9) show ?thesis by simp
  qed
qed

lemma group_deliver_inv:
  assumes "group_deliver (Suc d) em er up L g h" and "group_inv own r0 L g" and "group_params d em own L"
  shows "group_inv own r0 L h"
  using assms(1)
proof cases
  case (member_receives l bs rest input r w)
  note inv = assms(2) [unfolded group_inv_def]
  have "RECV_BUFFER_SIZE \<le> Suc d"
    using assms(3) member_receives(2) by (auto simp: group_params_def cluster_params_def)
  from replica_receives_inv [OF group_view [OF assms(2) member_receives(2)], of bs rest input "Suc d" "er l" "up l" r w]
    member_receives this have r: "r = Inr ()"
    and l: "cluster_inv (own l) l (r0 l) (view l h)"
    by (simp_all add: view_def)
  have "cluster_inv (own x) x (r0 x) (view x h)" if "x \<in> L" for x
  proof (cases "x = l")
    case False
    then have "view x h = view x g"
      using member_receives(1) r by (simp add: view_def)
    with group_view [OF assms(2) that] show ?thesis by simp
  qed (use l in simp)
  with inv r member_receives(1) show ?thesis
    by (simp add: group_inv_def)
next
  case (main_receives l bs rest input r w)
  note inv = assms(2) [unfolded group_inv_def]
  have p: "int_ok (own l)" "length (rdb_reply em) < RECV_BUFFER_SIZE"
    using assms(3) main_receives(2) by (auto simp: group_params_def cluster_params_def)
  from master_receives_inv [OF group_view [OF assms(2) main_receives(2)], of bs rest input em d r w]
    main_receives p have r: "r = Inr ()"
    and l: "cluster_inv (own l) l (r0 l) (view l h)"
    by (simp_all add: view_def answered_to_def)
  note w = main_outcome [OF assms(2) main_receives(2) p(1) main_receives(3-8)]
  then have frame: "side_ok ''master'' w" "net w = net (main_side g)"
    "store_of (db_handler w) = store_of (db_handler (main_side g))"
    "master_replid (get_server_info w) = master_replid (get_server_info (main_side g))"
    using inv side_ok_handshake by (auto simp: store_of_def)
  have slaves: "connected_slaves_fd (get_server_info w) = connected_slaves_fd (get_server_info (main_side g)) \<and>
      connected_slaves (get_server_info w) = connected_slaves (get_server_info (main_side g)) \<or>
    \<not> registered l (main_side g) \<and>
      connected_slaves_fd (get_server_info w) = connected_slaves_fd (get_server_info (main_side g)) @ [l] \<and>
      connected_slaves (get_server_info w) = connected_slaves (get_server_info (main_side g)) + 1"
    using w by (auto split: if_splits)
  have "cluster_inv (own x) x (r0 x) (view x h)" if x: "x \<in> L" for x
  proof (cases "x = l")
    case False
    have "view x h = (view x g)\<lparr>master_side := w\<rparr>"
      using main_receives(1) r False frame(2) by (simp add: view_def answered_to_def sent_on_def)
    moreover have "cluster_inv (own x) x (r0 x) ((view x g)\<lparr>master_side := w\<rparr>)"
    proof (rule other_connection [OF group_view [OF assms(2) x]])
      show "int_ok (connected_slaves (get_server_info w) + 1)" if "\<not> registered x w"
        using slaves
      proof
        assume "connected_slaves_fd (get_server_info w) = connected_slaves_fd (get_server_info (main_side g)) \<and>
          connected_slaves (get_server_info w) = connected_slaves (get_server_info (main_side g))"
        with that show ?thesis
          using unregistered_bounded [OF group_view [OF assms(2) x]] by (simp add: registered_def)
      next
        assume new: "\<not> registered l (main_side g) \<and>
          connected_slaves_fd (get_server_info w) = connected_slaves_fd (get_server_info (main_side g)) @ [l] \<and>
          connected_slaves (get_server_info w) = connected_slaves (get_server_info (main_side g)) + 1"
        with that False registered_once_each [OF assms(2)] have
          "distinct (x # l # connected_slaves_fd (get_server_info (main_side g)))"
          by (simp add: registered_def)
        from slaves_bounded [OF assms(2) this x main_receives(2)] new show ?thesis
          by (simp add: add.assoc)
      qed
    qed (use frame slaves False in auto)
    ultimately show ?thesis by simp
  qed (use l in simp)
  moreover have "set (connected_slaves_fd (get_server_info w)) \<subseteq> L"
    using slaves inv main_receives(2) by auto
  ultimately show ?thesis
    using inv r main_receives(1) frame(1) by (simp add: group_inv_def)
qed


definition group_reachable ::
  "nat \<Rightarrow> environment \<Rightarrow> (int \<Rightarrow> environment) \<Rightarrow> (int \<Rightarrow> int) \<Rightarrow> int set \<Rightarrow> (int \<Rightarrow> int) \<Rightarrow>
   world \<Rightarrow> (int \<Rightarrow> world) \<Rightarrow> group \<Rightarrow> bool" where
  "group_reachable d em er up L own m rs g \<longleftrightarrow>
     reachable (\<lambda>g. g = group_start own m rs) (group_step (Suc d) em er up L) g"

text \<open>The replicas are about to join a master that has none yet.\<close>

definition all_joining :: "int set \<Rightarrow> world \<Rightarrow> (int \<Rightarrow> world) \<Rightarrow> bool" where
  "all_joining L m rs \<longleftrightarrow>
     side_ok ''master'' m \<and> connected_slaves_fd (get_server_info m) = [] \<and>
     length (master_replid (get_server_info m)) < 4000 \<and> (\<forall>l \<in> L. side_ok ''slave'' (rs l))"

lemma all_joining_each:
  assumes "all_joining L m rs" and "l \<in> L"
  shows "joining l m (rs l)"
proof -
  have "connected_slaves (get_server_info m) = 0"
    using assms(1) by (simp add: all_joining_def side_ok_def db_inv_def si_inv_def get_server_info_def)
  with assms show ?thesis
    by (simp add: all_joining_def joining_def registered_def int_ok_def)
qed

interpretation groups: invariant_system
  "\<lambda>g. group_params d em own L \<and> all_joining L m rs \<and> g = group_start own m rs"
  "group_step (Suc d) em er up L"
  "\<lambda>g. group_params d em own L \<and> group_inv own (\<lambda>l. store_of (db_handler (rs l))) L g"
proof
  show "group_params d em own L \<and> group_inv own (\<lambda>l. store_of (db_handler (rs l))) L g"
    if "group_params d em own L \<and> all_joining L m rs \<and> g = group_start own m rs" for g
    using that group_inv_start [of d em own L m rs] all_joining_each [of L m rs]
    by (simp add: all_joining_def)
  show "group_params d em own L \<and> group_inv own (\<lambda>l. store_of (db_handler (rs l))) L h"
    if "group_step (Suc d) em er up L g h"
      "group_params d em own L \<and> group_inv own (\<lambda>l. store_of (db_handler (rs l))) L g" for g h
    using that group_client_inv group_deliver_inv unfolding group_step_def by blast
qed

lemma group_invariant:
  assumes "group_reachable d em er up L own m rs g" and "group_params d em own L" and "all_joining L m rs"
  shows "group_inv own (\<lambda>l. store_of (db_handler (rs l))) L g"
proof -
  have "reachable (\<lambda>g. group_params d em own L \<and> all_joining L m rs \<and> g = group_start own m rs)
      (group_step (Suc d) em er up L) g"
    using assms by (simp add: group_reachable_def)
  from groups.reachable_inv [OF this] show ?thesis by simp
qed

section \<open>Coming to rest\<close>

definition group_load :: "int set \<Rightarrow> group \<Rightarrow> nat" where
  "group_load L g = (\<Sum>l \<in> L. cluster_load (view l g))"

text \<open>Every delivery is one of the system of one connection, and touches no other channel.\<close>

lemma group_deliver_view:
  assumes "group_deliver (Suc d) em er up L g h" and "group_inv own r0 L g" and "group_params d em own L"
  shows "\<exists>l \<in> L. cluster_deliver True (Suc d) em (er l) l (up l) (view l g) (view l h) \<and>
    (\<forall>x. x \<noteq> l \<longrightarrow> to_main (members h x) = to_main (members g x) \<and>
      from_main (members h x) = from_main (members g x))"
  using assms(1)
proof cases
  case (member_receives l bs rest input r w)
  have "to_replica (view l g) = bs @ rest" "True \<longrightarrow> one_kind bs"
    "serve_input (Suc d) (er l) (up l) input (replica_side (view l g)) = (r, w)"
    using member_receives by simp_all
  from cluster_deliver.replica_receives [OF this(1) member_receives(4) this(2) member_receives(6,7) this(3)]
  have "cluster_deliver True (Suc d) em (er l) l (up l) (view l g) (view l h)"
    using member_receives(1) by (simp add: view_def)
  with member_receives(1,2) show ?thesis
    by (intro bexI [of _ l]) simp_all
next
  case (main_receives l bs rest input r w)
  have bs: "to_master (view l g) = bs @ rest"
    "True \<longrightarrow> length bs = 1 \<or> list_all (\<lambda>b. \<not> is_array b) bs"
    "serve_input (Suc d) em l input (master_side (view l g)) = (r, w)"
    using main_receives by simp_all
  from cluster_deliver.master_receives [OF this(1) main_receives(4) this(2) main_receives(6,7) this(3)]
  have "cluster_deliver True (Suc d) em (er l) l (up l) (view l g) (view l h)"
    using main_receives(1) by (simp add: view_def answered_to_def)
  moreover have "int_ok (own l)"
    using assms(3) main_receives(2) by (auto simp: group_params_def cluster_params_def)
  from main_outcome [OF assms(2) main_receives(2) this main_receives(3-8)] have "net w = net (main_side g)"
    by auto
  ultimately show ?thesis
    using main_receives(1,2) by (intro bexI [of _ l]) (simp_all add: answered_to_def sent_on_def)
qed

lemma group_deliver_smaller:
  assumes "group_deliver (Suc d) em er up L g h" and "group_inv own r0 L g" and "group_params d em own L"
  shows "group_load L h < group_load L g"
proof -
  from group_deliver_view [OF assms] obtain l where l: "l \<in> L"
    "cluster_deliver True (Suc d) em (er l) l (up l) (view l g) (view l h)"
    "\<And>x. x \<noteq> l \<Longrightarrow> cluster_load (view x h) = cluster_load (view x g)"
    by (auto simp: cluster_load_def)
  have "finite L" "cluster_params d em (own l)"
    using assms(3) l(1) by (simp_all add: group_params_def)
  with cluster_deliver_smaller [OF l(2) _ group_view [OF assms(2) l(1)]] have
    less: "cluster_load (view l h) < cluster_load (view l g)" and fin: "finite L" by simp_all
  have "cluster_load (view x h) \<le> cluster_load (view x g)" for x
    using less l(3) [of x] by (cases "x = l") simp_all
  with less l(1) fin show ?thesis
    unfolding group_load_def by (intro sum_strict_mono_ex1) auto
qed

interpretation group_deliveries: settling_system "group_deliver (Suc d) em er up L"
  "\<lambda>g. group_params d em own L \<and> group_inv own r0 L g" "group_load L"
  by unfold_locales (auto intro: group_deliver_inv group_deliver_smaller)


lemma view_delivers:
  assumes "l \<in> L" and "cluster_deliver True (Suc d) em (er l) l (up l) (view l g) t"
  shows "\<exists>h. group_deliver (Suc d) em er up L g h"
  using assms(2)
proof cases
  case (replica_receives bs rest input r w)
  with assms(1) member_receives [of l L g bs rest input "Suc d" er up r w em] show ?thesis
    by auto
next
  case (master_receives bs rest input r w)
  with assms(1) main_receives [of l L g bs rest input "Suc d" em r w er up] show ?thesis
    by auto
qed

lemma group_at_rest:
  assumes "at_rest (group_deliver (Suc d) em er up L) g" and "group_inv own r0 L g"
    and "group_params d em own L" and "l \<in> L"
  shows "to_main (members g l) = []" and "from_main (members g l) = []" and "registered l (main_side g)"
proof -
  have rest: "at_rest (cluster_deliver True (Suc d) em (er l) l (up l)) (view l g)"
    using assms(1) view_delivers [where l = l and g = g, OF assms(4)] unfolding at_rest_def by blast
  have p: "cluster_params d em (own l)"
    using assms(3,4) by (simp add: group_params_def)
  note inv = group_view [OF assms(2,4)]
  from at_rest_delivered [OF p inv rest] show
    empty: "to_main (members g l) = []" "from_main (members g l) = []" by simp_all
  from inv empty(1) show "registered l (main_side g)"
    using registered_once [of l "main_side g"]
    by (auto simp: cluster_inv_def master_channel_def handshake_def split: if_splits)
qed

lemma group_deliveries_stored:
  "(group_deliver depth em er up L)\<^sup>*\<^sup>* g h \<Longrightarrow> stored_since (members h l) = stored_since (members g l)"
proof (induction rule: rtranclp_induct)
  case (step h h')
  from step.hyps(2) have "stored_since (members h' l) = stored_since (members h l)"
    by cases (simp_all add: answered_to_def)
  with step.IH show ?case by simp
qed simp

lemma group_load_bound:
  "group_load L g \<le>
     (\<Sum>l \<in> L. 4 * length (to_main (members g l)) + 2 * length (from_main (members g l)))"
  unfolding group_load_def using cluster_load_bound [of "view l g" for l] by (intro sum_mono) simp

section \<open>A store after all replicas have joined\<close>

lemma group_settles:
  assumes "group_reachable d em er up L own m rs g" and "group_params d em own L" and "all_joining L m rs"
  shows "\<exists>h. group_reachable d em er up L own m rs h \<and> at_rest (group_deliver (Suc d) em er up L) h \<and>
    (\<forall>l. stored_since (members h l) = stored_since (members g l))"
proof -
  from group_deliveries.comes_to_rest [OF conjI [OF assms(2) group_invariant [OF assms]]] obtain h where
    h: "(group_deliver (Suc d) em er up L)\<^sup>*\<^sup>* g h" "at_rest (group_deliver (Suc d) em er up L) h" by blast
  have "(group_step (Suc d) em er up L)\<^sup>*\<^sup>* g h"
    by (rule mono_rtranclp [rule_format, OF _ h(1)]) (simp add: group_step_def)
  with assms(1) have "group_reachable d em er up L own m rs h"
    unfolding group_reachable_def by (rule reachable_run)
  with h(2) group_deliveries_stored [OF h(1)] show ?thesis by blast
qed

lemma store_reaches_all:
  assumes "group_params d em own L" and "all_joining L m rs" and "packet (request_bytes (Set k v))"
  shows "\<exists>g. group_reachable d em er up L own m rs g \<and>
    (\<forall>l \<in> L. from_main (members g l) = [] \<and> stored_since (members g l) = [(k, v)])"
proof -
  have "group_reachable d em er up L own m rs (group_start own m rs)"
    unfolding group_reachable_def by (rule reach_start) (rule refl)
  from group_settles [OF this assms(1,2)] obtain h where h: "group_reachable d em er up L own m rs h"
    "at_rest (group_deliver (Suc d) em er up L) h" "\<forall>l. stored_since (members h l) = []"
    by (auto simp: group_start_def)
  note inv = group_invariant [OF h(1) assms(1,2)]
  then have "side_ok ''master'' (main_side h)"
    by (simp add: group_inv_def)
  then obtain reply where w: "serve_input (Suc d) em 0 (request_bytes (Set k v)) (main_side h) =
      (Inr (), after_request (Set k v) reply (main_side h))"
    using plain_request_outcome [of "Set k v" "main_side h" d em 0] assms(3) by (auto simp: side_ok_def)
  define g where "g = h\<lparr>main_side := after_request (Set k v) reply (main_side h),
    members := propagated_to_all (Set k v) (main_side h) (after_request (Set k v) reply (main_side h)) (members h),
    broken := broken h \<or> Inr () \<noteq> (Inr () :: unit result)\<rparr>"
  have "group_client (Suc d) em er L h g"
    unfolding g_def by (rule main_client [OF _ assms(3) w]) simp
  with h(1) have g: "group_reachable d em er up L own m rs g"
    unfolding group_reachable_def by (rule_tac reach_step) (auto simp: group_step_def)
  have stored_g: "stored_since (members g l) = [(k, v)]" if "l \<in> L" for l
    using group_at_rest(3) [OF h(2) inv assms(1) that] h(3) by (simp add: g_def propagated_to_all_def)
  from group_settles [OF g assms(1,2)] obtain u where u: "group_reachable d em er up L own m rs u"
    "at_rest (group_deliver (Suc d) em er up L) u" "\<forall>l. stored_since (members u l) = stored_since (members g l)"
    by blast
  note inv_u = group_invariant [OF u(1) assms(1,2)]
  show ?thesis
    using u(1,3) stored_g group_at_rest(2) [OF u(2) inv_u assms(1)] by (intro exI [of _ u]) simp
qed

text \<open>Two replicas without data, on the descriptors 7 and 8, join a master without data.\<close>

lemma empty_group:
  "group_params 4095 plain_env (\<lambda>l. 6380) {7, 8}" "all_joining {7, 8} empty_world (\<lambda>l. slave_world)"
  using empty_cluster
  by (simp_all add: group_params_def all_joining_def joining_def) (simp add: plain_server_info_def)

section \<open>Properties\<close>

text \<open>C5: Replicas follow their master under these conditions. The servers start without values that expire, and the
  RDB file and every request fit one packet. Requests of clients are whole, one per packet and
  without expiry, and the replicas' clients only read. A message between the servers is received whole,
  acknowledgements or stores possibly several together, but a reply never together with a store, and a message
  of the handshake always alone. Every task runs to its end and its replies are sent. Then, when any number of
  replicas join one master, each at its own time, in every interleaving of such requests and deliveries, no
  process ends, each replica changes only by what the master carried out since that replica registered, and a
  replica to which no store is under way agrees with the master on every key stored since then, hence with
  every other such replica on what they both were sent. Beyond these conditions it fails: a store
  received behind a reply is lost, a store with an expiry expires at another time at the replica, and
  a store that is cut makes the parser leave its input.\<close>

theorem replicas_follow_master:
  assumes "group_reachable d em er up L own m rs g" and "group_params d em own L" and "all_joining L m rs"
  shows "\<not> broken g \<and>
    (\<forall>l \<in> L. \<forall>k. k \<notin> fst ` set (stored_since (members g l)) \<longrightarrow>
       store_of (db_handler (side (members g l))) k = store_of (db_handler (rs l)) k) \<and>
    (\<forall>l \<in> L. list_all (\<lambda>b. \<not> is_array b) (from_main (members g l)) \<longrightarrow>
       (\<forall>k \<in> fst ` set (stored_since (members g l)).
          store_of (db_handler (side (members g l))) k = store_of (db_handler (main_side g)) k))"
proof -
  note inv = group_invariant [OF assms]
  have "\<not> broken g"
    using inv by (simp add: group_inv_def)
  moreover have "store_of (db_handler (side (members g l))) k = store_of (db_handler (rs l)) k"
    if "l \<in> L" "k \<notin> fst ` set (stored_since (members g l))" for l k
    using replica_knows [OF group_view [OF inv that(1)]] that(2) by simp
  moreover have "store_of (db_handler (side (members g l))) k = store_of (db_handler (main_side g)) k"
    if "l \<in> L" "list_all (\<lambda>b. \<not> is_array b) (from_main (members g l))" "k \<in> fst ` set (stored_since (members g l))" for l k
    using replica_agrees [OF group_view [OF inv that(1)]] that(2,3) by simp
  ultimately show ?thesis by blast
qed

theorem replicas_follow_master_witness:
  "\<exists>g. group_reachable 4095 plain_env (\<lambda>l. plain_env) (\<lambda>l. 3) {7, 8} (\<lambda>l. 6380) empty_world (\<lambda>l. slave_world) g \<and>
     stored_since (members g 7) = [(''k'', ''v'')] \<and>
     store_of (db_handler (side (members g 7))) ''k'' = store_of (db_handler (main_side g)) ''k'' \<and>
     store_of (db_handler (side (members g 7))) ''k'' = store_of (db_handler (side (members g 8))) ''k''"
proof -
  have "packet (request_bytes (Set ''k'' ''v''))"
    by code_simp
  from store_reaches_all [OF empty_group this, of "\<lambda>l. plain_env" "\<lambda>l. 3"] obtain g where
    g: "group_reachable 4095 plain_env (\<lambda>l. plain_env) (\<lambda>l. 3) {7, 8} (\<lambda>l. 6380) empty_world (\<lambda>l. slave_world) g"
    "\<forall>l \<in> {7, 8}. from_main (members g l) = [] \<and> stored_since (members g l) = [(''k'', ''v'')]"
    by blast
  with replicas_follow_master [OF g(1) empty_group] show ?thesis
    by (intro exI [of _ g]) simp
qed

text \<open>C8: Replication to any number of replicas comes to rest, under the conditions of the property before: no values
  that expire, whole requests one per packet, reads only at the replicas, messages received whole, replies and
  stores in different packets, the handshake's messages alone, and tasks that run to their end. From
  every state so reached, without further requests, the master and its replicas exchange at most
  four messages for each one under way to the master and two for each one under way from it; the exchange can
  be continued to a state in which no such delivery is left, and in each such state nothing is under way, all
  replicas are registered and they agree with the master on every key stored since they registered.\<close>

theorem group_comes_to_rest:
  assumes "group_reachable d em er up L own m rs g" and "group_params d em own L" and "all_joining L m rs"
  defines "deliver \<equiv> group_deliver (Suc d) em er up L"
  shows "(\<forall>n h. (deliver ^^ n) g h \<longrightarrow>
      n \<le> (\<Sum>l \<in> L. 4 * length (to_main (members g l)) + 2 * length (from_main (members g l)))) \<and>
    (\<exists>h. deliver\<^sup>*\<^sup>* g h \<and> at_rest deliver h) \<and>
    (\<forall>h. deliver\<^sup>*\<^sup>* g h \<longrightarrow> at_rest deliver h \<longrightarrow> (\<forall>l \<in> L.
       to_main (members h l) = [] \<and> from_main (members h l) = [] \<and> registered l (main_side h) \<and>
       (\<forall>k \<in> fst ` set (stored_since (members g l)).
          store_of (db_handler (side (members h l))) k = store_of (db_handler (main_side h)) k)))"
proof (intro conjI allI impI ballI)
  note inv = conjI [OF assms(2) group_invariant [OF assms(1-3)]]
  show "n \<le> (\<Sum>l \<in> L. 4 * length (to_main (members g l)) + 2 * length (from_main (members g l)))"
    if "(deliver ^^ n) g h" for n h
    using group_deliveries.run_bounded [OF that [unfolded deliver_def] inv] group_load_bound [of L g] by simp
  show "\<exists>h. deliver\<^sup>*\<^sup>* g h \<and> at_rest deliver h"
    unfolding deliver_def by (rule group_deliveries.comes_to_rest [OF inv])
  fix h l
  assume run: "deliver\<^sup>*\<^sup>* g h" "at_rest deliver h" and l: "l \<in> L"
  have h: "group_inv own (\<lambda>l. store_of (db_handler (rs l))) L h"
    using run(1) inv unfolding deliver_def
    by (induction rule: rtranclp_induct) (auto intro: group_deliver_inv)
  note rest = group_at_rest [OF run(2) [unfolded deliver_def] h assms(2) l]
  then show "to_main (members h l) = []" "from_main (members h l) = []" "registered l (main_side h)"
    by simp_all
  show "store_of (db_handler (side (members h l))) k = store_of (db_handler (main_side h)) k"
    if "k \<in> fst ` set (stored_since (members g l))" for k
    using replica_agrees [OF group_view [OF h l]] rest(2) that group_deliveries_stored run(1)
    by (simp add: deliver_def)
qed


theorem group_comes_to_rest_witness:
  "\<exists>h. (group_deliver 4096 plain_env (\<lambda>l. plain_env) (\<lambda>l. 3) {7, 8})\<^sup>*\<^sup>*
       (group_start (\<lambda>l. 6380) empty_world (\<lambda>l. slave_world)) h \<and>
     registered 7 (main_side h) \<and> registered 8 (main_side h) \<and> to_main (members h 8) = []"
proof -
  have "group_reachable 4095 plain_env (\<lambda>l. plain_env) (\<lambda>l. 3) {7, 8} (\<lambda>l. 6380) empty_world (\<lambda>l. slave_world)
      (group_start (\<lambda>l. 6380) empty_world (\<lambda>l. slave_world))"
    unfolding group_reachable_def by (rule reach_start) (rule refl)
  note rests = group_comes_to_rest [OF this empty_group]
  from rests obtain h where h: "(group_deliver (Suc 4095) plain_env (\<lambda>l. plain_env) (\<lambda>l. 3) {7, 8})\<^sup>*\<^sup>*
      (group_start (\<lambda>l. 6380) empty_world (\<lambda>l. slave_world)) h"
    "at_rest (group_deliver (Suc 4095) plain_env (\<lambda>l. plain_env) (\<lambda>l. 3) {7, 8}) h" by auto
  from rests [THEN conjunct2, THEN conjunct2, rule_format, OF h, of 7]
    rests [THEN conjunct2, THEN conjunct2, rule_format, OF h, of 8] h(1) show ?thesis
    by (intro exI [of _ h]) simp
qed

end
