(* ===== verification/Prompt_Exchange.thy ===== *)
theory Prompt_Exchange
  imports Comm_Protocol
begin

text \<open>
  Where the handshake of \<open>Comm_Protocol\<close> can hang, and where not: a wake-up is lost only when the other
  thread moves between the parser's test of a flag and its wait. In the schedules in which it does not,
  every exchange can be brought to its end from wherever it stands.
\<close>

section \<open>Schedules without the window\<close>

definition entering_wait :: "parser_pc \<Rightarrow> bool" where
  "entering_wait p \<longleftrightarrow> p = P_Enter_Loop_Wait \<or> p = P_Enter_Sent_Wait"

definition prompt_step :: "comm \<Rightarrow> comm \<Rightarrow> bool" where
  "prompt_step s t \<longleftrightarrow> comm_step s t \<and> (entering_wait (p_pc s) \<longrightarrow> parser_step s = Some t)"

definition prompt_reachable :: "string list \<Rightarrow> comm \<Rightarrow> bool" where
  "prompt_reachable messages s \<longleftrightarrow> reachable (\<lambda>s. s = comm_start messages) prompt_step s"

lemma prompt_is_comm: "prompt_step s t \<Longrightarrow> comm_step s t"
  by (simp add: prompt_step_def)

lemma prompt_run: "prompt_step\<^sup>*\<^sup>* s t \<Longrightarrow> comm_step\<^sup>*\<^sup>* s t"
  by (erule mono_rtranclp [rule_format, rotated]) (rule prompt_is_comm)

lemma prompt_reachable_comm: "prompt_reachable messages s \<Longrightarrow> comm_reachable messages s"
  unfolding prompt_reachable_def comm_reachable_def
  by (induction rule: reachable.induct) (auto intro: reach_start reach_step prompt_is_comm)

section \<open>What the threads know of each other\<close>

text \<open>A message is still to be sent or the flag that announces it still to be set.\<close>

fun announcing :: "handler_pc \<Rightarrow> bool" where
  "announcing (H_Send m) = True"
| "announcing H_Set_Sent = True"
| "announcing h = False"

fun holds_buf :: "handler_pc \<Rightarrow> bool" where
  "holds_buf H_Take = True"
| "holds_buf (H_Send m) = True"
| "holds_buf H_Set_Sent = True"
| "holds_buf H_Notify_Sent = True"
| "holds_buf H_Check = True"
| "holds_buf h = False"

definition pending :: "comm \<Rightarrow> bool" where
  "pending s \<longleftrightarrow> response_buf s \<noteq> [] \<or> announcing (h_pc s)"

definition awaited :: "comm \<Rightarrow> bool" where
  "awaited s \<longleftrightarrow>
     (p_pc s = P_Enter_Loop_Wait \<longrightarrow> \<not> handler_in_loop s) \<and>
     (p_pc s = P_Loop_Wait \<longrightarrow> handler_in_loop s \<longrightarrow> h_pc s = H_Notify_Loop) \<and>
     (p_pc s = P_Test_Sent \<longrightarrow> response_sent s \<or> pending s) \<and>
     (p_pc s = P_Enter_Sent_Wait \<longrightarrow> pending s) \<and>
     (p_pc s = P_Sent_Wait \<longrightarrow> pending s \<or> h_pc s = H_Notify_Sent)"

definition in_step :: "comm \<Rightarrow> bool" where
  "in_step s \<longleftrightarrow>
     (\<not> handler_in_loop s \<longrightarrow> h_pc s = H_Top \<or> h_pc s = H_Set_Loop) \<and>
     (before_loop (p_pc s) \<or> handler_in_loop s) \<and>
     (handler_in_loop s \<longrightarrow> h_pc s \<noteq> H_Set_Loop) \<and>
     (buf_locked s \<longleftrightarrow> holds_buf (h_pc s)) \<and>
     (communicating s \<longleftrightarrow> p_pc s \<noteq> P_Done) \<and>
     (h_pc s = H_Join \<or> h_pc s = H_Done \<longrightarrow> p_pc s = P_Done) \<and>
     [] \<notin> set (response_buf s) \<and> [] \<notin> set (todo s)"

lemma in_step_handler: "handler_step s = Some t \<Longrightarrow> in_step s \<Longrightarrow> in_step t"
  by (cases "h_pc s"; cases "response_buf s";
      clarsimp simp: handler_step.simps in_step_def before_loop_def split: if_splits)

lemma in_step_parser: "parser_step s = Some t \<Longrightarrow> in_step s \<Longrightarrow> in_step t"
  by (cases "p_pc s"; cases "todo s";
      clarsimp simp: parser_step.simps in_step_def before_loop_def split: if_splits)

lemma awaited_handler:
  "handler_step s = Some t \<Longrightarrow> \<not> entering_wait (p_pc s) \<Longrightarrow> in_step s \<Longrightarrow> awaited s \<Longrightarrow> awaited t"
  by (cases "h_pc s"; cases "response_buf s";
      clarsimp simp: handler_step.simps awaited_def in_step_def pending_def entering_wait_def
        before_loop_def split: if_splits)

lemma awaited_parser: "parser_step s = Some t \<Longrightarrow> in_step s \<Longrightarrow> awaited s \<Longrightarrow> awaited t"
  by (cases "p_pc s"; cases "todo s";
      clarsimp simp: parser_step.simps awaited_def in_step_def pending_def split: if_splits)

definition prompt_inv :: "comm \<Rightarrow> bool" where
  "prompt_inv s \<longleftrightarrow> in_step s \<and> awaited s"

lemma prompt_inv_step: "prompt_step s t \<Longrightarrow> prompt_inv s \<Longrightarrow> prompt_inv t"
  unfolding prompt_step_def comm_step_def prompt_inv_def
  by (auto intro: in_step_handler in_step_parser awaited_handler awaited_parser)

lemma prompt_inv_start: "[] \<notin> set messages \<Longrightarrow> prompt_inv (comm_start messages)"
  by (simp add: prompt_inv_def in_step_def awaited_def comm_start_def before_loop_def)

interpretation prompt: invariant_system "\<lambda>s. s = comm_start messages" prompt_step
  "\<lambda>s. [] \<notin> set messages \<longrightarrow> prompt_inv s"
  by unfold_locales (auto intro: prompt_inv_start prompt_inv_step)

section \<open>Bringing an exchange to its end\<close>

text \<open>The parser moves while it can, and the other thread when the parser is blocked.\<close>

definition helpful_step :: "comm \<Rightarrow> comm \<Rightarrow> bool" where
  "helpful_step s t \<longleftrightarrow>
     parser_step s = Some t \<or> parser_step s = None \<and> handler_step s = Some t"

lemma parser_enters: "entering_wait (p_pc s) \<Longrightarrow> parser_step s \<noteq> None"
  by (auto simp: entering_wait_def parser_step.simps)

lemma helpful_is_prompt: "helpful_step s t \<Longrightarrow> prompt_step s t"
  using parser_enters [of s] by (auto simp: helpful_step_def prompt_step_def comm_step_def)

fun parser_rank :: "parser_pc \<Rightarrow> nat" where
  "parser_rank P_Start = 10"
| "parser_rank P_Enter_Loop_Wait = 9"
| "parser_rank P_Loop_Wait = 8"
| "parser_rank P_Test_Sent = 6"
| "parser_rank P_Enter_Sent_Wait = 5"
| "parser_rank P_Sent_Wait = 4"
| "parser_rank P_Reset = 3"
| "parser_rank P_Next = 2"
| "parser_rank P_Over = 1"
| "parser_rank P_Done = 0"

text \<open>The steps of the connection's thread up to a notification, to the release of the buffer, to its end.\<close>

fun to_notify :: "handler_pc \<Rightarrow> nat" where
  "to_notify H_Check = 10"
| "to_notify H_Top = 9"
| "to_notify H_Set_Loop = 8"
| "to_notify H_Notify_Loop = 7"
| "to_notify H_Lock = 6"
| "to_notify H_Wait = 5"
| "to_notify H_Take = 4"
| "to_notify (H_Send m) = 3"
| "to_notify H_Set_Sent = 2"
| "to_notify H_Notify_Sent = 1"
| "to_notify h = 0"

fun to_release :: "handler_pc \<Rightarrow> nat" where
  "to_release H_Take = 5"
| "to_release (H_Send m) = 4"
| "to_release H_Set_Sent = 3"
| "to_release H_Notify_Sent = 2"
| "to_release H_Check = 1"
| "to_release h = 0"

fun to_end :: "handler_pc \<Rightarrow> nat" where
  "to_end H_Top = 11"
| "to_end H_Set_Loop = 10"
| "to_end H_Notify_Loop = 9"
| "to_end H_Lock = 8"
| "to_end H_Wait = 7"
| "to_end H_Join = 1"
| "to_end H_Done = 0"
| "to_end h = 1 + to_release h"

fun handler_rank :: "parser_pc \<Rightarrow> handler_pc \<Rightarrow> nat" where
  "handler_rank P_Done h = to_end h"
| "handler_rank P_Next h = to_release h"
| "handler_rank p h = to_notify h"

definition steps_left :: "comm \<Rightarrow> nat" where
  "steps_left s = 12 * (10 * length (todo s) + parser_rank (p_pc s)) + handler_rank (p_pc s) (h_pc s)"

lemma to_release_less: "to_release h < 12"
  by (cases h) simp_all

lemma handler_rank_less: "handler_rank p h < 12"
  by (cases p; cases h) simp_all

lemma parser_step_smaller:
  assumes "parser_step s = Some t"
  shows "steps_left t < steps_left s"
proof -
  have "10 * length (todo t) + parser_rank (p_pc t) < 10 * length (todo s) + parser_rank (p_pc s)"
    using assms
    by (cases "p_pc s"; cases "todo s"; clarsimp simp: parser_step.simps split: if_splits)
  then show ?thesis
    using handler_rank_less [of "p_pc t" "h_pc t"] by (simp add: steps_left_def)
qed

lemma blocked_parser:
  "parser_step s = None \<Longrightarrow>
   p_pc s = P_Loop_Wait \<or> p_pc s = P_Sent_Wait \<or> p_pc s = P_Next \<and> todo s \<noteq> [] \<and> buf_locked s \<or> p_pc s = P_Done"
  by (cases "p_pc s"; cases "todo s"; clarsimp simp: parser_step.simps split: if_splits)

lemma handler_step_smaller:
  assumes "parser_step s = None" and "handler_step s = Some t" and "prompt_inv s"
  shows "steps_left t < steps_left s"
  using blocked_parser [OF assms(1)] assms(2,3)
  by (elim disjE; cases "h_pc s"; cases "response_buf s";
      clarsimp simp: handler_step.simps steps_left_def prompt_inv_def in_step_def awaited_def pending_def
        before_loop_def split: if_splits)

lemma helpful_inv: "helpful_step s t \<Longrightarrow> prompt_inv s \<Longrightarrow> prompt_inv t"
  by (rule prompt_inv_step [OF helpful_is_prompt])

interpretation finishing: settling_system helpful_step prompt_inv steps_left
proof
  show "prompt_inv t" if "helpful_step s t" "prompt_inv s" for s t
    by (rule helpful_inv [OF that])
  show "steps_left t < steps_left s" if "helpful_step s t" "prompt_inv s" for s t
    using that by (auto simp: helpful_step_def intro: parser_step_smaller handler_step_smaller)
qed

lemma handler_blocked: "handler_step s = None \<Longrightarrow> h_pc s = H_Join \<or> h_pc s = H_Done"
  by (cases "h_pc s"; cases "response_buf s"; simp add: handler_step.simps split: if_splits)

lemma handler_joins: "h_pc s = H_Join \<Longrightarrow> p_pc s = P_Done \<Longrightarrow> handler_step s \<noteq> None"
  by (simp add: handler_step.simps)

lemma helpful_rest:
  assumes "at_rest helpful_step s" and "prompt_inv s"
  shows "h_pc s = H_Done \<and> p_pc s = P_Done"
proof -
  have "parser_step s = None"
    using assms(1) by (cases "parser_step s") (simp_all add: at_rest_def helpful_step_def)
  then have "handler_step s = None"
    using assms(1) by (cases "handler_step s") (simp_all add: at_rest_def helpful_step_def)
  moreover have "h_pc s = H_Join \<or> h_pc s = H_Done \<longrightarrow> p_pc s = P_Done"
    using assms(2) by (simp add: prompt_inv_def in_step_def)
  ultimately show ?thesis
    using handler_blocked [of s] handler_joins [of s] by blast
qed

lemma prompt_can_finish:
  assumes "prompt_inv s"
  shows "\<exists>t. prompt_step\<^sup>*\<^sup>* s t \<and> prompt_inv t \<and> h_pc t = H_Done \<and> p_pc t = P_Done"
proof -
  obtain t where t: "helpful_step\<^sup>*\<^sup>* s t" "at_rest helpful_step t"
    using finishing.comes_to_rest [OF assms] by blast
  from t(1) assms have inv: "prompt_inv t"
    by (induction rule: rtranclp_induct) (auto intro: helpful_inv)
  have "prompt_step\<^sup>*\<^sup>* s t"
    by (rule mono_rtranclp [rule_format, OF helpful_is_prompt t(1)])
  with helpful_rest [OF t(2) inv] inv show ?thesis by blast
qed

section \<open>Properties\<close>

text \<open>C19: A wake-up is lost only in one window: in the schedules in which the connection's thread does not
  move between the parser's test of a flag and its wait, every exchange, of however many replies, can end
  from wherever it has arrived, and one of at most two replies ends with all of them sent.\<close>

theorem prompt_exchange_can_end:
  assumes "prompt_reachable messages s" and "[] \<notin> set messages"
  shows "\<exists>t. prompt_step\<^sup>*\<^sup>* s t \<and> h_pc t = H_Done \<and> p_pc t = P_Done \<and>
    (length messages \<le> 2 \<longrightarrow> sent t = messages)"
proof -
  have "prompt_inv s"
    using prompt.reachable_inv [OF assms(1) [unfolded prompt_reachable_def]] assms(2) by simp
  then obtain t where t: "prompt_step\<^sup>*\<^sup>* s t" "h_pc t = H_Done" "p_pc t = P_Done"
    using prompt_can_finish by blast
  have "comm_reachable messages t"
    using prompt_reachable_comm [OF assms(1)] prompt_run [OF t(1)]
    unfolding comm_reachable_def by (rule reachable_run)
  with t two_delivered [of messages t] assms(2) show ?thesis by blast
qed

theorem prompt_exchange_can_end_witness:
  "\<exists>t. prompt_step\<^sup>*\<^sup>* (comm_start [''a'', ''b'']) t \<and> h_pc t = H_Done \<and> sent t = [''a'', ''b'']"
proof -
  have "prompt_reachable [''a'', ''b''] (comm_start [''a'', ''b''])"
    unfolding prompt_reachable_def by (rule reach_start) (rule refl)
  from prompt_exchange_can_end [OF this] show ?thesis by auto
qed

end
