(* ===== verification/Server_Threads.thy ===== *)
theory Server_Threads
  imports Server_Boot Connection Prompt_Exchange Spurious_Wakeups
begin

text \<open>
  The whole server at the grain of its threads: the pool of \<open>Worker_Pool\<close>, whose running task is not
  a single step but the two threads of \<open>Comm_Protocol\<close>, and what has been sent to each client. It refines
  the pool in which a task is one step (locale \<open>refining_system\<close>), so that what \<open>Connection\<close> shows of
  replies and store holds of it, and it shows what that pool cannot: what the clients have received at
  every moment. The properties are in \<open>Server_Progress\<close>.
\<close>

section \<open>State\<close>

type_synonym task = "int \<times> string"

text \<open>
  \<open>exchange\<close> is the state of the two threads of the task the pool is running, \<open>wire\<close> what has been sent, in
  order, with the descriptor it was sent to, \<open>ended\<close> the exception that ended the process.
\<close>

record server =
  tasks :: "(task, outcome) pool"
  exchange :: comm
  wire :: "(int \<times> string) list"
  ended :: "cpp_error option"

definition server_start :: "world \<Rightarrow> server" where
  "server_start w =
     \<lparr>tasks = pool_start (Inr (), w), exchange = comm_start [], wire = [], ended = None\<rparr>"

section \<open>Steps\<close>

text \<open>The replies one buffer gives rise to.\<close>

definition replies_to :: "nat \<Rightarrow> environment \<Rightarrow> int \<Rightarrow> string \<Rightarrow> world \<Rightarrow> string list" where
  "replies_to depth env fd input w =
     drop (length (replies w)) (replies (snd (serve_input depth env fd input w)))"

definition task_replies :: "nat \<Rightarrow> environment \<Rightarrow> task \<Rightarrow> outcome \<Rightarrow> string list" where
  "task_replies depth env t o1 = replies_to depth env (fst t) (snd t) (snd o1)"

definition newly_sent :: "int \<Rightarrow> comm \<Rightarrow> comm \<Rightarrow> (int \<times> string) list" where
  "newly_sent fd x y = map (Pair fd) (drop (length (sent x)) (sent y))"

text \<open>The parser's thread has enqueued all its replies.\<close>

definition replies_enqueued :: "comm \<Rightarrow> bool" where
  "replies_enqueued x \<longleftrightarrow> p_pc x = P_Next \<and> todo x = []"

text \<open>
  \<open>response_handler\<close>, in the worker that has taken the task: it creates the parser and its thread, the two
  threads move in any order, and it returns when its own thread has joined the other. The store is touched
  by the parser's thread alone and no other task runs meanwhile, so its changes appear with the return. An
  exception in the parser's thread, behind the replies it has enqueued, ends the process: nothing catches it.
  For an access the language leaves undefined, and for an exhausted stack, nothing is promised of what follows;
  the model stops there and records the error, which is no statement that the process ends. Where \<open>wakes\<close> is
  set, the parser's waits may also be woken spuriously.
\<close>

inductive response_handler :: "bool \<Rightarrow> nat \<Rightarrow> environment \<Rightarrow> server \<Rightarrow> server \<Rightarrow> bool"
  for wakes depth env where
  starts: "pool_work (run_task depth env) (tasks s) p \<Longrightarrow> running (tasks s) = [] \<Longrightarrow> running p = [t] \<Longrightarrow>
    response_handler wakes depth env s
      (s\<lparr>tasks := p, exchange := comm_start (task_replies depth env t (shared (tasks s)))\<rparr>)"
| handler_moves: "running (tasks s) = [t] \<Longrightarrow> handler_step (exchange s) = Some x \<Longrightarrow>
    response_handler wakes depth env s
      (s\<lparr>exchange := x, wire := wire s @ newly_sent (fst t) (exchange s) x\<rparr>)"
| parser_moves: "running (tasks s) = [t] \<Longrightarrow> parser_step (exchange s) = Some x \<Longrightarrow>
    (replies_enqueued (exchange s) \<longrightarrow> fst (run_task depth env t (shared (tasks s))) = Inr ()) \<Longrightarrow>
    response_handler wakes depth env s (s\<lparr>exchange := x\<rparr>)"
| parser_wakes: "wakes \<Longrightarrow> running (tasks s) = [t] \<Longrightarrow> spurious_step (exchange s) = Some x \<Longrightarrow>
    response_handler wakes depth env s (s\<lparr>exchange := x\<rparr>)"
| throws: "running (tasks s) = [t] \<Longrightarrow> replies_enqueued (exchange s) \<Longrightarrow>
    fst (run_task depth env t (shared (tasks s))) = Inl e \<Longrightarrow>
    response_handler wakes depth env s (s\<lparr>ended := Some e\<rparr>)"
| returns: "pool_work (run_task depth env) (tasks s) p \<Longrightarrow> running (tasks s) = [t] \<Longrightarrow> running p = [] \<Longrightarrow>
    h_pc (exchange s) = H_Done \<Longrightarrow>
    response_handler wakes depth env s (s\<lparr>tasks := p\<rparr>)"

text \<open>Everything else is a step of the pool in which the running task neither starts nor ends.\<close>

inductive server_step :: "bool \<Rightarrow> nat \<Rightarrow> environment \<Rightarrow> server \<Rightarrow> server \<Rightarrow> bool"
  for wakes depth env where
  around: "ended s = None \<Longrightarrow> pool_step (run_task depth env) (tasks s) p \<Longrightarrow>
    running p = running (tasks s) \<Longrightarrow> server_step wakes depth env s (s\<lparr>tasks := p\<rparr>)"
| inside: "ended s = None \<Longrightarrow> response_handler wakes depth env s t \<Longrightarrow> server_step wakes depth env s t"

inductive_cases response_handlerE: "response_handler wakes depth env s t"
inductive_cases server_stepE: "server_step wakes depth env s t"

definition server_reachable :: "bool \<Rightarrow> nat \<Rightarrow> environment \<Rightarrow> world \<Rightarrow> server \<Rightarrow> bool" where
  "server_reachable wakes depth env w s \<longleftrightarrow> reachable (\<lambda>s. s = server_start w) (server_step wakes depth env) s"

lemma server_reachable_step:
  "server_reachable wakes depth env w s \<Longrightarrow> server_step wakes depth env s t \<Longrightarrow> server_reachable wakes depth env w t"
  unfolding server_reachable_def by (rule reach_step)

section \<open>Refinement of the pool\<close>

lemma response_handler_refines:
  "response_handler wakes depth env s t \<Longrightarrow>
   pool_step (run_task depth env) (tasks s) (tasks t) \<or> tasks t = tasks s"
  by (induction rule: response_handler.induct) (simp_all add: pool_step_def)

interpretation threads: refining_system
  "\<lambda>s. s = server_start w" "server_step wakes depth env"
  "\<lambda>p. p = pool_start (Inr (), w)" "pool_step (run_task depth env)" tasks
  by unfold_locales
    (auto simp: server_start_def elim!: server_stepE dest: response_handler_refines)

lemma tasks_reachable:
  "server_reachable wakes depth env w s \<Longrightarrow> pool_reachable (run_task depth env) (Inr (), w) (tasks s)"
  unfolding server_reachable_def pool_reachable_def by (rule threads.reachable_refines)

section \<open>The running task\<close>

text \<open>What a step of the pool does to the task that runs: nothing, or it starts one, or it ends one.\<close>

definition still :: "('t, 'w) pool \<Rightarrow> ('t, 'w) pool \<Rightarrow> bool" where
  "still p q \<longleftrightarrow> completed q = completed p \<and> shared q = shared p"

lemma pool_work_running:
  assumes "pool_work run p q" and "lock_inv p"
  shows "still p q \<and> running q = running p \<or>
    still p q \<and> running p = [] \<and> (\<exists>t. running q = [t]) \<or>
    (\<exists>t. running p = [t] \<and> running q = [] \<and> completed q = completed p @ [t] \<and> shared q = run t (shared p))"
  using assms(1)
proof cases
  case (notify c i)
  with running_unowned [OF assms(2), of i] show ?thesis
    by (auto simp: still_def running_def split: option.splits)
next
  case (notify_none c)
  then show ?thesis by (auto simp: still_def running_def split: option.splits)
next
  case (acquire i)
  then show ?thesis by (auto simp: still_def running_def)
next
  case (sleep i)
  with owner_of_test [OF assms(2), of i] show ?thesis
    by (auto simp: still_def running_def)
next
  case (take_task i t ts)
  with owner_of_test [OF assms(2), of i] show ?thesis
    by (auto simp: still_def running_def)
next
  case (finish i t)
  with owner_of_test [OF assms(2), of i] show ?thesis
    by (auto simp: still_def running_def)
qed

lemma pool_others_running:
  "pool_arrival p q \<or> pool_spurious p q \<Longrightarrow> lock_inv p \<Longrightarrow> running q = running p \<and> still p q"
proof (elim disjE)
  assume "pool_arrival p q"
  then show ?thesis
    by cases (auto simp: still_def running_def split: option.splits)
next
  assume "pool_spurious p q" and inv: "lock_inv p"
  then show ?thesis
  proof cases
    case (spurious i)
    with running_unowned [OF inv, of i] show ?thesis
      by (auto simp: still_def running_def split: option.splits)
  qed
qed

lemma pool_step_running:
  assumes "pool_step run p q" and "lock_inv p"
  shows "still p q \<and> running q = running p \<or>
    still p q \<and> running p = [] \<and> (\<exists>t. running q = [t]) \<or>
    (\<exists>t. running p = [t] \<and> running q = [] \<and> completed q = completed p @ [t] \<and> shared q = run t (shared p))"
  using assms(1) pool_others_running [OF _ assms(2)] pool_work_running [OF _ assms(2)]
  unfolding pool_step_def by blast

lemma enqueued_grows: "pool_step run p q \<Longrightarrow> \<exists>ts. enqueued q = enqueued p @ ts"
  unfolding pool_step_def by (elim disjE pool_arrivalE pool_spuriousE pool_workE) auto


section \<open>What the clients have received\<close>

text \<open>A property of every task in turn, with the outcome of the tasks before it.\<close>

fun along :: "nat \<Rightarrow> environment \<Rightarrow> (task \<Rightarrow> outcome \<Rightarrow> bool) \<Rightarrow> task list \<Rightarrow> outcome \<Rightarrow> bool" where
  "along depth env P [] o1 = True"
| "along depth env P (t # ts) o1 = (P t o1 \<and> along depth env P ts (run_task depth env t o1))"

fun wire_of :: "nat \<Rightarrow> environment \<Rightarrow> task list \<Rightarrow> outcome \<Rightarrow> (int \<times> string) list" where
  "wire_of depth env [] o1 = []"
| "wire_of depth env (t # ts) o1 =
     map (Pair (fst t)) (task_replies depth env t o1) @ wire_of depth env ts (run_task depth env t o1)"

lemma along_append:
  "along depth env P (ts @ us) o1 \<longleftrightarrow>
     along depth env P ts o1 \<and> along depth env P us (fold (run_task depth env) ts o1)"
  by (induction ts arbitrary: o1) auto

lemma wire_of_append:
  "wire_of depth env (ts @ us) o1 =
     wire_of depth env ts o1 @ wire_of depth env us (fold (run_task depth env) ts o1)"
  by (induction ts arbitrary: o1) auto

lemma along_mono:
  "along depth env P ts o1 \<Longrightarrow> (\<And>t o1. P t o1 \<Longrightarrow> Q t o1) \<Longrightarrow> along depth env Q ts o1"
  by (induction ts arbitrary: o1) auto

text \<open>A task that ends without an exception and has at most one reply, so that not even a spurious wake-up
  loses it.\<close>

definition short_task :: "nat \<Rightarrow> environment \<Rightarrow> task \<Rightarrow> outcome \<Rightarrow> bool" where
  "short_task depth env t o1 \<longleftrightarrow>
     fst (run_task depth env t o1) = Inr () \<and>
     [] \<notin> set (task_replies depth env t o1) \<and> length (task_replies depth env t o1) \<le> 1"

definition exchange_ok :: "nat \<Rightarrow> environment \<Rightarrow> outcome \<Rightarrow> server \<Rightarrow> bool" where
  "exchange_ok depth env o1 s \<longleftrightarrow> ended s = None \<and>
     (case running (tasks s) of
        [] \<Rightarrow> wire s = wire_of depth env (completed (tasks s)) o1
      | t # ts \<Rightarrow>
          one_inv (task_replies depth env t (shared (tasks s))) (exchange s) \<and>
          wire s = wire_of depth env (completed (tasks s)) o1 @ map (Pair (fst t)) (sent (exchange s)))"

lemma exchange_ok_idle:
  "running (tasks s) = [] \<Longrightarrow> exchange_ok depth env o1 s \<longleftrightarrow>
     ended s = None \<and> wire s = wire_of depth env (completed (tasks s)) o1"
  by (simp add: exchange_ok_def)

lemma exchange_ok_busy:
  "running (tasks s) = [t] \<Longrightarrow> exchange_ok depth env o1 s \<longleftrightarrow>
     ended s = None \<and> one_inv (task_replies depth env t (shared (tasks s))) (exchange s) \<and>
     wire s = wire_of depth env (completed (tasks s)) o1 @ map (Pair (fst t)) (sent (exchange s))"
  by (simp add: exchange_ok_def)

definition wire_inv :: "nat \<Rightarrow> environment \<Rightarrow> outcome \<Rightarrow> server \<Rightarrow> bool" where
  "wire_inv depth env o1 s \<longleftrightarrow>
     lock_inv (tasks s) \<and> serial_inv (run_task depth env) o1 (tasks s) \<and>
     (along depth env (short_task depth env) (enqueued (tasks s)) o1 \<longrightarrow> exchange_ok depth env o1 s)"

lemma sent_handler: "handler_step x = Some y \<Longrightarrow> \<exists>ms. sent y = sent x @ ms"
  by (cases "h_pc x"; auto simp: handler_step.simps split: list.splits if_splits)

lemma sent_parser: "parser_step x = Some y \<Longrightarrow> sent y = sent x"
  by (cases "p_pc x"; auto simp: parser_step.simps split: list.splits if_splits)

lemma sent_spurious: "spurious_step x = Some y \<Longrightarrow> sent y = sent x"
  by (cases "p_pc x"; auto simp: spurious_step.simps)

text \<open>The running task is one of those enqueued.\<close>

lemma running_along:
  assumes "serial_inv (run_task depth env) o1 p" and "running p = [t]"
    and "along depth env P (enqueued p) o1"
  shows "P t (shared p)"
proof -
  have "enqueued p = completed p @ t # task_queue p" "shared p = fold (run_task depth env) (completed p) o1"
    using assms(1,2) by (simp_all add: serial_inv_def)
  with assms(3) show ?thesis
    by (simp add: along_append)
qed

lemma exchange_handler:
  assumes "response_handler wakes depth env s t" and "exchange_ok depth env o1 s"
    and "lock_inv (tasks s)" and "serial_inv (run_task depth env) o1 (tasks s)"
    and "along depth env (short_task depth env) (enqueued (tasks s)) o1"
  shows "exchange_ok depth env o1 t"
  using assms(1)
proof cases
  case (starts p u)
  then have still: "still (tasks s) p"
    using pool_work_running [OF starts(2) assms(3)] by auto
  have "serial_inv (run_task depth env) o1 p" "enqueued p = enqueued (tasks s)"
    using serial_inv_work [OF starts(2) assms(3,4)] pool_work_enqueued [OF r_into_rtranclp [of "pool_work _", OF starts(2)]]
    by auto
  with running_along [OF _ starts(4)] assms(5) still have
    "length (task_replies depth env u (shared (tasks s))) \<le> 1"
    by (metis short_task_def still_def)
  with still starts(1,3,4) assms(2) one_inv_start show ?thesis
    by (simp add: exchange_ok_idle exchange_ok_busy still_def) (simp add: comm_start_def)
next
  case (handler_moves u x)
  then obtain ms where ms: "sent x = sent (exchange s) @ ms"
    using sent_handler by blast
  have "[] \<notin> set (task_replies depth env u (shared (tasks s)))"
    using running_along [OF assms(4) handler_moves(2) assms(5)] by (simp add: short_task_def)
  with ms handler_moves assms(2) show ?thesis
    by (auto simp: exchange_ok_busy newly_sent_def intro: one_inv_steps(1))
next
  case (parser_moves u x)
  with sent_parser [OF parser_moves(3)] assms(2) show ?thesis
    by (auto simp: exchange_ok_busy intro: one_inv_steps(2))
next
  case (parser_wakes u x)
  with sent_spurious [OF parser_wakes(4)] assms(2) show ?thesis
    by (auto simp: exchange_ok_busy intro: one_inv_steps(3))
next
  case (throws u e)
  with running_along [OF assms(4) throws(2) assms(5)] show ?thesis
    by (simp add: short_task_def)
next
  case (returns p u)
  then have end_of: "completed p = completed (tasks s) @ [u]"
    using pool_work_running [OF returns(2) assms(3)] by auto
  have "sent (exchange s) = task_replies depth env u (shared (tasks s))"
    using one_inv_ended [of "task_replies depth env u (shared (tasks s))" "exchange s"] returns(3,5) assms(2)
    by (simp add: exchange_ok_busy)
  with returns(1,3,4) end_of assms(2,4) show ?thesis
    by (simp add: exchange_ok_idle exchange_ok_busy wire_of_append serial_inv_def)
qed

lemma wire_inv_step:
  assumes "server_step wakes depth env s t" and "wire_inv depth env o1 s"
  shows "wire_inv depth env o1 t"
proof -
  have pool: "pool_step (run_task depth env) (tasks s) (tasks t) \<or> tasks t = tasks s"
    by (rule threads.step_refines [OF assms(1)])
  then have "lock_inv (tasks t)" "serial_inv (run_task depth env) o1 (tasks t)"
    using assms(2) lock_inv_step serial_inv_step unfolding wire_inv_def by metis+
  moreover have "exchange_ok depth env o1 t"
    if "along depth env (short_task depth env) (enqueued (tasks t)) o1"
  proof -
    from pool have "\<exists>ts. enqueued (tasks t) = enqueued (tasks s) @ ts"
      using enqueued_grows by (metis append_Nil2)
    with that have short: "along depth env (short_task depth env) (enqueued (tasks s)) o1"
      by (auto simp: along_append)
    from assms(1) show ?thesis
    proof cases
      case (around p)
      with pool_step_running [OF around(3)] assms(2) short show ?thesis
        by (auto simp: wire_inv_def exchange_ok_def still_def split: list.split)
    next
      case inside
      with exchange_handler [OF inside(2)] assms(2) short show ?thesis
        by (simp add: wire_inv_def)
    qed
  qed
  ultimately show ?thesis
    by (simp add: wire_inv_def)
qed

interpretation wires: invariant_system "\<lambda>s. s = server_start w" "server_step wakes depth env"
  "wire_inv depth env (Inr (), w)"
proof
  show "wire_inv depth env (Inr (), w) s" if "s = server_start w" for s
    using that by (simp add: wire_inv_def exchange_ok_def server_start_def pool_start_def lock_inv_def
        serial_inv_def running_def)
qed (rule wire_inv_step)

lemmas wire_invariant = wires.reachable_inv [folded server_reachable_def]


section \<open>Requests of the abstract server\<close>

lemma create_string_nonempty: "value_reply v \<noteq> []" "NULL_RESPONSE \<noteq> []" "OK_RESPONSE \<noteq> []"
  "PING_RESPONSE \<noteq> []"
  by (simp_all add: value_reply_def NULL_RESPONSE_def OK_RESPONSE_def PING_RESPONSE_def)

lemma spec_reply_nonempty: "spec_serve q m c = (r, m', c') \<Longrightarrow> r \<noteq> []"
  by (cases q) (auto simp: create_string_nonempty split: option.splits if_splits)

definition one_reply :: "nat \<Rightarrow> environment \<Rightarrow> task \<Rightarrow> outcome \<Rightarrow> bool" where
  "one_reply depth env t o1 \<longleftrightarrow>
     fst (run_task depth env t o1) = Inr () \<and>
     length (task_replies depth env t o1) = 1 \<and> [] \<notin> set (task_replies depth env t o1)"

lemma one_reply_short: "one_reply depth env t o1 \<Longrightarrow> short_task depth env t o1"
  by (simp add: one_reply_def short_task_def)

lemma one_reply_length:
  "along depth env (one_reply depth env) ts o1 \<Longrightarrow> length (wire_of depth env ts o1) = length ts"
  by (induction ts arbitrary: o1) (auto simp: one_reply_def)

definition request_task :: "int \<times> request \<Rightarrow> task" where
  "request_task = (\<lambda>(fd, q). (fd, request_bytes q))"

lemma requests_along:
  "session_ok (map snd tqs) (store_of (db_handler w)) (clk w) \<Longrightarrow> db_inv (db_handler w) \<Longrightarrow>
   spec_serve_all (map snd tqs) (store_of (db_handler w)) (clk w) = (rs, m, c) \<Longrightarrow>
   along (Suc d) env (one_reply (Suc d) env) (map request_task tqs) (Inr (), w) \<and>
   wire_of (Suc d) env (map request_task tqs) (Inr (), w) = zip (map fst tqs) rs"
proof (induction tqs arbitrary: w rs m c)
  case (Cons t tqs)
  obtain fd q where t: "t = (fd, q)" by fastforce
  obtain r m1 c1 where 1: "spec_serve q (store_of (db_handler w)) (clk w) = (r, m1, c1)"
    by (rule prod_cases3)
  obtain rs1 m2 c2 where 2: "spec_serve_all (map snd tqs) m1 c1 = (rs1, m2, c2)"
    by (rule prod_cases3)
  from serve_input_request [OF _ Cons.prems(2) 1, of d env fd] Cons.prems(1) t obtain w1 where
    3: "serve_input (Suc d) env fd (request_bytes q) w = (Inr (), w1)"
       "replies w1 = replies w @ [r]" "world_view w1 = (m1, c1)" "db_inv (db_handler w1)"
    by auto
  from 3(3) have "along (Suc d) env (one_reply (Suc d) env) (map request_task tqs) (Inr (), w1) \<and>
      wire_of (Suc d) env (map request_task tqs) (Inr (), w1) = zip (map fst tqs) rs1"
    using Cons.IH [of w1 rs1 m2 c2] 3(4) Cons.prems(1) 1 2 t by (auto simp: world_view_def)
  moreover have head: "run_task (Suc d) env (request_task t) (Inr (), w) = (Inr (), w1)"
    "task_replies (Suc d) env (request_task t) (Inr (), w) = [r]" "fst (request_task t) = fd"
    using 3 t by (simp_all add: task_replies_def replies_to_def run_task_def request_task_def)
  moreover have "one_reply (Suc d) env (request_task t) (Inr (), w)"
    using head spec_reply_nonempty [OF 1] by (simp add: one_reply_def)
  ultimately show ?case
    using 1 2 Cons.prems(3) t by auto
qed simp

text \<open>What is on the wire is a beginning of the replies to the tasks enqueued, and all to the completed.\<close>

lemma wire_is_prefix:
  assumes "server_reachable wakes depth env w s"
    and "along depth env (one_reply depth env) (enqueued (tasks s)) (Inr (), w)"
  defines "n \<equiv> length (wire s)" and "k \<equiv> length (completed (tasks s))"
  shows "ended s = None \<and> k \<le> n \<and> n \<le> Suc k \<and>
    wire s = take n (wire_of depth env (enqueued (tasks s)) (Inr (), w))"
proof -
  let ?o = "(Inr (), w) :: outcome"
  have inv: "serial_inv (run_task depth env) ?o (tasks s)" "exchange_ok depth env ?o s" "lock_inv (tasks s)"
    using wire_invariant [OF assms(1)] along_mono [OF assms(2) one_reply_short]
    by (simp_all add: wire_inv_def)
  have queue: "enqueued (tasks s) = completed (tasks s) @ running (tasks s) @ task_queue (tasks s)"
    and shared: "shared (tasks s) = fold (run_task depth env) (completed (tasks s)) ?o"
    using inv(1) by (simp_all add: serial_inv_def)
  have len: "length (wire_of depth env (completed (tasks s)) ?o) = k"
    using assms(2) unfolding k_def queue by (intro one_reply_length) (simp add: along_append)
  show ?thesis
  proof (cases "running (tasks s)")
    case Nil
    with inv(2) len show ?thesis
      by (simp add: exchange_ok_idle n_def queue wire_of_append)
  next
    case (Cons t ts)
    then have t: "running (tasks s) = [t]"
      by (auto simp: running_def split: option.splits worker_pc.splits)
    have one: "one_reply depth env t (shared (tasks s))"
      using assms(2) by (simp add: queue shared t along_append)
    from inv(2) t have busy: "ended s = None"
      "one_inv (task_replies depth env t (shared (tasks s))) (exchange s)"
      "wire s = wire_of depth env (completed (tasks s)) ?o @ map (Pair (fst t)) (sent (exchange s))"
      by (simp_all add: exchange_ok_busy)
    from busy(2) obtain rest where
      rest: "task_replies depth env t (shared (tasks s)) = sent (exchange s) @ rest"
      unfolding one_inv_def conserves_def by metis
    with one have "length (sent (exchange s)) \<le> 1"
      by (simp add: one_reply_def)
    with busy len rest show ?thesis
      by (simp add: n_def queue t wire_of_append flip: shared)
  qed
qed

end
