(* ===== verification/Server_Progress.thy ===== *)
theory Server_Progress
  imports Server_Threads Array_Requests
begin

text \<open>
  What the server of \<open>Server_Threads\<close> can still do: as long as no wake-up is lost it can answer everything; one
  lost wake-up, or one exception in a parser's thread, ends all service. Runs of the two threads of a task are
  lifted to runs of the server (\<open>moved_run\<close>).
\<close>

section \<open>Schedules of the two threads\<close>

text \<open>The steps of the server in which the threads of the running task move as \<open>R\<close> allows.\<close>

definition under :: "(comm \<Rightarrow> comm \<Rightarrow> bool) \<Rightarrow> nat \<Rightarrow> environment \<Rightarrow> server \<Rightarrow> server \<Rightarrow> bool" where
  "under R depth env s t \<longleftrightarrow> server_step False depth env s t \<and>
     (running (tasks s) \<noteq> [] \<longrightarrow> exchange t = exchange s \<or> R (exchange s) (exchange t))"

lemma under_run: "(under R depth env)\<^sup>*\<^sup>* s t \<Longrightarrow> (server_step False depth env)\<^sup>*\<^sup>* s t"
  by (erule mono_rtranclp [rule_format, rotated]) (simp add: under_def)

lemma newly_sent_nothing [simp]: "newly_sent fd x x = []"
  by (simp add: newly_sent_def)

lemma newly_sent_trans:
  assumes "sent y = sent x @ ms" and "comm_step y z"
  shows "newly_sent fd x z = newly_sent fd x y @ newly_sent fd y z" and "\<exists>ms. sent z = sent x @ ms"
proof -
  obtain ms' where "sent z = sent y @ ms'"
    using assms(2) sent_handler sent_parser unfolding comm_step_def by (metis append_Nil2)
  with assms(1) show "newly_sent fd x z = newly_sent fd x y @ newly_sent fd y z" "\<exists>ms. sent z = sent x @ ms"
    by (simp_all add: newly_sent_def)
qed

definition moved :: "task \<Rightarrow> comm \<Rightarrow> server \<Rightarrow> server" where
  "moved t y s = s\<lparr>exchange := y, wire := wire s @ newly_sent (fst t) (exchange s) y\<rparr>"

lemma moved_simps [simp]:
  "tasks (moved t y s) = tasks s" "exchange (moved t y s) = y" "ended (moved t y s) = ended s"
  "moved t (exchange s) s = s"
  by (simp_all add: moved_def)

lemma moved_step:
  assumes "ended s = None" and "running (tasks s) = [t]" and "comm_step (exchange s) y"
    and "fst (run_task depth env t (shared (tasks s))) = Inr ()"
  shows "server_step False depth env s (moved t y s)"
  using assms(3) unfolding comm_step_def
proof
  assume "handler_step (exchange s) = Some y"
  with assms(1,2) show ?thesis
    by (auto simp: moved_def intro: inside handler_moves)
next
  assume y: "parser_step (exchange s) = Some y"
  then have "moved t y s = s\<lparr>exchange := y\<rparr>"
    using sent_parser [OF y] by (simp add: moved_def newly_sent_def)
  with assms(1,2,4) y show ?thesis
    by (auto intro: inside parser_moves)
qed

lemma moved_run:
  assumes "ended s = None" and "running (tasks s) = [t]"
    and "fst (run_task depth env t (shared (tasks s))) = Inr ()"
    and "R\<^sup>*\<^sup>* (exchange s) y" and "\<And>x y. R x y \<Longrightarrow> comm_step x y"
  shows "(under R depth env)\<^sup>*\<^sup>* s (moved t y s)"
proof -
  from assms(4) have "(under R depth env)\<^sup>*\<^sup>* s (moved t y s) \<and> (\<exists>ms. sent y = sent (exchange s) @ ms)"
  proof (induction rule: rtranclp_induct)
    case (step y z)
    then obtain ms where ms: "sent y = sent (exchange s) @ ms" by blast
    note yz = newly_sent_trans [OF ms assms(5) [OF step.hyps(2)]]
    have "moved t z (moved t y s) = moved t z s"
      by (simp add: moved_def yz(1))
    then have "under R depth env (moved t y s) (moved t z s)"
      using moved_step [of "moved t y s" t z depth env] assms(1-3,5) step.hyps(2)
      by (simp add: under_def)
    with step.IH yz(2) show ?case
      by (blast intro: rtranclp.rtrancl_into_rtrancl)
  qed simp
  then show ?thesis by blast
qed

section \<open>A lost wake-up\<close>

definition hanging :: "parser_pc \<Rightarrow> string list \<Rightarrow> task \<Rightarrow> task list \<Rightarrow> outcome \<Rightarrow> (int \<times> string) list \<Rightarrow>
    server \<Rightarrow> bool" where
  "hanging p messages t done_tasks o1 out s \<longleftrightarrow>
     ended s = None \<and> lock_inv (tasks s) \<and> running (tasks s) = [t] \<and> stuck p messages (exchange s) \<and>
     completed (tasks s) = done_tasks \<and> shared (tasks s) = o1 \<and> wire s = out"

lemma stuck_step: "stuck p messages x \<Longrightarrow> comm_step x y \<Longrightarrow> stuck p messages y"
  by (rule stuck.inv_step)

lemma stuck_facts:
  "stuck p messages x \<Longrightarrow> sent x = messages" "stuck p messages x \<Longrightarrow> h_pc x \<noteq> H_Done"
  "stuck p messages x \<Longrightarrow> \<not> replies_enqueued x" "stuck p messages x \<Longrightarrow> parser_step x = None"
  by (auto simp: stuck_def replies_enqueued_def parser_step.simps)

lemma hanging_step:
  assumes "server_step False depth env s u" and "hanging p messages t ts o1 out s"
  shows "hanging p messages t ts o1 out u"
  using assms(1)
proof cases
  case (around q)
  with assms(2) pool_step_running [OF around(3)] lock_inv_step [OF around(3)] show ?thesis
    by (auto simp: hanging_def still_def)
next
  case inside
  note hang = assms(2) [unfolded hanging_def]
  from inside(2) show ?thesis
  proof cases
    case (handler_moves u x)
    then have "stuck p messages x"
      using hang stuck_step [of p messages "exchange s" x] by (simp add: comm_step_def)
    with handler_moves hang stuck_facts(1) [of p messages] show ?thesis
      by (simp add: hanging_def newly_sent_def)
  qed (use hang stuck_facts [of p messages "exchange s"] in auto)
qed

interpretation hanging: invariant_system "hanging p messages t ts o1 out" "server_step False depth env"
  "hanging p messages t ts o1 out"
  by unfold_locales (auto intro: hanging_step)


lemma can_hang:
  assumes "server_reachable False depth env w s" and "ended s = None" and "running (tasks s) = [t]"
    and "exchange s = comm_start ms" and "fst (run_task depth env t (shared (tasks s))) = Inr ()"
    and "comm_step\<^sup>*\<^sup>* (comm_start ms) y" and "stuck p messages y"
  shows "\<exists>u. (server_step False depth env)\<^sup>*\<^sup>* s u \<and> (\<forall>v. (server_step False depth env)\<^sup>*\<^sup>* u v \<longrightarrow> ended v = None \<and>
      completed (tasks v) = completed (tasks s) \<and> wire v = wire s @ map (Pair (fst (t :: task))) messages)"
proof -
  let ?u = "moved t y s"
  have "(server_step False depth env)\<^sup>*\<^sup>* s ?u"
    using assms(4,6) by (intro under_run moved_run [OF assms(2,3,5)]) simp_all
  moreover have "lock_inv (tasks s)"
    using wire_invariant [OF assms(1)] by (simp add: wire_inv_def)
  then have "hanging p messages t (completed (tasks s)) (shared (tasks s)) (wire s @ map (Pair (fst t)) messages) ?u"
    using assms(2,3,4,7) stuck_facts(1) [OF assms(7)]
    by (simp add: hanging_def moved_def newly_sent_def comm_start_def)
  then have "hanging p messages t (completed (tasks s)) (shared (tasks s)) (wire s @ map (Pair (fst t)) messages) v"
    if "(server_step False depth env)\<^sup>*\<^sup>* ?u v" for v
    by (rule hanging.run_inv [OF that])
  ultimately show ?thesis
    by (intro exI [of _ ?u]) (auto simp: hanging_def)
qed


section \<open>An exception\<close>

text \<open>A run of the two threads either lifts to the server or first comes to where the parser has enqueued its
  replies, which is where the exception is thrown.\<close>

lemma run_until_enqueued:
  assumes "comm_step\<^sup>*\<^sup>* (exchange s) y" and "ended s = None" and "running (tasks s) = [t]"
  shows "\<exists>z. (server_step wakes depth env)\<^sup>*\<^sup>* s (moved t z s) \<and> (\<exists>ms. sent z = sent (exchange s) @ ms) \<and>
    (z = y \<or> replies_enqueued z)"
  using assms(1)
proof (induction rule: rtranclp_induct)
  case base
  show ?case
    by (intro exI [of _ "exchange s"]) simp
next
  case (step y z)
  then obtain x where x: "(server_step wakes depth env)\<^sup>*\<^sup>* s (moved t x s)" "\<exists>ms. sent x = sent (exchange s) @ ms"
    "x = y \<or> replies_enqueued x" by blast
  show ?case
  proof (cases "replies_enqueued x")
    case False
    with x(3) have xz: "comm_step x z"
      using step.hyps(2) by simp
    obtain ms where ms: "sent x = sent (exchange s) @ ms"
      using x(2) by blast
    note new = newly_sent_trans [OF ms xz]
    have "server_step wakes depth env (moved t x s) (moved t z (moved t x s))"
      using xz unfolding comm_step_def
    proof
      assume "handler_step x = Some z"
      with assms(2,3) show ?thesis
        using handler_moves [of "moved t x s" t z wakes depth env] by (simp add: inside moved_def)
    next
      assume z: "parser_step x = Some z"
      then have "moved t z (moved t x s) = (moved t x s)\<lparr>exchange := z\<rparr>"
        using sent_parser [OF z] by (simp add: moved_def newly_sent_def)
      with z False assms(2,3) show ?thesis
        using parser_moves [of "moved t x s" t z depth env] by (simp add: inside)
    qed
    moreover have "moved t z (moved t x s) = moved t z s"
      by (simp add: moved_def new(1))
    ultimately show ?thesis
      using x(1) new(2) by (intro exI [of _ z]) (simp add: rtranclp.rtrancl_into_rtrancl)
  qed (use x in blast)
qed

lemma can_enqueue_all:
  assumes "[] \<notin> set messages"
  shows "\<exists>y. comm_step\<^sup>*\<^sup>* (comm_start messages) y \<and> replies_enqueued y"
proof -
  obtain ts where ts: "run_schedule ts (waiting_state [] messages) = Some (waiting_state messages [])"
    using all_rounds_send [OF assms, of "[]"] by auto
  from run_schedule_append [OF first_steps_wait, of ts] ts have
    "run_schedule (first_steps @ ts) (comm_start messages) = Some (waiting_state messages [])" by simp
  from run_schedule_steps [OF this] show ?thesis
    by (intro exI [of _ "waiting_state messages []"])
      (simp add: replies_enqueued_def waiting_state_def comm_start_def)
qed

text \<open>The threads of a task that throws never come to their ends.\<close>

definition doomed :: "nat \<Rightarrow> environment \<Rightarrow> task \<Rightarrow> cpp_error \<Rightarrow> task list \<Rightarrow> outcome \<Rightarrow> server \<Rightarrow> bool" where
  "doomed depth env t e done_tasks o1 s \<longleftrightarrow>
     (ended s = None \<or> ended s = Some e) \<and> lock_inv (tasks s) \<and> running (tasks s) = [t] \<and>
     ending_inv (exchange s) \<and> p_pc (exchange s) \<noteq> P_Over \<and> p_pc (exchange s) \<noteq> P_Done \<and>
     completed (tasks s) = done_tasks \<and> shared (tasks s) = o1 \<and> fst (run_task depth env t o1) = Inl e"

lemma parser_over:
  "parser_step x = Some y \<Longrightarrow> \<not> replies_enqueued x \<Longrightarrow> p_pc x \<noteq> P_Over \<Longrightarrow>
   p_pc y \<noteq> P_Over \<and> p_pc y \<noteq> P_Done"
  by (cases "p_pc x"; cases "todo x";
      clarsimp simp: parser_step.simps replies_enqueued_def split: if_splits)

lemma handler_over:
  "handler_step x = Some y \<Longrightarrow> p_pc x \<noteq> P_Over \<Longrightarrow> p_pc x \<noteq> P_Done \<Longrightarrow>
   p_pc y \<noteq> P_Over \<and> p_pc y \<noteq> P_Done"
  by (cases "h_pc x"; cases "response_buf x"; clarsimp simp: handler_step.simps split: if_splits)

lemma spurious_over:
  "spurious_step x = Some y \<Longrightarrow> p_pc y \<noteq> P_Over \<and> p_pc y \<noteq> P_Done"
  by (cases "p_pc x"; clarsimp simp: spurious_step.simps)

lemma doomed_step:
  assumes "server_step wakes depth env s u" and "doomed depth env t e ts o1 s"
  shows "doomed depth env t e ts o1 u"
  using assms(1)
proof cases
  case (around q)
  with assms(2) pool_step_running [OF around(3)] lock_inv_step [OF around(3)] show ?thesis
    by (auto simp: doomed_def still_def)
next
  case inside
  note doom = assms(2) [unfolded doomed_def]
  from inside(2) show ?thesis
  proof cases
    case (handler_moves v x)
    with doom handler_over [OF handler_moves(3)] ending_inv_steps(1) [OF handler_moves(3)] show ?thesis
      by (simp add: doomed_def)
  next
    case (parser_moves v x)
    with doom parser_over [OF parser_moves(3)] ending_inv_steps(2) [OF parser_moves(3)] show ?thesis
      by (simp add: doomed_def)
  next
    case (parser_wakes v x)
    with doom spurious_over [OF parser_wakes(4)] ending_inv_steps(3) [OF parser_wakes(4)] show ?thesis
      by (simp add: doomed_def)
  next
    case (returns p v)
    with doom show ?thesis
      by (auto simp: ending_inv_def)
  qed (use doom in \<open>auto simp: doomed_def\<close>)
qed

interpretation doomed: invariant_system "doomed depth env t e ts o1" "server_step wakes depth env"
  "doomed depth env t e ts o1"
  by unfold_locales (auto intro: doomed_step)

section \<open>Serving everything\<close>

definition prompt_server :: "nat \<Rightarrow> environment \<Rightarrow> server \<Rightarrow> server \<Rightarrow> bool" where
  "prompt_server depth env = under prompt_step depth env"

definition prompt_server_reachable :: "nat \<Rightarrow> environment \<Rightarrow> world \<Rightarrow> server \<Rightarrow> bool" where
  "prompt_server_reachable depth env w s \<longleftrightarrow> reachable (\<lambda>s. s = server_start w) (prompt_server depth env) s"

lemma prompt_server_is_step: "prompt_server depth env s t \<Longrightarrow> server_step False depth env s t"
  by (simp add: prompt_server_def under_def)

lemma prompt_server_reachable_server:
  "prompt_server_reachable depth env w s \<Longrightarrow> server_reachable False depth env w s"
  unfolding prompt_server_reachable_def server_reachable_def
  by (induction rule: reachable.induct) (auto intro: reach_start reach_step prompt_server_is_step)

text \<open>The first task a server is given can be running with its two threads about to start.\<close>

definition just_taken :: "nat \<Rightarrow> environment \<Rightarrow> (task, outcome) pool \<Rightarrow> server" where
  "just_taken depth env p =
     \<lparr>tasks = p,
      exchange = (case running p of [] \<Rightarrow> comm_start [] | t # ts \<Rightarrow> comm_start (task_replies depth env t (shared p))),
      wire = [], ended = None\<rparr>"

lemma just_taken_step:
  assumes "pool_step (run_task depth env) p q" and "lock_inv p" and "completed q = []"
  shows "prompt_server depth env (just_taken depth env p) (just_taken depth env q)"
proof -
  let ?s = "just_taken depth env p"
  consider "running q = running p" "still p q" | t where "running p = []" "running q = [t]" "still p q"
    using pool_step_running [OF assms(1,2)] assms(3) by auto
  then show ?thesis
  proof cases
    case 1
    then have "just_taken depth env q = ?s\<lparr>tasks := q\<rparr>"
      by (simp add: just_taken_def still_def split: list.split)
    with around [of ?s depth env q] 1(1) assms(1) show ?thesis
      by (simp add: just_taken_def prompt_server_def under_def)
  next
    case 2
    then have "pool_work (run_task depth env) p q"
      using assms(1) pool_others_running [OF _ assms(2), of q] by (auto simp: pool_step_def)
    moreover have "just_taken depth env q =
        ?s\<lparr>tasks := q, exchange := comm_start (task_replies depth env t (shared (tasks ?s)))\<rparr>"
      using 2 by (simp add: just_taken_def still_def)
    ultimately show ?thesis
      using 2 starts [of depth env ?s q t] inside [of ?s False depth env]
      by (simp add: just_taken_def prompt_server_def under_def)
  qed
qed

lemma just_taken_reachable:
  "pool_reachable (run_task depth env) (Inr (), w) p \<Longrightarrow> completed p = [] \<Longrightarrow>
   prompt_server_reachable depth env w (just_taken depth env p)"
  unfolding pool_reachable_def
proof (induction rule: reachable.induct)
  case (reach_start p)
  then have "just_taken depth env p = server_start w"
    by (simp add: just_taken_def server_start_def pool_start_def running_def)
  then show ?case
    unfolding prompt_server_reachable_def by (simp add: reachable.reach_start)
next
  case (reach_step p q)
  have "lock_inv p"
    using pool_invariants [of "run_task depth env" "(Inr (), w)" p] reach_step.hyps(1)
    by (simp add: pool_reachable_def)
  moreover from pool_step_running [OF reach_step.hyps(2) this] reach_step.prems have "completed p = []"
    by (auto simp: still_def)
  ultimately show ?case
    using reach_step.IH just_taken_step [OF reach_step.hyps(2)] reach_step.prems
    unfolding prompt_server_reachable_def by (blast intro: reachable.reach_step)
qed


text \<open>Between two steps that start a task, the threads of the running one keep the invariant of \<open>Prompt_Exchange\<close>.\<close>

definition prompt_task :: "server \<Rightarrow> bool" where
  "prompt_task s \<longleftrightarrow> lock_inv (tasks s) \<and> (running (tasks s) \<noteq> [] \<longrightarrow> prompt_inv (exchange s))"

lemma prompt_task_step:
  assumes "prompt_server depth env s t" and "prompt_task s"
    and "\<And>u. running (tasks t) = [u] \<Longrightarrow> [] \<notin> set (task_replies depth env u (shared (tasks t)))"
  shows "prompt_task t"
proof -
  have step: "server_step False depth env s t"
    using assms(1) by (rule prompt_server_is_step)
  have inv: "lock_inv (tasks t)"
    using threads.step_refines [OF step] lock_inv_step assms(2) unfolding prompt_task_def by metis
  show ?thesis
  proof (cases "running (tasks s)")
    case (Cons u us)
    then have "exchange t = exchange s \<or> prompt_step (exchange s) (exchange t)"
      using assms(1) by (simp add: prompt_server_def under_def)
    with Cons assms(2) inv show ?thesis
      by (auto simp: prompt_task_def intro: prompt_inv_step)
  next
    case Nil
    from step show ?thesis
    proof cases
      case (around p)
      with inv Nil show ?thesis by (simp add: prompt_task_def)
    next
      case inside
      from inside(2) show ?thesis
      proof cases
        case (starts p u)
        then have "shared p = shared (tasks s)"
          using pool_work_running [OF starts(2)] assms(2) by (auto simp: prompt_task_def still_def)
        with starts inv assms(3) [of u] show ?thesis
          by (simp add: prompt_task_def prompt_inv_start)
      qed (use Nil in auto)
    qed
  qed
qed

definition prompt_server_inv :: "nat \<Rightarrow> environment \<Rightarrow> outcome \<Rightarrow> server \<Rightarrow> bool" where
  "prompt_server_inv depth env o1 s \<longleftrightarrow> wire_inv depth env o1 s \<and>
     (along depth env (one_reply depth env) (enqueued (tasks s)) o1 \<longrightarrow> prompt_task s)"

interpretation prompt_servers: invariant_system "\<lambda>s. s = server_start w" "prompt_server depth env"
  "prompt_server_inv depth env (Inr (), w)"
proof
  show "prompt_server_inv depth env (Inr (), w) s" if "s = server_start w" for s
    using that wires.inv_start [OF that]
    by (simp add: prompt_server_inv_def prompt_task_def server_start_def pool_start_def lock_inv_def running_def)
  show "prompt_server_inv depth env (Inr (), w) t"
    if step: "prompt_server depth env s t" and inv: "prompt_server_inv depth env (Inr (), w) s" for s t
  proof -
    note server = prompt_server_is_step [OF step]
    have wire: "wire_inv depth env (Inr (), w) t"
      using wire_inv_step [OF server] inv by (simp add: prompt_server_inv_def)
    have "prompt_task t" if all: "along depth env (one_reply depth env) (enqueued (tasks t)) (Inr (), w)"
    proof (rule prompt_task_step [OF step])
      obtain ts where "enqueued (tasks t) = enqueued (tasks s) @ ts"
        using threads.step_refines [OF server] enqueued_grows by (metis append_Nil2)
      with all inv show "prompt_task s"
        by (simp add: prompt_server_inv_def along_append)
      show "[] \<notin> set (task_replies depth env u (shared (tasks t)))" if "running (tasks t) = [u]" for u
        using running_along [OF _ that all] wire by (simp add: wire_inv_def one_reply_def)
    qed
    with wire show ?thesis
      by (simp add: prompt_server_inv_def)
  qed
qed

text \<open>Where the pool can make a step, so can the server, after the running task has come to its end.\<close>

lemma server_follows_pool:
  assumes "pool_work (run_task depth env) (tasks s) p" and "prompt_server_inv depth env o1 s"
    and "along depth env (one_reply depth env) (enqueued (tasks s)) o1"
  shows "\<exists>u. (prompt_server depth env)\<^sup>*\<^sup>* s u \<and> tasks u = p"
proof -
  have inv: "lock_inv (tasks s)" "serial_inv (run_task depth env) o1 (tasks s)" "prompt_task s"
    using assms(2,3) by (simp_all add: prompt_server_inv_def wire_inv_def)
  have on: "ended s = None"
    using assms(2) along_mono [OF assms(3) one_reply_short]
    by (simp add: prompt_server_inv_def wire_inv_def exchange_ok_def)
  from pool_work_running [OF assms(1) inv(1)] consider "running p = running (tasks s)"
    | t where "running (tasks s) = []" "running p = [t]"
    | t where "running (tasks s) = [t]" "running p = []" by blast
  then show ?thesis
  proof cases
    case 1
    with assms(1) on have "prompt_server depth env s (s\<lparr>tasks := p\<rparr>)"
      by (simp add: prompt_server_def under_def around pool_step_def)
    then show ?thesis
      by (intro exI [of _ "s\<lparr>tasks := p\<rparr>"]) simp
  next
    case 2
    let ?u = "s\<lparr>tasks := p, exchange := comm_start (task_replies depth env t (shared (tasks s)))\<rparr>"
    have "prompt_server depth env s ?u"
      unfolding prompt_server_def under_def using on starts [OF assms(1) 2] 2(1) by (simp add: inside)
    then show ?thesis
      by (intro exI [of _ ?u]) simp
  next
    case 3
    have one: "one_reply depth env t (shared (tasks s))"
      by (rule running_along [OF inv(2) 3(1) assms(3)])
    from inv(3) 3(1) obtain y where y: "prompt_step\<^sup>*\<^sup>* (exchange s) y" "h_pc y = H_Done"
      using prompt_can_finish by (auto simp: prompt_task_def)
    have "(prompt_server depth env)\<^sup>*\<^sup>* s (moved t y s)"
      unfolding prompt_server_def
      using one by (intro moved_run on 3(1) y(1) prompt_is_comm) (simp_all add: one_reply_def)
    moreover have "prompt_server depth env (moved t y s) (moved t y s\<lparr>tasks := p\<rparr>)"
      using returns [of depth env "moved t y s" p t] assms(1) 3 y(2) on
      by (simp add: prompt_server_def under_def inside)
    ultimately show ?thesis
      by (intro exI [of _ "moved t y s\<lparr>tasks := p\<rparr>"]) simp
  qed
qed

lemma server_can_rest:
  assumes "prompt_server_inv depth env (Inr (), w) s" and "finite (notifying (tasks s))"
    and "along depth env (one_reply depth env) (enqueued (tasks s)) (Inr (), w)"
  shows "\<exists>t. (prompt_server depth env)\<^sup>*\<^sup>* s t \<and> at_rest (pool_work (run_task depth env)) (tasks t) \<and>
    enqueued (tasks t) = enqueued (tasks s)"
  using assms
proof (induction "pool_work_left (tasks s)" arbitrary: s rule: less_induct)
  case less
  show ?case
  proof (cases "at_rest (pool_work (run_task depth env)) (tasks s)")
    case False
    then obtain p where p: "pool_work (run_task depth env) (tasks s) p"
      by (auto simp: at_rest_def)
    from server_follows_pool [OF p less.prems(1,3)] obtain u where
      u: "(prompt_server depth env)\<^sup>*\<^sup>* s u" "tasks u = p" by blast
    have "finite (notifying p)"
      using notifying_step [of "run_task depth env" "tasks s" p] p less.prems(2)
      by (auto simp: pool_step_def intro: finite_subset)
    moreover have same: "enqueued p = enqueued (tasks s)"
      by (rule pool_work_enqueued) (rule r_into_rtranclp, rule p)
    moreover have "pool_work_left (tasks u) < pool_work_left (tasks s)"
      using pool_work_smaller [OF p less.prems(2)] u(2) by simp
    ultimately obtain t where "(prompt_server depth env)\<^sup>*\<^sup>* u t"
      "at_rest (pool_work (run_task depth env)) (tasks t)" "enqueued (tasks t) = enqueued (tasks s)"
      using less.hyps [of u] prompt_servers.run_inv [OF u(1) less.prems(1)] less.prems(3) u(2) by auto
    with u(1) show ?thesis
      by (meson rtranclp_trans)
  qed auto
qed


lemma server_can_serve:
  assumes "prompt_server_reachable depth env w s"
    and "along depth env (one_reply depth env) (enqueued (tasks s)) (Inr (), w)"
  shows "\<exists>t. (prompt_server depth env)\<^sup>*\<^sup>* s t \<and> server_reachable False depth env w t \<and>
    enqueued (tasks t) = enqueued (tasks s) \<and> completed (tasks t) = enqueued (tasks s) \<and>
    shared (tasks t) = fold (run_task depth env) (enqueued (tasks s)) (Inr (), w) \<and>
    wire t = wire_of depth env (enqueued (tasks s)) (Inr (), w)"
proof -
  note pool = tasks_reachable [OF prompt_server_reachable_server [OF assms(1)]]
  have "prompt_server_inv depth env (Inr (), w) s"
    using prompt_servers.reachable_inv assms(1) by (simp add: prompt_server_reachable_def)
  moreover have "finite (notifying (tasks s))"
    by (rule announced.reachable_inv [OF pool [unfolded pool_reachable_def]])
  ultimately obtain t where t: "(prompt_server depth env)\<^sup>*\<^sup>* s t"
    "at_rest (pool_work (run_task depth env)) (tasks t)" "enqueued (tasks t) = enqueued (tasks s)"
    using server_can_rest assms(2) by blast
  have reach: "server_reachable False depth env w t"
    using assms(1) t(1) unfolding prompt_server_reachable_def
    by (intro prompt_server_reachable_server) (auto simp: prompt_server_reachable_def intro: reachable_run)
  from pool_at_rest [OF tasks_reachable [OF reach] t(2)] t(3) have
    done_all: "completed (tasks t) = enqueued (tasks s)"
    "shared (tasks t) = fold (run_task depth env) (enqueued (tasks s)) (Inr (), w)" by simp_all
  have "wire t = wire_of depth env (enqueued (tasks s)) (Inr (), w)"
    using wire_is_prefix [OF reach] assms(2) t(3) done_all(1) one_reply_length [OF assms(2)]
    by (metis take_all)
  with t reach done_all show ?thesis by blast
qed

section \<open>Properties\<close>

text \<open>C4: What the clients see: at every moment of a server that is sent requests of the abstract server, however
  the connections, the workers and the two threads of the running task are scheduled, with or without spurious
  wake-ups, the process runs and what has been sent, with the clients it was sent to, is a beginning of the
  abstract server's replies in the order of the requests: those to all completed tasks and at most one more.\<close>

theorem clients_receive_spec_replies:
  assumes "server_reachable wakes (Suc d) env w s" and "db_inv (db_handler w)"
    and "enqueued (tasks s) = map (\<lambda>(fd, q). (fd, request_bytes q)) tqs"
    and "session_ok (map snd tqs) (store_of (db_handler w)) (clk w)"
    and "spec_serve_all (map snd tqs) (store_of (db_handler w)) (clk w) = (rs, m, c)"
  shows "ended s = None \<and> (\<exists>n. length (completed (tasks s)) \<le> n \<and> n \<le> Suc (length (completed (tasks s))) \<and>
    wire s = take n (zip (map fst tqs) rs))"
  using requests_along [OF assms(4,2,5), of d env] wire_is_prefix [OF assms(1)] assms(3)
  by (fold request_task_def) auto

lemma one_request_along:
  assumes "request_ok q (clk w)" and "db_inv (db_handler w)"
    and "spec_serve q (store_of (db_handler w)) (clk w) = (r, m, c)"
  shows "along (Suc d) env (one_reply (Suc d) env) [(fd, request_bytes q)] (Inr (), w)"
    and "wire_of (Suc d) env [(fd, request_bytes q)] (Inr (), w) = [(fd, r)]"
  using requests_along [of "[(fd, q)]" w "[r]" m c d env] assms by (simp_all add: request_task_def)

text \<open>One client has been answered.\<close>

theorem clients_receive_spec_replies_witness:
  "\<exists>s. server_reachable False 1 plain_env empty_world s \<and> completed (tasks s) = [(7, request_bytes (Get ''k''))] \<and>
     wire s = [(7, NULL_RESPONSE)]"
proof -
  let ?t = "(7 :: int, request_bytes (Get ''k''))"
  let ?s = "just_taken (Suc 0) plain_env (one_running ?t (Inr (), empty_world))"
  have q: "request_ok (Get ''k'') (clk empty_world)" "db_inv (db_handler empty_world)"
    "spec_serve (Get ''k'') (store_of (db_handler empty_world)) (clk empty_world) =
       (NULL_RESPONSE, Map.empty, clk empty_world)"
    by (simp_all add: short_requests)
  have s: "prompt_server_reachable (Suc 0) plain_env empty_world ?s"
    by (rule just_taken_reachable [OF one_running_reachable]) (simp add: one_running_def pool_start_def)
  have queue: "enqueued (tasks ?s) = [?t]"
    by (simp add: just_taken_def one_running_def)
  with server_can_serve [OF s] one_request_along(1) [OF q] obtain t where
    t: "server_reachable False (Suc 0) plain_env empty_world t" "enqueued (tasks t) = [?t]"
      "completed (tasks t) = [?t]" by auto
  with clients_receive_spec_replies [OF t(1) q(2), of "[(7, Get ''k'')]"] q show ?thesis
    by (intro exI [of _ t]) (auto simp: short_requests)
qed


text \<open>C6: The server can answer everything as long as no wake-up is lost: in the schedules in which the thread
  that sends does not move between the parser's test of a flag and its wait, whatever requests have been
  enqueued and wherever the server has arrived, it can go on, without any further arrival or spurious
  wake-up, to a state in which every client has been sent the abstract server's replies to all its
  requests, and the store is the abstract server's.\<close>

theorem server_can_answer_everything:
  assumes "prompt_server_reachable (Suc d) env w s" and "db_inv (db_handler w)"
    and "enqueued (tasks s) = map (\<lambda>(fd, q). (fd, request_bytes q)) tqs"
    and "session_ok (map snd tqs) (store_of (db_handler w)) (clk w)"
    and "spec_serve_all (map snd tqs) (store_of (db_handler w)) (clk w) = (rs, m, c)"
  shows "\<exists>t w'. (prompt_server (Suc d) env)\<^sup>*\<^sup>* s t \<and> completed (tasks t) = enqueued (tasks s) \<and>
    wire t = zip (map fst tqs) rs \<and> shared (tasks t) = (Inr (), w') \<and> world_view w' = (m, c)"
proof -
  note requests = requests_along [OF assms(4,2,5), of d env, unfolded request_task_def, folded assms(3)]
  from server_can_serve [OF assms(1)] requests obtain t where
    "(prompt_server (Suc d) env)\<^sup>*\<^sup>* s t" "completed (tasks t) = enqueued (tasks s)"
    "shared (tasks t) = fold (run_task (Suc d) env) (enqueued (tasks s)) (Inr (), w)"
    "wire t = zip (map fst tqs) rs" by auto
  with run_tasks_session [OF assms(4,2,5), of d env] assms(3) show ?thesis by auto
qed

theorem server_can_answer_everything_witness:
  "\<exists>t. (prompt_server 1 plain_env)\<^sup>*\<^sup>*
       (just_taken 1 plain_env (one_running (7, request_bytes (Get ''k'')) (Inr (), empty_world))) t \<and>
     wire t = [(7, NULL_RESPONSE)]"
proof -
  let ?t = "(7 :: int, request_bytes (Get ''k''))"
  let ?s = "just_taken (Suc 0) plain_env (one_running ?t (Inr (), empty_world))"
  have s: "prompt_server_reachable (Suc 0) plain_env empty_world ?s"
    by (rule just_taken_reachable [OF one_running_reachable]) (simp add: one_running_def pool_start_def)
  have "enqueued (tasks ?s) = map (\<lambda>(fd, q). (fd, request_bytes q)) [(7, Get ''k'')]"
    by (simp add: just_taken_def one_running_def)
  from server_can_answer_everything [OF s _ this] show ?thesis
    by (auto simp: short_requests)
qed

text \<open>C9: One lost wake-up ends all service: when any task with a reply begins, at any time, the server can come
  to a state in which the process runs, but no task is ever completed again and nothing is ever sent to any
  client again, whatever the clients send and however the threads are scheduled, unless the language's
  permission to wake the parser spuriously is made use of. The task's own client may or may not have got its
  reply.\<close>

theorem lost_wakeup_ends_service:
  assumes "server_reachable False depth env w s" and "ended s = None" and "running (tasks s) = [t]"
    and "exchange s = comm_start (m # ms)" and "m \<noteq> []"
    and "fst (run_task depth env t (shared (tasks s))) = Inr ()"
    and "out = [] \<or> out = [(fst t, m)]"
  shows "\<exists>u. (server_step False depth env)\<^sup>*\<^sup>* s u \<and> (\<forall>v. (server_step False depth env)\<^sup>*\<^sup>* u v \<longrightarrow> ended v = None \<and>
    completed (tasks v) = completed (tasks s) \<and> wire v = wire s @ out)"
proof -
  note hang = can_hang [OF assms(1-4,6)]
  from assms(7) show ?thesis
  proof
    assume out: "out = []"
    obtain x where "comm_step\<^sup>*\<^sup>* (comm_start (m # ms)) x" "stuck P_Loop_Wait [] x"
      using stuck_before_reply by blast
    from hang [OF this] show ?thesis
      by (simp add: out)
  next
    assume out: "out = [(fst t, m)]"
    obtain x where "comm_step\<^sup>*\<^sup>* (comm_start (m # ms)) x" "stuck P_Sent_Wait [m] x"
      using stuck_behind_reply [OF assms(5)] by blast
    from hang [OF this] show ?thesis
      by (simp add: out)
  qed
qed

text \<open>Another client's request arrives behind the lost wake-up and is never served.\<close>

theorem lost_wakeup_ends_service_witness:
  "\<exists>u. (server_step False 1 plain_env)\<^sup>*\<^sup>*
       (just_taken 1 plain_env (one_running (7, request_bytes (Get ''k'')) (Inr (), empty_world))) u \<and>
     (\<forall>v. (server_step False 1 plain_env)\<^sup>*\<^sup>* u v \<longrightarrow> completed (tasks v) = [] \<and> wire v = [])"
proof -
  let ?t = "(7 :: int, request_bytes (Get ''k''))"
  let ?s = "just_taken (Suc 0) plain_env (one_running ?t (Inr (), empty_world))"
  have q: "request_ok (Get ''k'') (clk empty_world)" "db_inv (db_handler empty_world)"
    "spec_serve (Get ''k'') (store_of (db_handler empty_world)) (clk empty_world) =
       (NULL_RESPONSE, Map.empty, clk empty_world)"
    by (simp_all add: short_requests)
  have s: "server_reachable False (Suc 0) plain_env empty_world ?s"
    by (intro prompt_server_reachable_server just_taken_reachable one_running_reachable)
       (simp add: one_running_def pool_start_def)
  have run: "running (tasks ?s) = [?t]" "ended ?s = None" "wire ?s = []" "completed (tasks ?s) = []"
    "shared (tasks ?s) = (Inr (), empty_world)"
    by (simp_all add: just_taken_def one_running_def pool_start_def running_def)
  have one: "one_reply (Suc 0) plain_env ?t (Inr (), empty_world)"
    "map (Pair 7) (task_replies (Suc 0) plain_env ?t (Inr (), empty_world)) = [(7 :: int, NULL_RESPONSE)]"
    using one_request_along [OF q, of 0 plain_env 7] by simp_all
  then have replies: "task_replies (Suc 0) plain_env ?t (Inr (), empty_world) = [NULL_RESPONSE]" by auto
  then have "exchange ?s = comm_start [NULL_RESPONSE]"
    using run(1,5) by (simp add: just_taken_def)
  from lost_wakeup_ends_service [OF s run(2,1) this create_string_nonempty(2), of "[]"] one(1) run(3,4,5)
  obtain u where "(server_step False (Suc 0) plain_env)\<^sup>*\<^sup>* ?s u"
    "\<forall>v. (server_step False (Suc 0) plain_env)\<^sup>*\<^sup>* u v \<longrightarrow> completed (tasks v) = [] \<and> wire v = []"
    by (auto simp: one_reply_def)
  then show ?thesis
    unfolding One_nat_def by blast
qed


text \<open>C10: One exception ends all service: when a task begins whose command ends in an uncaught exception, at any
  time, the process can come to its end, it can come to no other end, and until then no task is completed,
  whatever the clients send and however the threads are scheduled and woken. One packet of one client is
  enough. Of a command with an access the language leaves undefined the theorem says that the server can come
  to that access and completes no task before it; what follows the access is not defined.\<close>

theorem exception_ends_service:
  assumes "server_reachable wakes depth env w s" and "ended s = None" and "running (tasks s) = [t]"
    and "exchange s = comm_start messages" and "[] \<notin> set messages"
    and "fst (run_task depth env t (shared (tasks s))) = Inl e"
  shows "(\<exists>u. (server_step wakes depth env)\<^sup>*\<^sup>* s u \<and> ended u = Some e \<and> at_rest (server_step wakes depth env) u) \<and>
    (\<forall>u. (server_step wakes depth env)\<^sup>*\<^sup>* s u \<longrightarrow>
       (ended u = None \<or> ended u = Some e) \<and> completed (tasks u) = completed (tasks s))"
proof (intro conjI allI impI)
  obtain y where "comm_step\<^sup>*\<^sup>* (exchange s) y" "replies_enqueued y"
    using can_enqueue_all [OF assms(5)] assms(4) by auto
  with run_until_enqueued [OF _ assms(2,3), of y wakes depth env] obtain z where
    z: "(server_step wakes depth env)\<^sup>*\<^sup>* s (moved t z s)" "replies_enqueued z" by blast
  let ?u = "(moved t z s)\<lparr>ended := Some e\<rparr>"
  have "server_step wakes depth env (moved t z s) ?u"
    using throws [of "moved t z s" t depth env e] assms(2,3,6) z(2) by (simp add: inside)
  with z(1) have "(server_step wakes depth env)\<^sup>*\<^sup>* s ?u"
    by (rule rtranclp.rtrancl_into_rtrancl)
  moreover have "at_rest (server_step wakes depth env) ?u"
    by (auto simp: at_rest_def elim: server_stepE)
  ultimately show "\<exists>u. (server_step wakes depth env)\<^sup>*\<^sup>* s u \<and> ended u = Some e \<and> at_rest (server_step wakes depth env) u"
    by (intro exI [of _ ?u]) simp
  have "doomed depth env t e (completed (tasks s)) (shared (tasks s)) s"
    using assms wire_invariant [OF assms(1)] ending_inv_start [of messages]
    by (simp add: doomed_def wire_inv_def) (simp add: comm_start_def)
  note doom = doomed.run_inv [OF _ this]
  show "ended u = None \<or> ended u = Some e" "completed (tasks u) = completed (tasks s)"
    if "(server_step wakes depth env)\<^sup>*\<^sup>* s u" for u
    using doom [OF that] by (auto simp: doomed_def)
qed

text \<open>A client sends \<open>GET\<close> without a key.\<close>

theorem exception_ends_service_witness:
  "\<exists>u. (server_step False 1 plain_env)\<^sup>*\<^sup>*
       (just_taken 1 plain_env (one_running (7, command_bytes [''GET'']) (Inr (), empty_world))) u \<and>
     ended u = Some protocol_error \<and> completed (tasks u) = []"
proof -
  let ?t = "(7 :: int, command_bytes [''GET''])"
  let ?s = "just_taken (Suc 0) plain_env (one_running ?t (Inr (), empty_world))"
  have s: "server_reachable False (Suc 0) plain_env empty_world ?s"
    by (intro prompt_server_reachable_server just_taken_reachable one_running_reachable)
       (simp add: one_running_def pool_start_def)
  have run: "running (tasks ?s) = [?t]" "ended ?s = None" "completed (tasks ?s) = []"
    "shared (tasks ?s) = (Inr (), empty_world)"
    by (simp_all add: just_taken_def one_running_def pool_start_def running_def)
  have "length (command_bytes [''GET'']) = 13" "to_upper ''GET'' = ''GET''"
    by code_simp+
  then have out: "serve_input (Suc 0) plain_env 7 (command_bytes [''GET'']) empty_world =
      (Inl protocol_error, empty_world\<lparr>is_communicating := True\<rparr>)"
    using array_outcome [of "''GET''" "[]" empty_world 0 plain_env 7] by (simp add: array_serve_def)
  then have e: "fst (run_task (Suc 0) plain_env ?t (shared (tasks ?s))) = Inl protocol_error"
    by (simp add: run(4) run_task_def)
  have "exchange ?s = comm_start []"
    using run(1,4) out by (simp add: just_taken_def task_replies_def replies_to_def)
  from exception_ends_service [OF s run(2,1) this _ e] run(3) obtain u where
    "(server_step False (Suc 0) plain_env)\<^sup>*\<^sup>* ?s u" "ended u = Some protocol_error" "completed (tasks u) = []"
    by auto
  then show ?thesis
    unfolding One_nat_def by blast
qed

end
