(* ===== verification/Any_Packing.thy ===== *)
theory Any_Packing
  imports Cluster_Runs
begin

text \<open>
  The system of a master and a replica with the messages packed in any way: one \<open>recv\<close> returns any number
  of whole messages of either direction, replies and propagated stores together, several messages of the
  handshake together. Then stores can be dropped and the replica need not even be registered (what the
  careful deliveries of \<open>Cluster\<close> exclude), but what the replica holds is still bounded by what the master
  propagated.
\<close>

section \<open>What lies behind a message\<close>

lemma received_behind:
  assumes "length (b @ x) < RECV_BUFFER_SIZE" and "NUL \<notin> set b" and "received_string (b @ x) = Inr input"
  shows "input = b @ takeWhile (\<lambda>c. c \<noteq> NUL) x" and "length input < RECV_BUFFER_SIZE"
proof -
  have "takeWhile (\<lambda>c. c \<noteq> NUL) (b @ x) = b @ takeWhile (\<lambda>c. c \<noteq> NUL) x"
    using assms(2) by (intro takeWhile_append2) auto
  with assms(1,3) show input: "input = b @ takeWhile (\<lambda>c. c \<noteq> NUL) x"
    using received_string_eq [of "b @ x"] by (auto split: if_splits)
  have "length (takeWhile (\<lambda>c. c \<noteq> NUL) x) \<le> length x"
    by (rule length_takeWhile_le)
  with assms(1) show "length input < RECV_BUFFER_SIZE"
    by (simp add: input)
qed

text \<open>Stores, and something behind them that is no array.\<close>

lemma serve_pipeline_behind:
  assumes "kvs \<noteq> []" and "length kvs \<le> depth" and "length (set_bytes kvs @ behind) < 2 ^ 31"
    and "\<forall>cs. behind \<noteq> CHR ''*'' # cs" and "db_inv (db_handler w)"
  shows "serve_input depth env fd (set_bytes kvs @ behind) w =
    (Inr (), after_pipeline (set_bytes kvs @ behind) kvs w)"
proof -
  have "si_inv (get_server_info (w\<lparr>is_communicating := True\<rparr>))"
    using assms(5) by (simp add: db_inv_def get_server_info_def)
  from parse_pipeline_behind [OF _ assms(4,1,2) this, of "set_bytes kvs @ behind" 0 env fd] assms(3)
  show ?thesis
    by (simp add: serve_input_def after_pipeline_def get_server_info_def)
qed

text \<open>A message of the handshake, and anything behind it: the rest is dropped.\<close>

lemma cursor_behind:
  "cursor input 0 x \<Longrightarrow> length (input @ behind) < 2 ^ 31 \<Longrightarrow> cursor (input @ behind) 0 (x @ behind)"
  by (auto simp: cursor_def)

lemma serve_bare_behind:
  assumes "cursor message 0 (CHR ''*'' # to_string n @ CRLF @ create_string_reponse command @ x)"
    and "int_ok n" and "length (message @ behind) < 2 ^ 31"
  shows "\<exists>p. serve_input (Suc d) env fd (message @ behind) w =
    dispatch (parseRESPCommand d env fd (message @ behind)) env fd (message @ behind) (to_upper command) n p
      (w\<lparr>is_communicating := True\<rparr>)"
  using serve_bare_command [of "message @ behind" n command "x @ behind"]
    cursor_behind [OF assms(1,3)] assms(2) by simp

lemma serve_handshake_behind:
  assumes "i < 4" and "int_ok own" and "role (get_server_info w) = ''master''"
    and "int_ok (connected_slaves (get_server_info w) + 1)"
    and "length (handshake own ! i @ behind) < 2 ^ 31"
  shows "serve_input (Suc d) env link (handshake own ! i @ behind) w = (Inr (), after_handshake env link i w)"
proof -
  note outcome = reply_and_finish_def enqueueMessage_def communication_over_def
  note after = after_handshake_def handshake_replies_def
  from assms(1) consider "i = 0" | "i = 1" | "i = 2" | "i = 3" by linarith
  then show ?thesis
  proof cases
    case 1
    with serve_bare_behind [OF handshake_ping_cursor small_counts(1), of behind d env link w] assms(5)
    show ?thesis
      by (auto simp: handshake_def dispatch_def parsePINGCommand_def outcome after)
  next
    case 2
    from handshake_port_cursor [OF assms(2)] obtain x where
      "cursor (handshake_port own) 0 (CHR ''*'' # to_string 3 @ CRLF @ create_string_reponse ''REPLCONF'' @ x)"
      by blast
    with 2 serve_bare_behind [OF this small_counts(2), of behind d env link w] assms(5) show ?thesis
      by (auto simp: handshake_def dispatch_def parseREPLCONFCommand_def outcome after)
  next
    case 3
    from handshake_capa_cursor obtain x where
      "cursor handshake_capa 0 (CHR ''*'' # to_string 3 @ CRLF @ create_string_reponse ''REPLCONF'' @ x)"
      by blast
    with 3 serve_bare_behind [OF this small_counts(2), of behind d env link w] assms(5) show ?thesis
      by (auto simp: handshake_def dispatch_def parseREPLCONFCommand_def outcome after numeral_2_eq_2)
  next
    case 4
    let ?w = "w\<lparr>is_communicating := True\<rparr>"
    from handshake_psync_cursor obtain x where
      "cursor handshake_psync 0 (CHR ''*'' # to_string 3 @ CRLF @ create_string_reponse ''PSYNC'' @ x)"
      by blast
    from serve_bare_behind [OF this small_counts(2), of behind d env link w] 4 assms(5)
    have "serve_input (Suc d) env link (handshake own ! i @ behind) w = parsePSYNCCommand env link ?w"
      by (auto simp: handshake_def dispatch_def numeral_3_eq_3)
    also have "\<dots> = (Inr (), after_psync env link ?w)"
      using assms(3,4) by (intro psync_master) (simp_all add: get_server_info_def)
    also have "after_psync env link ?w = after_handshake env link i w"
      using 4 by (simp add: after after_psync_def resync_line_def set_server_info_def get_server_info_def)
    finally show ?thesis .
  qed
qed

section \<open>What is under way\<close>

definition store_message :: "(string \<times> string) list \<Rightarrow> string \<Rightarrow> bool" where
  "store_message kvs b \<longleftrightarrow> (\<exists>kv \<in> set kvs. b = set_bytes [kv] \<and> packet b)"

lemma store_message_append [simp]:
  "store_message (kvs @ kvs') b \<longleftrightarrow> store_message kvs b \<or> store_message kvs' b"
  by (auto simp: store_message_def)

text \<open>However the messages are packed, the replica carries out the stores in front of the first reply and no more.\<close>

lemma leading_stores:
  assumes "\<forall>b \<in> set bs. reply_like b \<or> store_message kvs b"
  shows "\<exists>now others. bs = map (\<lambda>kv. set_bytes [kv]) now @ others \<and> set now \<subseteq> set kvs \<and>
    list_all (\<lambda>kv. packet (set_bytes [kv])) now \<and> (others = [] \<or> reply_like (hd others))"
  using assms
proof (induction bs)
  case Nil
  then show ?case by simp
next
  case (Cons b bs)
  show ?case
  proof (cases "reply_like b")
    case True
    then show ?thesis
      by (intro exI [of _ "[]"] exI [of _ "b # bs"]) simp
  next
    case False
    with Cons.prems obtain kv where kv: "kv \<in> set kvs" "b = set_bytes [kv]" "packet b"
      by (auto simp: store_message_def)
    from Cons obtain now others where "bs = map (\<lambda>kv. set_bytes [kv]) now @ others" "set now \<subseteq> set kvs"
      "list_all (\<lambda>kv. packet (set_bytes [kv])) now" "others = [] \<or> reply_like (hd others)" by auto
    with kv show ?thesis
      by (intro exI [of _ "kv # now"] exI [of _ others]) simp
  qed
qed

lemma replica_takes:
  assumes "\<forall>b \<in> set bs. reply_like b \<or> store_message kvs b" and "bs \<noteq> []"
    and "length (concat bs) < RECV_BUFFER_SIZE" and "received_string (concat bs) = Inr input"
    and "RECV_BUFFER_SIZE \<le> depth" and "side_ok name w"
  shows "\<exists>now. set now \<subseteq> set kvs \<and> serve_input depth env fd input w = (Inr (), after_pipeline input now w)"
proof -
  from leading_stores [OF assms(1)] obtain now others where
    bs: "bs = map (\<lambda>kv. set_bytes [kv]) now @ others" and now: "set now \<subseteq> set kvs"
      "list_all (\<lambda>kv. packet (set_bytes [kv])) now" and others: "others = [] \<or> reply_like (hd others)" by blast
  obtain d where d: "depth = Suc d"
    using assms(5) by (cases depth) (auto simp: RECV_BUFFER_SIZE_def)
  show ?thesis
  proof (cases now)
    case Nil
    then obtain b bs' where b: "bs = b # bs'" "reply_like b"
      using bs others assms(2) by (cases bs) auto
    with ignored_input [of b bs' input d env fd w] assms(3,4) d show ?thesis
      by (intro exI [of _ "[]"]) (simp add: after_pipeline_def)
  next
    case (Cons kv now')
    have concat: "concat bs = set_bytes now @ concat others"
      by (simp add: bs concat_set_bytes)
    have "NUL \<notin> set (set_bytes now)"
      using now(2) by (auto simp: packet_def list_all_iff simp flip: concat_set_bytes [of now])
    note input = received_behind [OF _ this, of "concat others" input]
    define behind where "behind = takeWhile (\<lambda>c. c \<noteq> NUL) (concat others)"
    have split: "input = set_bytes now @ behind" and len: "length input < RECV_BUFFER_SIZE"
      using input assms(3,4) by (simp_all add: concat behind_def)
    have "\<forall>cs. behind \<noteq> CHR ''*'' # cs"
      using others by (cases others; cases "hd others") (auto simp: behind_def reply_like_def split: if_splits)
    moreover have "length now \<le> depth" "length (set_bytes now @ behind) < 2 ^ 31"
      using len length_set_bytes [of now] assms(5) by (simp_all add: split RECV_BUFFER_SIZE_def)
    ultimately show ?thesis
      using serve_pipeline_behind [of now depth behind w env fd] Cons now(1) assms(6)
      by (intro exI [of _ now]) (simp add: split side_ok_def)
  qed
qed

section \<open>The invariant\<close>

definition packing_inv :: "int \<Rightarrow> int \<Rightarrow> store \<Rightarrow> cluster \<Rightarrow> bool" where
  "packing_inv own link r0 s \<longleftrightarrow>
     \<not> failed s \<and> side_ok ''master'' (master_side s) \<and> side_ok ''slave'' (replica_side s) \<and>
     length (master_replid (get_server_info (master_side s))) < 4000 \<and>
     (\<exists>i acks. i \<le> 4 \<and> to_master s = drop i (handshake own) @ acks \<and> list_all reply_like acks \<and>
       (i < 4 \<longrightarrow> int_ok (connected_slaves (get_server_info (master_side s)) + 1))) \<and>
     (\<forall>b \<in> set (to_replica s). reply_like b \<or> store_message (propagated s) b) \<and>
     (\<exists>applied. set applied \<subseteq> set (propagated s) \<and>
       store_of (db_handler (replica_side s)) = r0 ++ map_of (rev (plain_values applied)))"

lemma packing_inv_start: "joining link m r \<Longrightarrow>
  packing_inv own link (store_of (db_handler r)) (cluster_start own m r)"
  unfolding packing_inv_def joining_def
  by (auto simp: cluster_start_def plain_values_def intro!: exI [of _ "0 :: nat"])

lemma sent_is_propagated:
  assumes "packet (request_bytes q)" and "b \<in> set (sent_on link w (after_request q reply w))"
  shows "registered link w \<and> store_message (stores q) b"
  using assms
  by (cases q) (auto simp: sent_on_request registered_def store_message_def set_bytes_def split: if_splits)

lemma packing_client_inv:
  assumes "cluster_client (Suc d) em er link s t" and "packing_inv own link r0 s"
  shows "packing_inv own link r0 t"
  using assms(1)
proof cases
  case (master_client q fd r w)
  note inv = assms(2) [unfolded packing_inv_def side_ok_def]
  from plain_request_outcome [OF master_client(2,3), of "master_side s" d em fd] inv master_client(4)
  obtain reply where w: "r = Inr ()" "w = after_request q reply (master_side s)" by auto
  let ?new = "if registered link (master_side s) then stores q else []"
  have "\<forall>b \<in> set (to_replica s @ sent_on link (master_side s) w).
      reply_like b \<or> store_message (propagated s @ ?new) b"
    using inv sent_is_propagated [OF master_client(3)] by (auto simp: w)
  moreover have "side_ok ''master'' w"
    using assms(2) side_ok_request by (simp add: w packing_inv_def)
  moreover from inv obtain applied where "set applied \<subseteq> set (propagated s @ ?new)"
    "store_of (db_handler (replica_side s)) = r0 ++ map_of (rev (plain_values applied))"
    by auto
  ultimately show ?thesis
    using assms(2) unfolding packing_inv_def master_client(1) w(1) by (auto simp: w(2))
next
  case (replica_client q fd r w)
  note inv = assms(2) [unfolded packing_inv_def side_ok_def]
  from plain_request_outcome [OF replica_client(2,4), of "replica_side s" d er fd] inv replica_client(5)
  obtain reply where w: "r = Inr ()" "w = after_request q reply (replica_side s)" by auto
  have "side_ok ''slave'' w" "store_of (db_handler w) = store_of (db_handler (replica_side s))"
    using assms(2) side_ok_request
    by (simp_all add: w packing_inv_def store_after_request replica_client(3) plain_values_def)
  with assms(2) show ?thesis
    by (simp add: packing_inv_def replica_client(1) w(1))
qed

lemma packing_replica_inv:
  assumes "packing_inv own link r0 s" and "to_replica s = bs @ rest" and "bs \<noteq> []"
    and "length (concat bs) < RECV_BUFFER_SIZE" and "received_string (concat bs) = Inr input"
    and "RECV_BUFFER_SIZE \<le> depth" and "serve_input depth er up input (replica_side s) = (r, w)"
  shows "r = Inr () \<and> packing_inv own link r0 (s\<lparr>replica_side := w, to_replica := rest,
    to_master := to_master s @ sent_back (replica_side s) w\<rparr>)"
proof -
  note inv = assms(1) [unfolded packing_inv_def]
  from inv assms(2) have "\<forall>b \<in> set bs. reply_like b \<or> store_message (propagated s) b" by simp
  from replica_takes [OF this assms(3-6), of "''slave''" "replica_side s" er up] inv assms(7) obtain now where
    w: "r = Inr ()" "w = after_pipeline input now (replica_side s)" and now: "set now \<subseteq> set (propagated s)"
    by auto
  from inv obtain applied where applied: "set applied \<subseteq> set (propagated s)"
    "store_of (db_handler (replica_side s)) = r0 ++ map_of (rev (plain_values applied))" by blast
  then have "store_of (db_handler w) = r0 ++ map_of (rev (plain_values (applied @ now)))"
    "set (applied @ now) \<subseteq> set (propagated s)"
    using now by (simp_all add: w store_after_pipeline map_add_assoc)
  then have store: "\<exists>applied. set applied \<subseteq> set (propagated s) \<and>
      store_of (db_handler w) = r0 ++ map_of (rev (plain_values applied))" by blast
  from inv obtain i acks where i: "i \<le> 4" "to_master s = drop i (handshake own) @ acks"
    "list_all reply_like acks"
    "i < 4 \<longrightarrow> int_ok (connected_slaves (get_server_info (master_side s)) + 1)" by blast
  have "list_all reply_like (sent_back (replica_side s) w)"
    by (simp add: w replies_after_pipeline list_all_iff)
  with i have "\<exists>i acks. i \<le> 4 \<and> to_master s @ sent_back (replica_side s) w = drop i (handshake own) @ acks \<and>
      list_all reply_like acks \<and> (i < 4 \<longrightarrow> int_ok (connected_slaves (get_server_info (master_side s)) + 1))"
    by (intro exI [of _ i] exI [of _ "acks @ sent_back (replica_side s) w"]) simp
  moreover have "side_ok ''slave'' w"
    using inv side_ok_pipeline by (simp add: w)
  ultimately show ?thesis
    using inv assms(2) store w(1) by (simp add: packing_inv_def)
qed

text \<open>Messages of the handshake that are received together: the first is answered, the others are dropped.\<close>

lemma packing_master_outcome:
  assumes "packing_inv own link r0 s" and "to_master s = bs @ rest" and "bs \<noteq> []"
    and "length (concat bs) < RECV_BUFFER_SIZE" and "received_string (concat bs) = Inr input"
    and "int_ok own"
  obtains (greeting) i j acks where "i < j" "j \<le> 4" "rest = drop j (handshake own) @ acks"
      "list_all reply_like acks" "int_ok (connected_slaves (get_server_info (master_side s)) + 1)"
      "serve_input (Suc d) em link input (master_side s) = (Inr (), after_handshake em link i (master_side s))"
  | (acknowledged) "list_all reply_like rest"
      "serve_input (Suc d) em link input (master_side s) =
         (Inr (), (master_side s)\<lparr>is_communicating := False\<rparr>)"
proof -
  from assms(1) obtain i acks where i: "i \<le> 4" "to_master s = drop i (handshake own) @ acks"
    "list_all reply_like acks"
    "i < 4 \<longrightarrow> int_ok (connected_slaves (get_server_info (master_side s)) + 1)"
    by (auto simp: packing_inv_def)
  have len: "length (handshake own) = 4"
    by (simp add: handshake_def)
  obtain b bs' where b: "bs = b # bs'"
    using assms(3) by (cases bs) auto
  show thesis
  proof (cases "i < 4")
    case True
    then have "drop i (handshake own) = handshake own ! i # drop (Suc i) (handshake own)"
      using len by (simp add: Cons_nth_drop_Suc)
    then have hd: "b = handshake own ! i" "bs' @ rest = drop (Suc i) (handshake own) @ acks"
      using assms(2) i(2) b by simp_all
    have "rest = drop (length bs') (drop (Suc i) (handshake own) @ acks)"
      using hd(2) by (metis append_eq_conv_conj)
    also have "\<dots> = drop (min 4 (Suc i + length bs')) (handshake own) @
        drop (length bs' - (4 - Suc i)) acks"
      using len by (simp add: min_def add.commute)
    finally have rest: "rest = drop (min 4 (Suc i + length bs')) (handshake own) @
        drop (length bs' - (4 - Suc i)) acks" .
    have acks: "list_all reply_like (drop (length bs' - (4 - Suc i)) acks)"
      using i(3) by (auto simp: list_all_iff dest: in_set_dropD)
    have "handshake own ! i \<in> set (handshake own)"
      using True len by simp
    note p = handshake_packets [OF assms(6) this]
    have "NUL \<notin> set b"
      using p(1) by (simp add: hd(1) packet_def)
    note input = received_behind [OF _ this, of "concat bs'" input]
    have role: "role (get_server_info (master_side s)) = ''master''"
      using assms(1) by (simp add: packing_inv_def side_ok_def)
    have "length (handshake own ! i @ takeWhile (\<lambda>c. c \<noteq> NUL) (concat bs')) < 2 ^ 31"
      using input assms(4,5) b by (simp add: hd(1) RECV_BUFFER_SIZE_def)
    from serve_handshake_behind [OF True assms(6) role _ this, of d em link] i(4) True input(1) assms(4,5) b
    have "serve_input (Suc d) em link input (master_side s) = (Inr (), after_handshake em link i (master_side s))"
      by (simp add: hd(1))
    with True i(4) rest acks show thesis
      by (intro greeting [of i "min 4 (Suc i + length bs')"]) simp_all
  next
    case False
    then have "bs @ rest = acks"
      using assms(2) i(1,2) len by simp
    then have "list_all reply_like bs" "list_all reply_like rest"
      using i(3) by auto
    then show thesis
      using acknowledged ignored_input [of b bs' input d em link "master_side s"] assms(4,5) b by simp
  qed
qed

lemma packing_master_inv:
  assumes "packing_inv own link r0 s" and "to_master s = bs @ rest" and "bs \<noteq> []"
    and "length (concat bs) < RECV_BUFFER_SIZE" and "received_string (concat bs) = Inr input"
    and "int_ok own" and "length (rdb_reply em) < RECV_BUFFER_SIZE"
    and "serve_input (Suc d) em link input (master_side s) = (r, w)"
  shows "r = Inr () \<and> packing_inv own link r0 (s\<lparr>master_side := w, to_master := rest,
    to_replica := to_replica s @ sent_back (master_side s) w @ sent_on link (master_side s) w\<rparr>)"
proof -
  note inv = assms(1) [unfolded packing_inv_def]
  from assms(1-6) show ?thesis
  proof (cases rule: packing_master_outcome [where em = em and d = d])
    case (greeting i j acks)
    with assms(8) have w: "r = Inr ()" "w = after_handshake em link i (master_side s)"
      by simp_all
    have sent: "sent_back (master_side s) w = handshake_replies em i (master_side s)"
      "sent_on link (master_side s) w = []"
      by (simp_all add: w sent_back_def sent_on_def)
    have replies: "list_all reply_like (handshake_replies em i (master_side s))"
      using inv assms(7) by (intro handshake_replies_like) simp_all
    have "\<exists>j acks. j \<le> 4 \<and> rest = drop j (handshake own) @ acks \<and> list_all reply_like acks \<and>
        (j < 4 \<longrightarrow> int_ok (connected_slaves (get_server_info w) + 1))"
      using greeting(1-5) by (intro exI [of _ j] exI [of _ acks]) (simp add: w)
    then show ?thesis
      using inv w(1) side_ok_handshake [of "''master''" "master_side s" em link i] replies
      by (auto simp: packing_inv_def sent list_all_iff) (simp_all add: w(2))
  next
    case acknowledged
    with assms(8) have w: "r = Inr ()" "w = (master_side s)\<lparr>is_communicating := False\<rparr>"
      by simp_all
    have "\<exists>j acks. j \<le> 4 \<and> rest = drop j (handshake own) @ acks \<and> list_all reply_like acks \<and>
        (j < 4 \<longrightarrow> int_ok (connected_slaves (get_server_info w) + 1))"
      using acknowledged(1) by (intro exI [of _ 4] exI [of _ rest]) (simp add: handshake_def)
    with inv w show ?thesis
      by (simp add: packing_inv_def)
  qed
qed

lemma packing_deliver_inv:
  assumes "cluster_deliver careful (Suc d) em er link up s t" and "packing_inv own link r0 s"
    and "cluster_params d em own"
  shows "packing_inv own link r0 t"
  using assms(1)
proof cases
  case (replica_receives bs rest input r w)
  have "RECV_BUFFER_SIZE \<le> Suc d"
    using assms(3) by (simp add: cluster_params_def)
  from packing_replica_inv [OF assms(2) replica_receives(2,3,5,6) this replica_receives(7)]
    replica_receives(1) show ?thesis
    using assms(2) by (simp add: packing_inv_def)
next
  case (master_receives bs rest input r w)
  have "int_ok own" "length (rdb_reply em) < RECV_BUFFER_SIZE"
    using assms(3) by (simp_all add: cluster_params_def)
  from packing_master_inv [OF assms(2) master_receives(2,3,5,6) this master_receives(7)]
    master_receives(1) show ?thesis
    using assms(2) by (simp add: packing_inv_def)
qed

text \<open>The states that are reached with any packing.\<close>

definition packing_reachable ::
  "nat \<Rightarrow> environment \<Rightarrow> environment \<Rightarrow> int \<Rightarrow> int \<Rightarrow> int \<Rightarrow> world \<Rightarrow> world \<Rightarrow> cluster \<Rightarrow> bool" where
  "packing_reachable d em er link up own m r s \<longleftrightarrow>
     reachable (\<lambda>s. cluster_params d em own \<and> joining link m r \<and> s = cluster_start own m r)
       (cluster_step False (Suc d) em er link up) s"

interpretation packing: invariant_system
  "\<lambda>s. cluster_params d em own \<and> joining link m r \<and> s = cluster_start own m r"
  "cluster_step False (Suc d) em er link up"
  "\<lambda>s. cluster_params d em own \<and> packing_inv own link (store_of (db_handler r)) s"
proof
  show "cluster_params d em own \<and> packing_inv own link (store_of (db_handler r)) s"
    if "cluster_params d em own \<and> joining link m r \<and> s = cluster_start own m r" for s
    using that packing_inv_start by blast
  show "cluster_params d em own \<and> packing_inv own link (store_of (db_handler r)) t"
    if "cluster_step False (Suc d) em er link up s t"
      "cluster_params d em own \<and> packing_inv own link (store_of (db_handler r)) s" for s t
    using that packing_client_inv packing_deliver_inv
    unfolding cluster_step_def by blast
qed

lemmas packing_invariant = packing.reachable_inv [folded packing_reachable_def]

lemma packing_bounded:
  assumes "packing_inv own link r0 s" and "k \<notin> fst ` set (propagated s)"
  shows "store_of (db_handler (replica_side s)) k = r0 k"
proof -
  from assms(1) obtain applied where "set applied \<subseteq> set (propagated s)"
    "store_of (db_handler (replica_side s)) = r0 ++ map_of (rev (plain_values applied))"
    by (auto simp: packing_inv_def)
  moreover have "k \<notin> fst ` set applied"
    using assms(2) calculation(1) by auto
  ultimately show ?thesis
    using not_stored [of k applied] by (simp add: map_add_def)
qed

section \<open>Properties\<close>

text \<open>C16: A replica that joins a master with data never gets it. A master is started on a dump of values that do not
  expire and a replica without one, and the replica sends its handshake. Whichever requests without
  expiry the master's clients send and whichever reads the replica's clients send, each request alone in its
  packet, and in whatever order and however packed together the whole messages between the two servers are
  received, where every task runs to its end, neither process ends, and the replica holds no key of the dump
  that is not stored again, although the master holds them all at the start and sends an RDB file.\<close>

theorem dump_never_reaches_replica:
  assumes "holds_dump h dir name version metas entries crc"
    and "list_all (\<lambda>(k, v). expiry_time v = 0) entries"
    and "bare_host h'" and "0 < p" and "p < 10 ^ 5" and "int_ok own"
  shows "\<exists>m r. server_main h [''server'', ''--dir'', dir, ''--dbfilename'', name] = Inr (Some m) \<and>
    server_main h' [''server'', ''--port'', to_string own,
      ''--replicaof'', ''localhost '' @ to_string (int p)] = Inr (Some r) \<and>
    received_by (new_fd h') (net r) = handshake own \<and>
    store_of (db_handler m) = map_of entries \<and>
    (\<forall>d em er up s k. packing_reachable d em er link up own m r s \<longrightarrow>
       \<not> failed s \<and> (k \<notin> fst ` set (propagated s) \<longrightarrow> store_of (db_handler (replica_side s)) k = None))"
proof -
  from started_pair [OF assms, of link] obtain m r where
    "server_main h [''server'', ''--dir'', dir, ''--dbfilename'', name] = Inr (Some m)"
    "server_main h' [''server'', ''--port'', to_string own,
      ''--replicaof'', ''localhost '' @ to_string (int p)] = Inr (Some r)"
    "received_by (new_fd h') (net r) = handshake own" "store_of (db_handler m) = map_of entries"
    and r: "store_of (db_handler r) = Map.empty" by blast
  moreover have "\<not> failed s \<and> (k \<notin> fst ` set (propagated s) \<longrightarrow> store_of (db_handler (replica_side s)) k = None)"
    if "packing_reachable d em er link up own m r s" for d em er up s k
    using packing_bounded [of own link "store_of (db_handler r)" s k] packing_invariant [OF that] r
    by (simp add: packing_inv_def)
  ultimately show ?thesis by blast
qed

text \<open>After the handshake and a first store of a client, with the replica registered.\<close>

theorem dump_never_reaches_replica_witness:
  "\<exists>m r s. server_main
       (plain_host [''d/f'' \<mapsto> rdb_dump ''0011'' [] [(''k'', \<lparr>db_value = ''v'', expiry_time = 0\<rparr>)] []])
       [''server'', ''--dir'', ''d'', ''--dbfilename'', ''f''] = Inr (Some m) \<and>
     server_main (plain_host (\<lambda>f. None))
       [''server'', ''--port'', to_string 6380, ''--replicaof'', ''localhost '' @ to_string (int 6379)] =
       Inr (Some r) \<and>
     packing_reachable 4095 plain_env plain_env 7 3 6380 m r s \<and> registered 7 (master_side s) \<and>
     propagated s = [(''n'', ''w'')] \<and> store_of (db_handler (master_side s)) ''k'' \<noteq> None \<and>
     store_of (db_handler (replica_side s)) ''k'' = None"
proof -
  let ?es = "[(''k'', \<lparr>db_value = ''v'', expiry_time = 0\<rparr>)]"
  let ?h = "plain_host [''d/f'' \<mapsto> rdb_dump ''0011'' [] ?es []]"
  have h: "holds_dump ?h ''d'' ''f'' ''0011'' [] ?es []" "list_all (\<lambda>(k, v). expiry_time v = 0) ?es"
    by (simp_all add: holds_dump_def plain_host_def CHARACTERS_def entry_ok_def short_def marker_def)
  have h': "bare_host (plain_host (\<lambda>f. None))"
    by (simp add: bare_host_def plain_host_def CHARACTERS_def)
  have n: "0 < (6379 :: nat)" "(6379 :: nat) < 10 ^ 5" "int_ok 6380"
    by (simp_all add: int_ok_def)
  have packet: "packet (request_bytes (Set ''n'' ''w''))"
    by code_simp
  from started_pair [OF h h' n, of 7] obtain m r where
    m: "server_main ?h [''server'', ''--dir'', ''d'', ''--dbfilename'', ''f''] = Inr (Some m)"
    and r: "server_main (plain_host (\<lambda>f. None)) [''server'', ''--port'', to_string 6380,
      ''--replicaof'', ''localhost '' @ to_string (int 6379)] = Inr (Some r)"
    and store: "store_of (db_handler m) = map_of ?es" and joining: "joining 7 m r" by blast
  from first_store_run [OF empty_cluster(1) joining packet, of False plain_env 3] obtain reply where
    run: "(cluster_step False (Suc 4095) plain_env plain_env 7 3)\<^sup>*\<^sup>* (cluster_start 6380 m r)
      (first_store plain_env 7 6380 m r ''n'' ''w'' reply)" by blast
  let ?s = "first_store plain_env 7 6380 m r ''n'' ''w'' reply"
  have "packing_reachable 4095 plain_env plain_env 7 3 6380 m r (cluster_start 6380 m r)"
    unfolding packing_reachable_def using empty_cluster(1) joining by (blast intro: reach_start)
  with run have s: "packing_reachable 4095 plain_env plain_env 7 3 6380 m r ?s"
    unfolding packing_reachable_def by (blast intro: reachable_run)
  have "propagated ?s = [(''n'', ''w'')]" "registered 7 (master_side ?s)"
    by (simp_all add: first_store_def registered_def)
  moreover have "store_of (db_handler (master_side ?s)) ''k'' \<noteq> None"
    using store by (simp add: first_store_def store_after_request plain_values_def)
      (simp add: store_of_def)
  moreover from dump_never_reaches_replica [OF h h' n, of 7] m r s
  have "''k'' \<notin> fst ` set (propagated ?s) \<longrightarrow> store_of (db_handler (replica_side ?s)) ''k'' = None"
    by force
  ultimately show ?thesis
    using m r s by (intro exI [of _ m] exI [of _ r] exI [of _ ?s]) simp
qed

end
