(* ===== verification/Spec2Isabelle.thy ===== *)
theory Spec2Isabelle
  imports Server_Boot Connection Comm_Protocol Malformed_Input Command_Specs Resp_Roundtrip
    NonBlocking_Queue Script_Equivalence Hex_Dump Send_Loop
    Spurious_Wakeups Queue_Threads Array_Requests Parser_Termination Replica_Group Server_Progress
    Any_Packing
begin

text \<open>
  A verification development for a Redis server written in C++ (\<^verbatim>\<open>src/\<close>, \<^verbatim>\<open>include/redis/\<close>). A
  client sends a command as a RESP array; the server answers from an in-memory store with expiry times,
  can load an RDB file at the start, and can replicate its stores to other servers.

  \<^bold>\<open>How the program is put together.\<close> \<open>main\<close> (\<^verbatim>\<open>src/Server.cpp\<close>) reads the command line, loads the
  RDB file and accepts clients. Every connection has a thread (\<open>client_handler\<close>) that turns each
  received buffer into a task of a pool with four workers (\<open>worker_thread\<close>). A task
  (\<open>response_handler\<close>) starts a thread with a parser (\<open>RedisParser\<close>) for that one buffer and sends the
  replies the parser hands over through a buffer, flags and condition variables. The parser's handlers
  work on the shared \<open>DatabaseHandler\<close>, which refers to the shared \<open>ServerInfo\<close>.

  \<^bold>\<open>Theories.\<close>
  \<^item> \<open>Redis_Prelude\<close>: machine types, calls that may throw (\<open>result\<close>, \<open>and_then\<close>), bytes,
    reachability and the locales \<open>invariant_system\<close>, in which invariants of step relations are proved,
    \<open>settling_system\<close>, for relations that come to rest, and \<open>refining_system\<close>, for a system in small steps
    that implements one in larger steps.
  \<^item> \<open>Cpp_Std\<close>: \<open>std::string\<close>, \<open>stoi\<close>, \<open>to_string\<close>, \<open>toupper\<close>, and the cursor calculus.
  \<^item> \<open>Resp_Utils\<close>, \<open>Resp_Roundtrip\<close>: the RESP functions of \<^verbatim>\<open>src/utils.cpp\<close> and their round trips.
  \<^item> \<open>File_Stream\<close>, \<open>Byte_Utils\<close>, \<open>Hex_Dump\<close>: \<open>std::ifstream\<close> with failing reads and uninitialised
    buffers, and the byte utilities of \<^verbatim>\<open>src/utils.cpp\<close>. Every reader interprets the locale
    \<open>stream_reader\<close>.
  \<^item> \<open>Server_Info\<close>: \<^verbatim>\<open>src/server_info.cpp\<close>, with the regular expression of \<open>--replicaof\<close>.
  \<^item> \<open>Database_Handler\<close>: \<^verbatim>\<open>src/database_handler.cpp\<close>; the locale \<open>key_value_store\<close> is what the
    handlers and the loader rely on.
  \<^item> \<open>Rdb_Parser\<close>, \<open>Rdb_Roundtrip\<close>: \<^verbatim>\<open>src/read_file.cpp\<close>, an encoder of the format, and loading.
  \<^item> \<open>Rdb_Script\<close>, \<open>Script_Equivalence\<close>: the stand-alone \<^verbatim>\<open>scripts/rdb_parser.cpp\<close>, which prints a
    dump, and its comparison with the loader.
  \<^item> \<open>Ecma_Regex\<close>: compiling and matching the patterns of \<open>KEYS\<close>.
  \<^item> \<open>Redis_Parser\<close>: \<^verbatim>\<open>src/redis_parser.cpp\<close>, one definition per handler, the dispatcher, and the
    locale \<open>command_handler\<close>, the contract every handler and the dispatcher interpret.
  \<^item> \<open>Server_Spec\<close>: the abstract server and the refinement; \<open>Command_Specs\<close>: \<open>KEYS\<close>, \<open>CONFIG GET\<close>
    and unknown commands; \<open>Array_Requests\<close>: every array of bulk strings as a function of its arguments;
    \<open>Malformed_Input\<close>: all other input; \<open>Parser_Termination\<close>: when the recursion of the parser ends.
  \<^item> \<open>Replication\<close>: the handshake, \<open>PSYNC\<close>, propagation and the replica. \<open>Cluster\<close>, \<open>Cluster_Runs\<close>: a
    master and a replica with the messages under way between them, under every interleaving of client
    requests without expiry and careful deliveries (whole messages, replies and stores in different packets, the
    handshake's messages one by one); \<open>Any_Packing\<close>: the same with whole messages packed in any way;
    \<open>Replica_Group\<close>: a master and any number of replicas, each of which with the master is a system of
    \<open>Cluster\<close>.
  \<^item> \<open>Comm_Protocol\<close>: the two threads of a task, step by step; \<open>Prompt_Exchange\<close>: the schedules in which
    they lose no wake-up; \<open>Spurious_Wakeups\<close>: the same threads with the wake-ups the language allows at any
    time, which \<open>Comm_Protocol\<close> leaves out; \<open>Send_Loop\<close>: sending one reply, which \<open>Comm_Protocol\<close>
    takes as a step; \<open>Worker_Pool\<close>: the pool, step by step; \<open>Connection\<close>: \<open>recv\<close> and the tasks; all of
    \<^verbatim>\<open>src/client_handler.cpp\<close>.
  \<^item> \<open>Server_Threads\<close>, \<open>Server_Progress\<close>: the server with all its threads, which is the pool of \<open>Worker_Pool\<close>
    with \<open>response_handler\<close>, that is \<open>Comm_Protocol\<close>, as its running task, and what has been sent to each client;
    it refines the pool that runs a task in one step.
  \<^item> \<open>Server_Boot\<close>: \<open>parseCommandLineArgs\<close>, \<open>main\<close> and its accept loop.
  \<^item> \<open>NonBlocking_Queue\<close>, \<open>Queue_Threads\<close>: \<^verbatim>\<open>include/redis/non_blocking_queue.hpp\<close> (included, not
    used by the server), run by one thread against the locale \<open>fifo_queue\<close>, and by several, one step per
    shared access.
  \<^item> This theory: the properties that span components.

  \<^bold>\<open>How the state corresponds.\<close> The record \<open>world\<close> is what a handler can reach: the store, the
  settings of \<open>namespace config\<close>, the clock as a sequence of readings, the replies it has enqueued, what
  it has sent to other servers, and \<open>is_communicating\<close>. An uncaught exception, an access the language
  leaves undefined and an exhausted stack are values of \<open>cpp_error\<close>; nothing in the program catches
  an exception, so an exception ends the process. Of an undefined access and an exhausted stack nothing is
  promised: the model stops there and says nothing of what follows.

  \<^bold>\<open>Bounds and fuel.\<close> Positions are 64-bit words. The first argument of \<open>parseRESPCommand\<close> is
  the depth of recursion the stack has room for. One more than the number of commands that
  follow in the buffer is enough (\<open>parse_pipeline\<close>), and for some input no depth is
  (\<open>looping_set_exhausts_stack\<close>); without a minus sign and with a last line end, a twenty-fifth of the
  buffer's length is (\<open>parser_recursion_ends\<close>), so 164 for a receive buffer. In \<open>Cluster\<close> the depth is the
  size of that buffer, and the RDB file fits one packet; in \<open>Replica_Group\<close> there are fewer than
  \<open>2 ^ 31\<close> replicas, which is all that descriptors can name. Loops over a file are total: every
  iteration consumes bytes or sets the fail bit (\<open>fuel_left\<close>). \<open>print_file_hex\<close> and the loop around
  \<open>send\<close> are \<open>while_option\<close>, and that they end is a theorem, for \<open>send\<close> under what POSIX promises of it. The loop of the non-blocking queue
  takes fuel; one iteration is enough for a single thread, and the step relation of \<open>Queue_Threads\<close> needs
  none. Its destructor takes fuel; one more than the number of elements is enough.

  \<^bold>\<open>What the theorems show.\<close> For well-formed requests the server, from its start on a dump through the
  sockets of any number of clients and the pool to the replies, refines a map with expiry times started
  on the entries of the dump. At every moment, under every schedule of all its threads, what the clients have been
  sent is a beginning of the replies of that map, and as long as no wake-up is lost the server can go on to
  answer everything. Any number of replicas follow their master on every key stored since each joined, with
  an exchange of messages that comes to rest, as long as the clients store without expiry, the replicas' clients
  only read, tasks run to their end, and messages arrive whole, with replies and stores in different packets and
  the handshake's messages apart; other theorems show what goes wrong without these conditions. However whole messages are
  packed, a replica never gets the dump of its master. One reply is delivered even with spurious wake-ups of the
  parser's waits, two without them. Every array of arguments has the outcome of \<open>array_serve\<close>. For all
  input, the store stays well formed and effects are only appended. The round trips of the wire format and
  of the file format hold within the stated bounds, the script lists what the loader stores, and the
  non-blocking queue is correct for one producer and one consumer as long as the weak exchange of its tail does
  not fail spuriously. Every start of the server ends in one of three ways, and a started replica has connected
  and greeted its master. Where the code does not do what it means to, the theorem states what it does: input that ends the process and with it the service of all clients, the
  one lost wake-up after which no client is served again, replies the two threads can lose, files read
  differently from their format, data a replica never gets.

  \<^bold>\<open>Parameters.\<close> \<open>std::regex\<close> outside the fragment of \<open>Ecma_Regex\<close>, the iteration order of
  \<open>std::unordered_map\<close>, the random draws, the clock, the files, the stack bytes that uninitialised
  variables expose, and the results of the socket calls (\<open>socket\<close> gives the same descriptor for every
  \<open>--replicaof\<close> on the command line). \<open>::toupper\<close> is that of the C locale and leaves bytes from 128 on alone,
  as the C library does where the language does not say.

  \<^bold>\<open>Not modelled.\<close> Terminal output of the server (the script's output is its result and is
  modelled); the mutex of the store (tasks exclude each other, see \<open>Worker_Pool\<close>, and nothing else touches
  the store); the destructor of the pool, which is never reached; failing allocations; what follows an
  undefined access; between a master and its replicas, messages cut into several packets (a cut store is the
  subject of \<open>Malformed_Input\<close>), several requests of a client in one packet, stores with an expiry (one of
  them is followed to the replica in \<open>Cluster_Runs\<close>), stores by a replica's clients, and the two threads inside
  a task; memory orders weaker than sequential
  consistency and the reuse of freed addresses in the non-blocking queue; build files and data.
\<close>

section \<open>From the parser to the client\<close>

text \<open>The client gets the abstract server's reply: for every request, and every interleaving of the
  parser's thread with the thread that sends, when the task is over exactly the abstract reply has
  been sent to the client.\<close>

lemma client_receives_spec_reply:
  assumes "request_ok q (clk w)" and "db_inv (db_handler w)"
    and "spec_serve q (store_of (db_handler w)) (clk w) = (r, m, c)"
    and "comm_reachable (replies_to (Suc d) env fd (request_bytes q) w) s" and "h_pc s = H_Done"
  shows "sent s = [r] \<and> p_pc s = P_Done"
proof -
  from serve_input_request [OF assms(1-3), of d env fd] have
    "replies_to (Suc d) env fd (request_bytes q) w = [r]"
    by (auto simp: replies_to_def)
  with two_delivered [OF assms(4)] spec_reply_nonempty [OF assms(3)] assms(5) show ?thesis
    by simp
qed

text \<open>C28: Pipelining loses acknowledgements: a buffer with three stores is stored completely, but there is
  an interleaving of the two threads in which the client is sent only two of the three replies.\<close>

theorem pipeline_acknowledgement_can_be_lost:
  assumes "length kvs = 3" and "3 \<le> depth" and "length (set_bytes kvs) < 2 ^ 31"
    and "db_inv (db_handler w)"
  shows "\<exists>s. comm_reachable (replies_to depth env fd (set_bytes kvs) w) s \<and> h_pc s = H_Done \<and>
    sent s = [OK_RESPONSE, OK_RESPONSE]"
proof -
  have "kvs \<noteq> []" "length kvs \<le> depth"
    using assms(1,2) by auto
  from serve_pipeline [OF this assms(3,4), of env fd] have
    "replies_to depth env fd (set_bytes kvs) w = [OK_RESPONSE, OK_RESPONSE, OK_RESPONSE]"
    using assms(1) by (simp add: replies_to_def after_pipeline_def numeral_3_eq_3)
  then show ?thesis
    using third_reply_can_be_lost [of OK_RESPONSE OK_RESPONSE OK_RESPONSE] create_string_nonempty
    by simp
qed

theorem pipeline_acknowledgement_can_be_lost_witness:
  "\<exists>s. comm_reachable (replies_to 3 plain_env 7
       (set_bytes [(''a'', ''1''), (''b'', ''2''), (''c'', ''3'')]) empty_world) s \<and>
     h_pc s = H_Done \<and> sent s = [OK_RESPONSE, OK_RESPONSE]"
proof -
  have "length (set_bytes [(''a'', ''1''), (''b'', ''2''), (''c'', ''3'')]) = 81"
    by code_simp
  then show ?thesis
    using pipeline_acknowledgement_can_be_lost [of
        "[(''a'', ''1''), (''b'', ''2''), (''c'', ''3'')]" 3 empty_world plain_env 7]
    by simp
qed

text \<open>C20: A replica gets the RDB file only as long as no wait is woken spuriously: without spurious wake-ups
  both replies of \<open>PSYNC\<close> are delivered in every interleaving; with them, which the language allows, there
  is one in which the task ends after the first line and the file announced by it is never sent.\<close>

theorem spurious_wakeup_loses_rdb_file:
  assumes "role (get_server_info w) = ''master''"
    and "int_ok (connected_slaves (get_server_info w) + 1)"
  defines "line \<equiv> ''+FULLRESYNC '' @ master_replid (get_server_info w) @ '' 0'' @ CRLF"
  shows "(\<forall>s. comm_reachable (replies_to (Suc d) env fd handshake_psync w) s \<longrightarrow> h_pc s = H_Done \<longrightarrow>
      sent s = [line, rdb_reply env]) \<and>
    (\<exists>s. wake_reachable (replies_to (Suc d) env fd handshake_psync w) s \<and> h_pc s = H_Done \<and>
      sent s = [line])"
proof -
  have "replies_to (Suc d) env fd handshake_psync w = [line, rdb_reply env]"
    using serve_handshake_message(4) [OF assms(1,2), of d env fd]
    by (simp add: replies_to_def after_psync_def line_def)
  moreover have "line \<noteq> []" "rdb_reply env \<noteq> []"
    by (simp_all add: line_def rdb_reply_def Let_def)
  ultimately show ?thesis
    using two_delivered [of "[line, rdb_reply env]"] second_reply_lost [of line "rdb_reply env"] by auto
qed

theorem spurious_wakeup_loses_rdb_file_witness:
  "\<exists>s. wake_reachable (replies_to 1 plain_env 7 handshake_psync empty_world) s \<and> h_pc s = H_Done \<and>
     length (sent s) = 1"
proof -
  have "role (get_server_info empty_world) = ''master''"
    "int_ok (connected_slaves (get_server_info empty_world) + 1)"
    by (simp_all add: int_ok_def plain_server_info_def)
  from conjunct2 [OF spurious_wakeup_loses_rdb_file [OF this, of 0 plain_env 7]] show ?thesis
    by auto
qed

section \<open>The whole server\<close>

text \<open>C2: The server as a whole: started on a dump it starts one connection per accepted client, in
  order, and ends with status 1 at the first failing \<open>accept\<close>; and whatever requests its clients send
  and however the pool schedules their tasks, replies and store are those of the abstract server started
  on the entries of the dump.\<close>

theorem server_system_refines_spec:
  assumes "holds_dump h dir name version metas entries crc"
    and "list_all ((\<le>) 0) fds" and "length fds < 2 ^ 31 - 1"
  shows "\<exists>w. server_main h [''server'', ''--dir'', dir, ''--dbfilename'', name] = Inr (Some w) \<and>
    connections w fds = (fds, Inr None) \<and>
    (\<forall>bad more. bad < 0 \<longrightarrow> connections w (fds @ bad # more) = (fds, Inr (Some 1))) \<and>
    (\<forall>d env s tqs rs m c.
       pool_reachable (run_task (Suc d) env) (Inr (), w) s \<longrightarrow>
       completed s = map (\<lambda>(fd, q). (fd, request_bytes q)) tqs \<longrightarrow>
       session_ok (map snd tqs) (map_of entries) (host_clock h) \<longrightarrow>
       spec_serve_all (map snd tqs) (map_of entries) (host_clock h) = (rs, m, c) \<longrightarrow>
       (\<exists>w'. shared s = (Inr (), w') \<and> replies w' = rs \<and> world_view w' = (m, c)))"
proof -
  from server_main_dump [OF assms(1)] obtain w where
    w: "server_main h [''server'', ''--dir'', dir, ''--dbfilename'', name] = Inr (Some w)"
       "store_of (db_handler w) = map_of entries" "db_inv (db_handler w)" "clk w = host_clock h"
       "replies w = []" "role (get_server_info w) = ''master''" by blast
  have "connections w (fds @ more) = (let (clients, r) = accept_loop (1 + int (length fds)) more
      in (fds @ clients, r))" for more
    using accept_loop_serves [of 1 fds more] assms(2,3) w(6)
    by (simp add: connections_def master_connection_def case_prod_beta Let_def)
  from this [of "[]"] this have "connections w fds = (fds, Inr None)"
    "\<forall>bad more. bad < 0 \<longrightarrow> connections w (fds @ bad # more) = (fds, Inr (Some 1))" by simp_all
  moreover have "\<exists>w'. shared s = (Inr (), w') \<and> replies w' = rs \<and> world_view w' = (m, c)"
    if "pool_reachable (run_task (Suc d) env) (Inr (), w) s"
      "completed s = map (\<lambda>(fd, q). (fd, request_bytes q)) tqs"
      "session_ok (map snd tqs) (map_of entries) (host_clock h)"
      "spec_serve_all (map snd tqs) (map_of entries) (host_clock h) = (rs, m, c)"
    for d env s tqs rs m c
    using pool_invariants [OF that(1)] that(2) run_tasks_session [OF _ w(3), of tqs rs m c d env] w(2,4,5)
      that(3,4)
    by (simp add: serial_inv_def)
  ultimately show ?thesis
    using w(1) by blast
qed

text \<open>One client asks a server started on a dump with one entry for its value.\<close>

theorem server_system_refines_spec_witness:
  "\<exists>w s w'. server_main
       (plain_host [''d/f'' \<mapsto> rdb_dump ''0011'' [] [(''k'', \<lparr>db_value = ''v'', expiry_time = 0\<rparr>)] []])
       [''server'', ''--dir'', ''d'', ''--dbfilename'', ''f''] = Inr (Some w) \<and>
     connections w [7] = ([7], Inr None) \<and>
     pool_reachable (run_task 1 plain_env) (Inr (), w) s \<and>
     completed s = [(7, request_bytes (Get ''k''))] \<and>
     shared s = (Inr (), w') \<and> replies w' = [value_reply ''v'']"
proof -
  let ?es = "[(''k'', \<lparr>db_value = ''v'', expiry_time = 0\<rparr>)]"
  let ?h = "plain_host [''d/f'' \<mapsto> rdb_dump ''0011'' [] ?es []]"
  have "holds_dump ?h ''d'' ''f'' ''0011'' [] ?es []"
    by (simp add: holds_dump_def plain_host_def CHARACTERS_def entry_ok_def short_def marker_def)
  from server_system_refines_spec [OF this, of "[7]"] obtain w where
    w: "server_main ?h [''server'', ''--dir'', ''d'', ''--dbfilename'', ''f''] = Inr (Some w)"
       "connections w [7] = ([7], Inr None)"
    and run: "\<And>d env s tqs rs m c. pool_reachable (run_task (Suc d) env) (Inr (), w) s \<Longrightarrow>
       completed s = map (\<lambda>(fd, q). (fd, request_bytes q)) tqs \<Longrightarrow>
       session_ok (map snd tqs) (map_of ?es) (host_clock ?h) \<Longrightarrow>
       spec_serve_all (map snd tqs) (map_of ?es) (host_clock ?h) = (rs, m, c) \<Longrightarrow>
       \<exists>w'. shared s = (Inr (), w') \<and> replies w' = rs \<and> world_view w' = (m, c)"
    by auto
  define s where "s = one_finished (run_task 1 plain_env) (7, request_bytes (Get ''k'')) (Inr (), w)"
  have s: "pool_reachable (run_task (Suc 0) plain_env) (Inr (), w) s"
    "completed s = map (\<lambda>(fd, q). (fd, request_bytes q)) [(7, Get ''k'')]"
    unfolding s_def One_nat_def by (rule one_finished_reachable) (simp add: one_finished_def)
  have "\<exists>w'. shared s = (Inr (), w') \<and> replies w' = [value_reply ''v'']"
    using run [OF s, of "[value_reply ''v'']"] by (auto simp: short_requests fresh_def)
  with w s show ?thesis by auto
qed

text \<open>C7: Every request is answered, as long as no task hangs: at whatever point the pool of a server started on a
  dump has arrived with the requests of any number of clients in its queue, it comes to rest by itself,
  and there all requests have been answered, in the order they were enqueued, as by the abstract server.\<close>

theorem every_request_is_answered:
  assumes "holds_dump h dir name version metas entries crc"
  shows "\<exists>w. server_main h [''server'', ''--dir'', dir, ''--dbfilename'', name] = Inr (Some w) \<and>
    (\<forall>d env s tqs rs m c.
       pool_reachable (run_task (Suc d) env) (Inr (), w) s \<longrightarrow>
       enqueued s = map (\<lambda>(fd, q). (fd, request_bytes q)) tqs \<longrightarrow>
       session_ok (map snd tqs) (map_of entries) (host_clock h) \<longrightarrow>
       spec_serve_all (map snd tqs) (map_of entries) (host_clock h) = (rs, m, c) \<longrightarrow>
       (\<exists>t. (pool_work (run_task (Suc d) env))\<^sup>*\<^sup>* s t \<and> at_rest (pool_work (run_task (Suc d) env)) t) \<and>
       (\<forall>t. (pool_work (run_task (Suc d) env))\<^sup>*\<^sup>* s t \<longrightarrow> at_rest (pool_work (run_task (Suc d) env)) t \<longrightarrow>
          (\<exists>w'. shared t = (Inr (), w') \<and> replies w' = rs \<and> world_view w' = (m, c))))"
proof -
  from server_main_dump [OF assms] obtain w where
    w: "server_main h [''server'', ''--dir'', dir, ''--dbfilename'', name] = Inr (Some w)"
       "store_of (db_handler w) = map_of entries" "db_inv (db_handler w)" "clk w = host_clock h"
       "replies w = []" by blast
  have "\<exists>w'. shared t = (Inr (), w') \<and> replies w' = rs \<and> world_view w' = (m, c)"
    if "pool_reachable (run_task (Suc d) env) (Inr (), w) s"
      "enqueued s = map (\<lambda>(fd, q). (fd, request_bytes q)) tqs"
      "session_ok (map snd tqs) (map_of entries) (host_clock h)"
      "spec_serve_all (map snd tqs) (map_of entries) (host_clock h) = (rs, m, c)"
      "(pool_work (run_task (Suc d) env))\<^sup>*\<^sup>* s t" "at_rest (pool_work (run_task (Suc d) env)) t"
    for d env s t tqs rs m c
    using pool_at_rest [OF pool_works_reachable [OF that(5,1)] that(6)] pool_work_enqueued [OF that(5)]
      that(2-4) run_tasks_session [OF _ w(3), of tqs rs m c d env] w(2,4,5)
    by simp
  moreover have "\<exists>t. (pool_work (run_task (Suc d) env))\<^sup>*\<^sup>* s t \<and> at_rest (pool_work (run_task (Suc d) env)) t"
    if "pool_reachable (run_task (Suc d) env) (Inr (), w) s" for d env s
    by (rule settling.comes_to_rest [OF that])
  ultimately show ?thesis
    using w(1) by (intro exI [of _ w]) blast
qed

theorem every_request_is_answered_witness:
  "\<exists>w t w'. server_main
       (plain_host [''d/f'' \<mapsto> rdb_dump ''0011'' [] [(''k'', \<lparr>db_value = ''v'', expiry_time = 0\<rparr>)] []])
       [''server'', ''--dir'', ''d'', ''--dbfilename'', ''f''] = Inr (Some w) \<and>
     (pool_work (run_task 1 plain_env))\<^sup>*\<^sup>* (one_queued (7, request_bytes (Get ''k'')) (Inr (), w)) t \<and>
     shared t = (Inr (), w') \<and> replies w' = [value_reply ''v'']"
proof -
  let ?es = "[(''k'', \<lparr>db_value = ''v'', expiry_time = 0\<rparr>)]"
  let ?h = "plain_host [''d/f'' \<mapsto> rdb_dump ''0011'' [] ?es []]"
  have "holds_dump ?h ''d'' ''f'' ''0011'' [] ?es []"
    by (simp add: holds_dump_def plain_host_def CHARACTERS_def entry_ok_def short_def marker_def)
  from every_request_is_answered [OF this] obtain w where
    w: "server_main ?h [''server'', ''--dir'', ''d'', ''--dbfilename'', ''f''] = Inr (Some w)"
    and run: "\<And>d env s tqs rs m c.
       pool_reachable (run_task (Suc d) env) (Inr (), w) s \<Longrightarrow>
       enqueued s = map (\<lambda>(fd, q). (fd, request_bytes q)) tqs \<Longrightarrow>
       session_ok (map snd tqs) (map_of ?es) (host_clock ?h) \<Longrightarrow>
       spec_serve_all (map snd tqs) (map_of ?es) (host_clock ?h) = (rs, m, c) \<Longrightarrow>
       (\<exists>t. (pool_work (run_task (Suc d) env))\<^sup>*\<^sup>* s t \<and> at_rest (pool_work (run_task (Suc d) env)) t) \<and>
       (\<forall>t. (pool_work (run_task (Suc d) env))\<^sup>*\<^sup>* s t \<longrightarrow> at_rest (pool_work (run_task (Suc d) env)) t \<longrightarrow>
          (\<exists>w'. shared t = (Inr (), w') \<and> replies w' = rs \<and> world_view w' = (m, c)))"
    by blast
  define s where "s = one_queued (7 :: int, request_bytes (Get ''k'')) (Inr () :: unit result, w)"
  have s: "pool_reachable (run_task (Suc 0) plain_env) (Inr (), w) s"
    "enqueued s = map (\<lambda>(fd, q). (fd, request_bytes q)) [(7, Get ''k'')]"
    unfolding s_def by (rule one_queued_reachable) (simp add: one_queued_def)
  have "session_ok (map snd [(7 :: int, Get ''k'')]) (map_of ?es) (host_clock ?h)"
    "spec_serve_all (map snd [(7 :: int, Get ''k'')]) (map_of ?es) (host_clock ?h) =
       ([value_reply ''v''], map_of ?es, host_clock ?h)"
    by (simp_all add: short_requests)
  from run [OF s this] obtain t w' where
    "(pool_work (run_task (Suc 0) plain_env))\<^sup>*\<^sup>* s t" "shared t = (Inr (), w')"
    "replies w' = [value_reply ''v'']" by blast
  with w show ?thesis
    unfolding s_def One_nat_def by blast
qed

end
